theory Spec2Isabelle
  imports Complex_Main "HOL-Library.Monad_Syntax" "HOL-Library.Multiset"
begin

section \<open>Nodes and the store\<close>

text \<open>
  The program keeps its tree in heap-allocated \<^verbatim>\<open>Node\<close> objects linked by raw pointers.
  A pointer is an optional address (\<open>None\<close> is \<^verbatim>\<open>nullptr\<close>) and the store maps every
  live address to its node. Reading or writing through a null or freed pointer has no
  defined behaviour in C++; every such access is the result \<open>None\<close> of the model.

  Of the fields of \<^verbatim>\<open>Node\<close> only \<^verbatim>\<open>value\<close>, \<^verbatim>\<open>left\<close> and \<^verbatim>\<open>right\<close> are kept (\<^verbatim>\<open>value\<close> is
  written \<open>val\<close>). The layout and drawing fields (\<^verbatim>\<open>x\<close>, \<^verbatim>\<open>y\<close>, \<^verbatim>\<open>animX\<close>, \<^verbatim>\<open>animY\<close>,
  \<^verbatim>\<open>radius\<close>, \<^verbatim>\<open>color\<close>) are floating-point presentation data that no branch of the
  state machines reads; the functions that touch only them (\<^verbatim>\<open>ComputePositions\<close>,
  \<^verbatim>\<open>RecomputeLayoutAndSnap\<close>, \<^verbatim>\<open>SmoothMoveAll\<close>, \<^verbatim>\<open>DrawTree\<close>, \<^verbatim>\<open>FinalizeNewNodes\<close>) are left
  out. Node values are only copied and compared, never computed with, so they are
  mathematical integers.
\<close>

type_synonym addr = nat
type_synonym ptr = "addr option"

record node =
  val :: int
  left :: ptr
  right :: ptr

type_synonym store = "addr \<Rightarrow> node option"

definition deref :: "store \<Rightarrow> ptr \<Rightarrow> node option" where
  "deref h p = (case p of None \<Rightarrow> None | Some a \<Rightarrow> h a)"

definition set_val :: "store \<Rightarrow> ptr \<Rightarrow> int \<Rightarrow> store option" where
  "set_val h p v = (case p of None \<Rightarrow> None | Some a \<Rightarrow>
     (case h a of None \<Rightarrow> None | Some n \<Rightarrow> Some (h(a \<mapsto> n\<lparr>val := v\<rparr>))))"

definition set_left :: "store \<Rightarrow> ptr \<Rightarrow> ptr \<Rightarrow> store option" where
  "set_left h p q = (case p of None \<Rightarrow> None | Some a \<Rightarrow>
     (case h a of None \<Rightarrow> None | Some n \<Rightarrow> Some (h(a \<mapsto> n\<lparr>left := q\<rparr>))))"

definition set_right :: "store \<Rightarrow> ptr \<Rightarrow> ptr \<Rightarrow> store option" where
  "set_right h p q = (case p of None \<Rightarrow> None | Some a \<Rightarrow>
     (case h a of None \<Rightarrow> None | Some n \<Rightarrow> Some (h(a \<mapsto> n\<lparr>right := q\<rparr>))))"

text \<open>
  \<^verbatim>\<open>new Node(v, x, y)\<close>: the allocator hands out an address that is not live; which one is
  the environment's choice, so it is an argument. An address that is live is outside the
  allocator's contract and has no result.
\<close>

definition new_Node :: "store \<Rightarrow> addr \<Rightarrow> int \<Rightarrow> store option" where
  "new_Node h a v =
     (if h a \<noteq> None then None else Some (h(a \<mapsto> \<lparr>val = v, left = None, right = None\<rparr>)))"

text \<open>
  \<^verbatim>\<open>DeleteNodePointer(Node*& ptr)\<close>: nothing on a null pointer, otherwise \<^verbatim>\<open>delete ptr\<close>
  (freeing an address that is not live has no result). The caller's variable is set to
  null where the function is called.
\<close>

definition DeleteNodePointer :: "store \<Rightarrow> ptr \<Rightarrow> store option" where
  "DeleteNodePointer h p = (case p of None \<Rightarrow> Some h | Some a \<Rightarrow>
     (if h a = None then None else Some (h(a := None))))"

section \<open>The global state\<close>

datatype InsertStage = INS_IDLE | INS_TRAVERSING | INS_ATTACHING | INS_FINALIZE

datatype DelStage =
  DEL_IDLE | DEL_TRAVERSING | DEL_HIGHLIGHT_TARGET | DEL_HIGHLIGHT_SUCCESSOR
  | DEL_MOVE_SUCCESSOR | DEL_MOVE_CHILD_UP | DEL_SHRINK_REMOVE | DEL_FINALIZE

datatype SearchStage = S_IDLE | S_TRAVERSING | S_FLASH_FOUND | S_FLASH_NOTFOUND

datatype Mode = MODE_INSERT | MODE_DELETE | MODE_SEARCH

text \<open>
  \<^verbatim>\<open>statusMessage\<close> is a string built from a fixed text and the pending value; the
  constructors stand for the texts of the source: \<^verbatim>\<open>"Inserted v"\<close>, \<^verbatim>\<open>"Deleted v"\<close>,
  \<^verbatim>\<open>"Value v not found for deletion"\<close>, \<^verbatim>\<open>"Found v"\<close>, \<^verbatim>\<open>"Not found v"\<close>, the three
  \<^verbatim>\<open>"... blocked until current animation finishes."\<close> texts, and the empty string.
\<close>

datatype message =
  NoMessage | Inserted int | Deleted int | DeleteNotFound int | Found int | NotFound int
  | InsertBlocked | DeleteBlocked | SearchBlocked

text \<open>
  The file-level variables of \<^verbatim>\<open>main.cpp\<close> (lines 36 and 165--213) together with the
  store. \<^verbatim>\<open>animProgress\<close> is a \<^verbatim>\<open>float\<close> in the source; the model adds the increments
  \<open>1/24\<close> and \<open>1/16\<close> exactly. The frame counters are far from the range of \<^verbatim>\<open>int\<close>.
\<close>

record state =
  heap :: store
  root :: ptr
  insStage :: InsertStage
  insTraversalPath :: "addr list"
  insTraversalIndex :: int
  insFramesCounter :: int
  insParent :: ptr
  insNewNode :: ptr
  insNewIsLeft :: bool
  insFinalizeTimer :: int
  insValuePending :: int
  delStage :: DelStage
  delTraversalPath :: "addr list"
  delTraversalIndex :: int
  delFramesCounter :: int
  delTargetParent :: ptr
  delTargetNode :: ptr
  successorParent :: ptr
  successorNode :: ptr
  animNode :: ptr
  animReplaceNode :: ptr
  animProgress :: rat
  delValuePending :: int
  searchStage :: SearchStage
  searchPath :: "addr list"
  searchIndex :: int
  searchFrames :: int
  flashCount :: int
  searchFinalNode :: ptr
  searchValuePending :: int
  statusMessage :: message
  statusTimer :: int

definition INS_STEP_FRAMES :: int where "INS_STEP_FRAMES = 12"
definition DEL_STEP_FRAMES :: int where "DEL_STEP_FRAMES = 12"
definition SEARCH_STEP_FRAMES :: int where "SEARCH_STEP_FRAMES = 12"
definition FLASH_FRAMES :: int where "FLASH_FRAMES = 12"
definition animDuration :: rat where "animDuration = 24"

text \<open>The values of the globals when \<^verbatim>\<open>main\<close> starts: the empty tree, every machine idle.\<close>

definition init :: state where
  "init = \<lparr> heap = Map.empty, root = None,
     insStage = INS_IDLE, insTraversalPath = [], insTraversalIndex = 0,
     insFramesCounter = 0, insParent = None, insNewNode = None, insNewIsLeft = False,
     insFinalizeTimer = 0, insValuePending = 0,
     delStage = DEL_IDLE, delTraversalPath = [], delTraversalIndex = 0,
     delFramesCounter = 0, delTargetParent = None, delTargetNode = None,
     successorParent = None, successorNode = None, animNode = None,
     animReplaceNode = None, animProgress = 0, delValuePending = 0,
     searchStage = S_IDLE, searchPath = [], searchIndex = 0, searchFrames = 0,
     flashCount = 0, searchFinalNode = None, searchValuePending = 0,
     statusMessage = NoMessage, statusTimer = 0 \<rparr>"

section \<open>Tree helpers\<close>

text \<open>
  \<^verbatim>\<open>FindInorderSuccessor\<close> (lines 105--114): the loop \<^verbatim>\<open>while (cur->left)\<close> carries
  \<open>(parent, cur)\<close>. A loop that never ends has the value \<open>None\<close>.
\<close>

partial_function (option) FindInorderSuccessor_loop ::
  "store \<Rightarrow> addr \<Rightarrow> addr \<Rightarrow> (addr \<times> addr) option" where
  "FindInorderSuccessor_loop h parent cur =
     (case h cur of None \<Rightarrow> None | Some n \<Rightarrow>
        (case left n of None \<Rightarrow> Some (parent, cur)
         | Some l \<Rightarrow> FindInorderSuccessor_loop h cur l))"

definition FindInorderSuccessor :: "store \<Rightarrow> ptr \<Rightarrow> (ptr \<times> ptr) option" where
  "FindInorderSuccessor h node =
     (case node of None \<Rightarrow> Some (None, None) | Some a \<Rightarrow>
        (case h a of None \<Rightarrow> None | Some n \<Rightarrow>
           (case right n of None \<Rightarrow> Some (None, None)
            | Some r \<Rightarrow> map_option (\<lambda>(p, c). (Some p, Some c))
                         (FindInorderSuccessor_loop h a r))))"

section \<open>Starting an operation\<close>

text \<open>
  \<^verbatim>\<open>StartInsertion\<close> (lines 216--259). The loop \<^verbatim>\<open>while (cur)\<close> carries the locals
  \<open>cur\<close> and \<open>parent\<close> and writes \<^verbatim>\<open>insTraversalPath\<close> and \<^verbatim>\<open>insNewIsLeft\<close>.
\<close>

partial_function (option) StartInsertion_loop ::
  "int \<Rightarrow> ptr \<Rightarrow> ptr \<Rightarrow> state \<Rightarrow> (ptr \<times> state) option" where
  "StartInsertion_loop v cur parent s =
     (case cur of None \<Rightarrow> Some (parent, s) | Some a \<Rightarrow>
        (case heap s a of None \<Rightarrow> None | Some n \<Rightarrow>
           (if v < val n
            then StartInsertion_loop v (left n) (Some a)
                   (s\<lparr>insTraversalPath := insTraversalPath s @ [a], insNewIsLeft := True\<rparr>)
            else StartInsertion_loop v (right n) (Some a)
                   (s\<lparr>insTraversalPath := insTraversalPath s @ [a], insNewIsLeft := False\<rparr>))))"

definition StartInsertion :: "int \<Rightarrow> state \<Rightarrow> state option" where
  "StartInsertion v s0 =
     (let s = s0\<lparr>insTraversalPath := [], insTraversalIndex := 0, insFramesCounter := 0,
                 insStage := INS_TRAVERSING, insParent := None, insNewNode := None,
                 insNewIsLeft := False, insValuePending := v\<rparr>
      in if root s = None then Some (s\<lparr>insParent := None, insNewIsLeft := False\<rparr>)
         else do {
           (parent, s') \<leftarrow> StartInsertion_loop v (root s) None s;
           Some (s'\<lparr>insParent := parent\<rparr>)
         })"

text \<open>\<^verbatim>\<open>AttachNewNodeFromPending\<close> (lines 262--279); \<open>a\<close> is the address \<^verbatim>\<open>new\<close> returns.\<close>

definition AttachNewNodeFromPending :: "addr \<Rightarrow> state \<Rightarrow> state option" where
  "AttachNewNodeFromPending a s = do {
     h \<leftarrow> new_Node (heap s) a (insValuePending s);
     s1 \<leftarrow> (if insParent s = None then Some (s\<lparr>heap := h, root := Some a\<rparr>)
            else if insNewIsLeft s
              then map_option (\<lambda>h'. s\<lparr>heap := h'\<rparr>) (set_left h (insParent s) (Some a))
              else map_option (\<lambda>h'. s\<lparr>heap := h'\<rparr>) (set_right h (insParent s) (Some a)));
     Some (s1\<lparr>insNewNode := Some a, insFinalizeTimer := 120,
              statusMessage := Inserted (insValuePending s), statusTimer := 120\<rparr>)
   }"

text \<open>
  \<^verbatim>\<open>StartDeletion\<close> (lines 282--311). The loop carries \<open>cur\<close> and \<open>parent\<close> and writes
  \<^verbatim>\<open>delTraversalPath\<close>, \<^verbatim>\<open>delTargetParent\<close> and \<^verbatim>\<open>delTargetNode\<close>; \<^verbatim>\<open>break\<close> ends it.
\<close>

partial_function (option) StartDeletion_loop ::
  "int \<Rightarrow> ptr \<Rightarrow> ptr \<Rightarrow> state \<Rightarrow> state option" where
  "StartDeletion_loop v cur parent s =
     (case cur of None \<Rightarrow> Some s | Some a \<Rightarrow>
        (let s1 = s\<lparr>delTraversalPath := delTraversalPath s @ [a]\<rparr> in
         case heap s1 a of None \<Rightarrow> None | Some n \<Rightarrow>
           (if v = val n
            then Some (s1\<lparr>delTargetParent := parent, delTargetNode := Some a\<rparr>)
            else if v < val n then StartDeletion_loop v (left n) (Some a) s1
            else StartDeletion_loop v (right n) (Some a) s1)))"

definition StartDeletion :: "int \<Rightarrow> state \<Rightarrow> state option" where
  "StartDeletion v s0 =
     (let s = s0\<lparr>delTraversalPath := [], delTraversalIndex := 0, delFramesCounter := 0,
                 delStage := DEL_TRAVERSING, delTargetParent := None, delTargetNode := None,
                 successorParent := None, successorNode := None, animNode := None,
                 animReplaceNode := None, animProgress := 0, delValuePending := v\<rparr>
      in StartDeletion_loop v (root s) None s)"

text \<open>\<^verbatim>\<open>StartSearch\<close> (lines 314--334).\<close>

partial_function (option) StartSearch_loop :: "int \<Rightarrow> ptr \<Rightarrow> state \<Rightarrow> state option" where
  "StartSearch_loop v cur s =
     (case cur of None \<Rightarrow> Some s | Some a \<Rightarrow>
        (let s1 = s\<lparr>searchPath := searchPath s @ [a]\<rparr> in
         case heap s1 a of None \<Rightarrow> None | Some n \<Rightarrow>
           (if v = val n then Some (s1\<lparr>searchFinalNode := Some a\<rparr>)
            else if v < val n then StartSearch_loop v (left n) s1
            else StartSearch_loop v (right n) s1)))"

definition StartSearch :: "int \<Rightarrow> state \<Rightarrow> state option" where
  "StartSearch v s0 =
     (let s = s0\<lparr>searchPath := [], searchIndex := 0, searchFrames := 0, flashCount := 0,
                 searchFinalNode := None, searchStage := S_TRAVERSING,
                 searchValuePending := v\<rparr>
      in StartSearch_loop v (root s) s)"

section \<open>One frame of the main loop\<close>

text \<open>
  What the environment supplies in a frame: whether Enter was pressed on a non-empty
  input box, with the current mode and the number typed (\<^verbatim>\<open>std::stoi(inputText)\<close>), and
  the address the allocator would return in this frame. Focus, typing, buttons and
  the camera are user-interface state outside the machines.
\<close>

record input =
  cmd :: "(Mode \<times> int) option"
  alloc :: addr

text \<open>The command gate, lines 400--435.\<close>

definition handle_enter :: "(Mode \<times> int) option \<Rightarrow> state \<Rightarrow> state option" where
  "handle_enter c s = (case c of None \<Rightarrow> Some s | Some (mode, v) \<Rightarrow>
     (if mode = MODE_INSERT then
        (if delStage s = DEL_IDLE \<and> insStage s = INS_IDLE then StartInsertion v s
         else Some (s\<lparr>statusMessage := InsertBlocked, statusTimer := 120\<rparr>))
      else if mode = MODE_DELETE then
        (if delStage s = DEL_IDLE \<and> searchStage s = S_IDLE \<and> insStage s = INS_IDLE
         then StartDeletion v s
         else Some (s\<lparr>statusMessage := DeleteBlocked, statusTimer := 120\<rparr>))
      else
        (if delStage s = DEL_IDLE \<and> insStage s = INS_IDLE \<and> searchStage s = S_IDLE
         then StartSearch v s
         else Some (s\<lparr>statusMessage := SearchBlocked, statusTimer := 120\<rparr>))))"

text \<open>The insert state machine, lines 447--473.\<close>

definition insert_machine :: "addr \<Rightarrow> state \<Rightarrow> state option" where
  "insert_machine a s0 =
     (if insStage s0 = INS_TRAVERSING then
        (let s = s0\<lparr>insFramesCounter := insFramesCounter s0 + 1\<rparr> in
         if insFramesCounter s \<ge> INS_STEP_FRAMES then
           (let s = s\<lparr>insFramesCounter := 0\<rparr> in
            if insTraversalIndex s < int (length (insTraversalPath s))
            then Some (s\<lparr>insTraversalIndex := insTraversalIndex s + 1\<rparr>)
            else map_option (\<lambda>s'. s'\<lparr>insStage := INS_FINALIZE\<rparr>)
                   (AttachNewNodeFromPending a (s\<lparr>insStage := INS_ATTACHING\<rparr>)))
         else Some s)
      else if insStage s0 = INS_FINALIZE then
        (if insFinalizeTimer s0 > 0 then
           (let s = s0\<lparr>insFinalizeTimer := insFinalizeTimer s0 - 1\<rparr> in
            if insFinalizeTimer s = 0 then Some (s\<lparr>insNewNode := None, insStage := INS_IDLE\<rparr>)
            else Some s)
         else Some s0)
      else Some s0)"

text \<open>The delete state machine, lines 475--629, one definition for each stage.\<close>

definition del_traversing :: "state \<Rightarrow> state" where
  "del_traversing s0 =
     (let s = s0\<lparr>delFramesCounter := delFramesCounter s0 + 1\<rparr> in
      if delFramesCounter s \<ge> DEL_STEP_FRAMES then
        (let s = s\<lparr>delFramesCounter := 0\<rparr> in
         if delTraversalIndex s < int (length (delTraversalPath s))
         then s\<lparr>delTraversalIndex := delTraversalIndex s + 1\<rparr>
         else if delTargetNode s = None
         then s\<lparr>statusMessage := DeleteNotFound (delValuePending s), statusTimer := 120,
                delStage := DEL_IDLE, delTraversalPath := [], delTraversalIndex := 0\<rparr>
         else s\<lparr>delStage := DEL_HIGHLIGHT_TARGET, delFramesCounter := 0\<rparr>)
      else s)"

text \<open>
  Lines 499--527. In the one-child branch \<^verbatim>\<open>animNode->animX\<close> and \<^verbatim>\<open>delTargetNode->x\<close> are
  read, which dereferences both pointers.
\<close>

definition del_highlight_target :: "state \<Rightarrow> state option" where
  "del_highlight_target s0 =
     (let s = s0\<lparr>delFramesCounter := delFramesCounter s0 + 1\<rparr> in
      if delFramesCounter s \<ge> 30 then do {
        t \<leftarrow> deref (heap s) (delTargetNode s);
        if left t = None \<and> right t = None then
          Some (s\<lparr>delStage := DEL_SHRINK_REMOVE, animNode := delTargetNode s,
                  animProgress := 0\<rparr>)
        else if left t \<noteq> None \<and> right t \<noteq> None then do {
          pr \<leftarrow> FindInorderSuccessor (heap s) (delTargetNode s);
          let s1 = s\<lparr>successorParent := (if fst pr \<noteq> None then fst pr else delTargetNode s),
                      successorNode := snd pr\<rparr>;
          let s2 = (if successorNode s1 \<noteq> None then s1\<lparr>delStage := DEL_HIGHLIGHT_SUCCESSOR\<rparr>
                    else s1\<lparr>delStage := DEL_FINALIZE\<rparr>);
          Some (s2\<lparr>delFramesCounter := 0\<rparr>)
        } else do {
          let s1 = s\<lparr>delStage := DEL_MOVE_CHILD_UP\<rparr>;
          let s2 = (if left t \<noteq> None then s1\<lparr>animNode := left t\<rparr>
                    else s1\<lparr>animNode := right t\<rparr>);
          _ \<leftarrow> deref (heap s2) (animNode s2);
          Some (s2\<lparr>animProgress := 0\<rparr>)
        }
      } else Some s)"

text \<open>Lines 528--539.\<close>

definition del_highlight_successor :: "state \<Rightarrow> state option" where
  "del_highlight_successor s0 =
     (let s = s0\<lparr>delFramesCounter := delFramesCounter s0 + 1\<rparr> in
      if delFramesCounter s \<ge> 30 then do {
        _ \<leftarrow> deref (heap s) (successorNode s);
        _ \<leftarrow> deref (heap s) (delTargetNode s);
        Some (s\<lparr>delStage := DEL_MOVE_SUCCESSOR, animNode := successorNode s,
                animReplaceNode := delTargetNode s, animProgress := 0\<rparr>)
      } else Some s)"

text \<open>
  The commit of the two-child branch, lines 546--551, on the store: the value copy, the
  unlinking of the successor, the release of the successor.
\<close>

definition copy_successor_value :: "store \<Rightarrow> ptr \<Rightarrow> ptr \<Rightarrow> store option" where
  "copy_successor_value h target succ = do {
     sn \<leftarrow> deref h succ;
     set_val h target (val sn)
   }"

definition unlink_successor :: "store \<Rightarrow> ptr \<Rightarrow> ptr \<Rightarrow> store option" where
  "unlink_successor h sparent succ = do {
     sp \<leftarrow> deref h sparent;
     if left sp = succ then do { sn \<leftarrow> deref h succ; set_left h sparent (right sn) }
     else if right sp = succ then do { sn \<leftarrow> deref h succ; set_right h sparent (right sn) }
     else Some h
   }"

definition commit_move_successor :: "store \<Rightarrow> ptr \<Rightarrow> ptr \<Rightarrow> ptr \<Rightarrow> store option" where
  "commit_move_successor h target sparent succ = do {
     h1 \<leftarrow> copy_successor_value h target succ;
     h2 \<leftarrow> unlink_successor h1 sparent succ;
     DeleteNodePointer h2 succ
   }"

text \<open>Lines 540--562.\<close>

definition del_move_successor :: "state \<Rightarrow> state option" where
  "del_move_successor s0 =
     (let s1 = s0\<lparr>animProgress := animProgress s0 + 1 / animDuration\<rparr>;
          s = (if animProgress s1 > 1 then s1\<lparr>animProgress := 1\<rparr> else s1)
      in do {
        _ \<leftarrow> deref (heap s) (animNode s);
        if animProgress s \<ge> 1 then do {
          h \<leftarrow> commit_move_successor (heap s) (delTargetNode s) (successorParent s)
                 (successorNode s);
          Some (s\<lparr>heap := h, successorNode := None, successorParent := None,
                  animNode := None, animReplaceNode := None, delStage := DEL_FINALIZE,
                  delFramesCounter := 0, statusMessage := Deleted (delValuePending s),
                  statusTimer := 120\<rparr>)
        } else Some s
      })"

text \<open>
  The commit of the one-child branch, lines 569--585, on the store and the root: the
  target's slot in its parent (or the root) takes the target's child, the target is
  released.
\<close>

definition commit_move_child_up :: "store \<Rightarrow> ptr \<Rightarrow> ptr \<Rightarrow> ptr \<Rightarrow> (store \<times> ptr) option" where
  "commit_move_child_up h rt parent target =
     (case parent of
        None \<Rightarrow> do {
          t \<leftarrow> deref h target;
          h' \<leftarrow> DeleteNodePointer h target;
          Some (h', if left t \<noteq> None then left t else right t)
        }
      | Some p \<Rightarrow> do {
          pn \<leftarrow> h p;
          h1 \<leftarrow> (if left pn = target then do {
                   t \<leftarrow> deref h target;
                   set_left h parent (if left t \<noteq> None then left t else right t)
                 } else if right pn = target then do {
                   t \<leftarrow> deref h target;
                   set_right h parent (if left t \<noteq> None then left t else right t)
                 } else Some h);
          h' \<leftarrow> DeleteNodePointer h1 target;
          Some (h', rt)
        })"

text \<open>Lines 563--594.\<close>

definition del_move_child_up :: "state \<Rightarrow> state option" where
  "del_move_child_up s0 =
     (let s1 = s0\<lparr>animProgress := animProgress s0 + 1 / animDuration\<rparr>;
          s = (if animProgress s1 > 1 then s1\<lparr>animProgress := 1\<rparr> else s1)
      in do {
        _ \<leftarrow> deref (heap s) (animNode s);
        if animProgress s \<ge> 1 then do {
          (h, r) \<leftarrow> commit_move_child_up (heap s) (root s) (delTargetParent s)
                      (delTargetNode s);
          Some (s\<lparr>heap := h, root := r, delTargetNode := None, animNode := None,
                  delStage := DEL_FINALIZE, statusMessage := Deleted (delValuePending s),
                  statusTimer := 120\<rparr>)
        } else Some s
      })"

text \<open>
  The commit of the leaf branch, lines 602--611: with no parent \<^verbatim>\<open>DeleteNodePointer(root)\<close>
  releases the root and nulls it; otherwise the parent's slot holding \<^verbatim>\<open>animNode\<close> is
  cleared and \<^verbatim>\<open>animNode\<close> released.
\<close>

definition commit_shrink_remove :: "store \<Rightarrow> ptr \<Rightarrow> ptr \<Rightarrow> ptr \<Rightarrow> (store \<times> ptr) option" where
  "commit_shrink_remove h rt parent anim =
     (case parent of
        None \<Rightarrow> do { h' \<leftarrow> DeleteNodePointer h rt; Some (h', None) }
      | Some p \<Rightarrow> do {
          pn \<leftarrow> h p;
          h1 \<leftarrow> (if left pn = anim then set_left h parent None
                 else if right pn = anim then set_right h parent None
                 else Some h);
          h' \<leftarrow> DeleteNodePointer h1 anim;
          Some (h', rt)
        })"

text \<open>Lines 595--620; \<^verbatim>\<open>animDuration / 1.5f\<close> is 16 frames.\<close>

definition del_shrink_remove :: "state \<Rightarrow> state option" where
  "del_shrink_remove s0 =
     (if animNode s0 = None then Some (s0\<lparr>delStage := DEL_FINALIZE\<rparr>)
      else
        (let s = s0\<lparr>animProgress := animProgress s0 + 1 / (animDuration / (3 / 2))\<rparr> in do {
           _ \<leftarrow> deref (heap s) (animNode s);
           if animProgress s \<ge> 1 then do {
             (h, r) \<leftarrow> commit_shrink_remove (heap s) (root s) (delTargetParent s) (animNode s);
             Some (s\<lparr>heap := h, root := r, animNode := None, delTargetNode := None,
                     delStage := DEL_FINALIZE, statusMessage := Deleted (delValuePending s),
                     statusTimer := 120\<rparr>)
           } else Some s
         }))"

text \<open>Lines 621--629.\<close>

definition del_finalize :: "state \<Rightarrow> state" where
  "del_finalize s0 =
     (let s = s0\<lparr>delFramesCounter := delFramesCounter s0 + 1\<rparr> in
      if delFramesCounter s > 20
      then s\<lparr>delStage := DEL_IDLE, delTraversalPath := [], delTraversalIndex := 0,
             delFramesCounter := 0\<rparr>
      else s)"

definition delete_machine :: "state \<Rightarrow> state option" where
  "delete_machine s =
     (if delStage s = DEL_TRAVERSING then Some (del_traversing s)
      else if delStage s = DEL_HIGHLIGHT_TARGET then del_highlight_target s
      else if delStage s = DEL_HIGHLIGHT_SUCCESSOR then del_highlight_successor s
      else if delStage s = DEL_MOVE_SUCCESSOR then del_move_successor s
      else if delStage s = DEL_MOVE_CHILD_UP then del_move_child_up s
      else if delStage s = DEL_SHRINK_REMOVE then del_shrink_remove s
      else if delStage s = DEL_FINALIZE then Some (del_finalize s)
      else Some s)"

text \<open>The search state machine, lines 631--695.\<close>

definition search_flash :: "state \<Rightarrow> state" where
  "search_flash s0 =
     (let s = s0\<lparr>searchFrames := searchFrames s0 + 1\<rparr> in
      if searchFrames s \<ge> FLASH_FRAMES then
        (let s = s\<lparr>searchFrames := 0, flashCount := flashCount s + 1\<rparr> in
         if flashCount s \<ge> 6
         then s\<lparr>searchStage := S_IDLE, searchPath := [], searchIndex := 0, flashCount := 0,
                searchFinalNode := None\<rparr>
         else s)
      else s)"

definition search_machine :: "state \<Rightarrow> state" where
  "search_machine s0 =
     (if searchStage s0 = S_TRAVERSING then
        (if delStage s0 \<noteq> DEL_IDLE \<or> insStage s0 \<noteq> INS_IDLE then s0
         else
           (let s = s0\<lparr>searchFrames := searchFrames s0 + 1\<rparr> in
            if searchFrames s \<ge> SEARCH_STEP_FRAMES then
              (let s = s\<lparr>searchFrames := 0\<rparr> in
               if searchIndex s < int (length (searchPath s))
               then s\<lparr>searchIndex := searchIndex s + 1\<rparr>
               else if searchPath s = []
               then s\<lparr>searchStage := S_FLASH_NOTFOUND, searchFinalNode := None,
                      statusMessage := NotFound (searchValuePending s), statusTimer := 120\<rparr>
               else if searchFinalNode s \<noteq> None
               then s\<lparr>searchStage := S_FLASH_FOUND,
                      statusMessage := Found (searchValuePending s), statusTimer := 120\<rparr>
               else s\<lparr>searchStage := S_FLASH_NOTFOUND,
                      searchFinalNode := Some (last (searchPath s)),
                      statusMessage := NotFound (searchValuePending s), statusTimer := 120\<rparr>)
            else s))
      else if searchStage s0 = S_FLASH_FOUND then search_flash s0
      else if searchStage s0 = S_FLASH_NOTFOUND then search_flash s0
      else s0)"

text \<open>Lines 697--705 and 707--711.\<close>

definition finalize_timer :: "state \<Rightarrow> state" where
  "finalize_timer s0 =
     (if insFinalizeTimer s0 > 0 then
        (let s = s0\<lparr>insFinalizeTimer := insFinalizeTimer s0 - 1\<rparr> in
         if insFinalizeTimer s = 0 then s\<lparr>insNewNode := None, insStage := INS_IDLE\<rparr> else s)
      else s0)"

definition status_timer :: "state \<Rightarrow> state" where
  "status_timer s0 =
     (if statusTimer s0 > 0 then
        (let s = s0\<lparr>statusTimer := statusTimer s0 - 1\<rparr> in
         if statusTimer s = 0 then s\<lparr>statusMessage := NoMessage\<rparr> else s)
      else s0)"

text \<open>
  The drawing section writes one global: lines 749--758 refill an empty
  \<^verbatim>\<open>insTraversalPath\<close> while an insertion traverses, and lines 829--839 do so again after
  drawing and reset \<^verbatim>\<open>insTraversalIndex\<close>.
\<close>

partial_function (option) populate_loop :: "ptr \<Rightarrow> state \<Rightarrow> state option" where
  "populate_loop tmp s =
     (case tmp of None \<Rightarrow> Some s | Some a \<Rightarrow>
        (let s1 = s\<lparr>insTraversalPath := insTraversalPath s @ [a]\<rparr> in
         case heap s1 a of None \<Rightarrow> None | Some n \<Rightarrow>
           (if insValuePending s1 < val n then populate_loop (left n) s1
            else populate_loop (right n) s1)))"

definition draw_populate :: "state \<Rightarrow> state option" where
  "draw_populate s =
     (if insStage s = INS_TRAVERSING then
        (if insTraversalPath s = [] \<and> root s \<noteq> None then populate_loop (root s) s
         else Some s)
      else Some s)"

definition post_populate :: "state \<Rightarrow> state option" where
  "post_populate s =
     (if insStage s = INS_TRAVERSING \<and> insTraversalPath s = [] then
        map_option (\<lambda>s'. s'\<lparr>insTraversalIndex := 0\<rparr>)
          (if root s \<noteq> None then populate_loop (root s) s else Some s)
      else Some s)"

text \<open>
  One iteration of the loop \<^verbatim>\<open>while (!WindowShouldClose())\<close>: the command gate, then the
  three machines, the two timers and the two refills in the order of the source.
\<close>

definition frame_machines :: "addr \<Rightarrow> state \<Rightarrow> state option" where
  "frame_machines a s = do {
     s2 \<leftarrow> insert_machine a s;
     s3 \<leftarrow> delete_machine s2;
     s4 \<leftarrow> draw_populate (status_timer (finalize_timer (search_machine s3)));
     post_populate s4
   }"

definition tick :: "input \<Rightarrow> state \<Rightarrow> state option" where
  "tick i s = do {
     s1 \<leftarrow> handle_enter (cmd i) s;
     frame_machines (alloc i) s1
   }"

text \<open>The frames of a run, one input for each; the run stops at the first frame with no result.\<close>

fun run :: "input list \<Rightarrow> state \<Rightarrow> state option" where
  "run [] s = Some s"
| "run (i # is) s = (case tick i s of None \<Rightarrow> None | Some s' \<Rightarrow> run is s')"

text \<open>
  Letting the machines run with no further command until all three are idle. The frames
  are the environment's; a machine that never comes to rest has the value \<open>None\<close>.
\<close>

definition all_idle :: "state \<Rightarrow> bool" where
  "all_idle s \<longleftrightarrow> insStage s = INS_IDLE \<and> delStage s = DEL_IDLE \<and> searchStage s = S_IDLE"

partial_function (option) settle :: "addr \<Rightarrow> state \<Rightarrow> state option" where
  "settle a s =
     (if all_idle s then Some s
      else case tick \<lparr>cmd = None, alloc = a\<rparr> s of None \<Rightarrow> None | Some s' \<Rightarrow> settle a s')"

text \<open>A command entered in one frame and left to settle.\<close>

definition request :: "Mode \<Rightarrow> int \<Rightarrow> addr \<Rightarrow> state \<Rightarrow> state option" where
  "request m v a s =
     (case tick \<lparr>cmd = Some (m, v), alloc = a\<rparr> s of None \<Rightarrow> None | Some s' \<Rightarrow> settle a s')"

text \<open>A sequence of commands, each entered once the one before has settled.\<close>

fun script :: "(Mode \<times> int \<times> addr) list \<Rightarrow> state \<Rightarrow> state option" where
  "script [] s = Some s"
| "script ((m, v, a) # ops) s =
     (case request m v a s of None \<Rightarrow> None | Some s' \<Rightarrow> script ops s')"

section \<open>Trees in the store\<close>

text \<open>
  The shape the store holds below a pointer: every node with its address and value.
  \<open>is_tree h p t\<close> says that the nodes reachable from \<open>p\<close> in \<open>h\<close> are exactly the nodes
  of \<open>t\<close>, each at its own address (no sharing, no cycle).
\<close>

datatype atree = Tip | Nd atree addr int atree

fun addrs :: "atree \<Rightarrow> addr set" where
  "addrs Tip = {}"
| "addrs (Nd l a v r) = insert a (addrs l \<union> addrs r)"

fun root_addr :: "atree \<Rightarrow> ptr" where
  "root_addr Tip = None"
| "root_addr (Nd l a v r) = Some a"

fun is_tree :: "store \<Rightarrow> ptr \<Rightarrow> atree \<Rightarrow> bool" where
  "is_tree h p Tip = (p = None)"
| "is_tree h p (Nd l a v r) =
     (p = Some a \<and> a \<notin> addrs l \<and> a \<notin> addrs r \<and> addrs l \<inter> addrs r = {} \<and>
      (case h a of None \<Rightarrow> False
       | Some n \<Rightarrow> val n = v \<and> is_tree h (left n) l \<and> is_tree h (right n) r))"

fun inorder :: "atree \<Rightarrow> int list" where
  "inorder Tip = []"
| "inorder (Nd l a v r) = inorder l @ v # inorder r"

fun size_tree :: "atree \<Rightarrow> nat" where
  "size_tree Tip = 0"
| "size_tree (Nd l a v r) = Suc (size_tree l + size_tree r)"

text \<open>
  The ordering invariant of the specification: every value of the left subtree is
  strictly smaller than the node's value, every value of the right subtree is at least
  the node's value.
\<close>

fun bst :: "atree \<Rightarrow> bool" where
  "bst Tip = True"
| "bst (Nd l a v r) =
     (bst l \<and> bst r \<and> list_all (\<lambda>x. x < v) (inorder l) \<and> list_all (\<lambda>x. v \<le> x) (inorder r))"

text \<open>The descent of an insertion: the nodes visited, the last of them, the side taken there.\<close>

fun ins_path :: "int \<Rightarrow> atree \<Rightarrow> addr list" where
  "ins_path v Tip = []"
| "ins_path v (Nd l a x r) = a # (if v < x then ins_path v l else ins_path v r)"

fun ins_slot :: "int \<Rightarrow> atree \<Rightarrow> ptr \<times> bool \<Rightarrow> ptr \<times> bool" where
  "ins_slot v Tip pb = pb"
| "ins_slot v (Nd l a x r) pb =
     (if v < x then ins_slot v l (Some a, True) else ins_slot v r (Some a, False))"

fun a_insert :: "addr \<Rightarrow> int \<Rightarrow> atree \<Rightarrow> atree" where
  "a_insert n v Tip = Nd Tip n v Tip"
| "a_insert n v (Nd l a x r) =
     (if v < x then Nd (a_insert n v l) a x r else Nd l a x (a_insert n v r))"

text \<open>The descent of a deletion or a search: it stops at the first node holding the value.\<close>

fun del_path :: "int \<Rightarrow> atree \<Rightarrow> addr list" where
  "del_path v Tip = []"
| "del_path v (Nd l a x r) =
     a # (if v = x then [] else if v < x then del_path v l else del_path v r)"

fun a_find :: "int \<Rightarrow> atree \<Rightarrow> ptr \<Rightarrow> (ptr \<times> addr) option" where
  "a_find v Tip p = None"
| "a_find v (Nd l a x r) p =
     (if v = x then Some (p, a) else if v < x then a_find v l (Some a) else a_find v r (Some a))"

text \<open>The leftmost node of a tree with its parent (\<open>p\<close> is the parent of the tree's root).\<close>

fun a_leftmost :: "addr \<Rightarrow> atree \<Rightarrow> (addr \<times> addr \<times> int) option" where
  "a_leftmost p Tip = None"
| "a_leftmost p (Nd l a x r) =
     (case a_leftmost a l of None \<Rightarrow> Some (p, a, x) | Some res \<Rightarrow> Some res)"

fun del_min :: "atree \<Rightarrow> atree" where
  "del_min Tip = Tip"
| "del_min (Nd l a x r) = (if l = Tip then r else Nd (del_min l) a x r)"

text \<open>
  Removing the root of a tree the way the three branches do: a leaf disappears, an only
  child takes the place, and with two children the node takes the value of the leftmost
  node of its right subtree, which is removed.
\<close>

fun a_del_root :: "atree \<Rightarrow> atree" where
  "a_del_root Tip = Tip"
| "a_del_root (Nd l a x r) =
     (if l \<noteq> Tip \<and> r \<noteq> Tip then
        (case a_leftmost a r of None \<Rightarrow> Nd l a x r | Some (p, s, m) \<Rightarrow> Nd l a m (del_min r))
      else if l \<noteq> Tip then l else r)"

text \<open>The subtree at an address, and the tree with the subtree at an address exchanged.\<close>

fun subtree :: "addr \<Rightarrow> atree \<Rightarrow> atree" where
  "subtree x Tip = Tip"
| "subtree x (Nd l a v r) =
     (if x = a then Nd l a v r else if x \<in> addrs l then subtree x l else subtree x r)"

fun replace :: "addr \<Rightarrow> atree \<Rightarrow> atree \<Rightarrow> atree" where
  "replace x s Tip = Tip"
| "replace x s (Nd l a v r) =
     (if x = a then s else if x \<in> addrs l then Nd (replace x s l) a v r
      else Nd l a v (replace x s r))"

definition a_remove :: "addr \<Rightarrow> atree \<Rightarrow> atree" where
  "a_remove x t = replace x (a_del_root (subtree x t)) t"

fun a_parent :: "addr \<Rightarrow> atree \<Rightarrow> ptr" where
  "a_parent x Tip = None"
| "a_parent x (Nd l a v r) =
     (if x = a then None
      else if root_addr l = Some x \<or> root_addr r = Some x then Some a
      else if x \<in> addrs l then a_parent x l else a_parent x r)"

text \<open>Every address occurs once in a tree.\<close>

fun distinct_tree :: "atree \<Rightarrow> bool" where
  "distinct_tree Tip = True"
| "distinct_tree (Nd l a v r) =
     (a \<notin> addrs l \<and> a \<notin> addrs r \<and> addrs l \<inter> addrs r = {} \<and> distinct_tree l \<and> distinct_tree r)"

section \<open>The one-shot structural deleter\<close>





section \<open>The invariant of the frames\<close>

text \<open>The store holds the tree \<open>t\<close> below the root and nothing else.\<close>

definition tree_ok :: "atree \<Rightarrow> state \<Rightarrow> bool" where
  "tree_ok t s \<longleftrightarrow> is_tree (heap s) (root s) t \<and> dom (heap s) = addrs t"

text \<open>Insert and Delete exclude each other, and Delete excludes Search.\<close>

definition excl :: "state \<Rightarrow> bool" where
  "excl s \<longleftrightarrow> (insStage s \<noteq> INS_IDLE \<longrightarrow> delStage s = DEL_IDLE) \<and>
              (delStage s \<noteq> DEL_IDLE \<longrightarrow> searchStage s = S_IDLE)"

text \<open>
  While an insertion traverses, what \<^verbatim>\<open>StartInsertion\<close> recorded still describes the
  tree; the finalize timer runs exactly in \<^verbatim>\<open>INS_FINALIZE\<close>.
\<close>

definition ins_ok :: "atree \<Rightarrow> state \<Rightarrow> bool" where
  "ins_ok t s \<longleftrightarrow>
     insStage s \<noteq> INS_ATTACHING \<and>
     (insStage s = INS_FINALIZE \<longrightarrow> 0 < insFinalizeTimer s) \<and>
     (insStage s \<noteq> INS_FINALIZE \<longrightarrow> insFinalizeTimer s = 0) \<and>
     (insStage s = INS_TRAVERSING \<longrightarrow>
        insTraversalPath s = ins_path (insValuePending s) t \<and>
        (insParent s, insNewIsLeft s) = ins_slot (insValuePending s) t (None, False))"

text \<open>
  While a deletion is before its commit, what \<^verbatim>\<open>StartDeletion\<close> recorded still describes
  the tree, and each later stage holds what it was entered with.
\<close>

definition find_node :: "int \<Rightarrow> atree \<Rightarrow> ptr" where
  "find_node v t = map_option snd (a_find v t None)"

definition find_parent :: "int \<Rightarrow> atree \<Rightarrow> ptr" where
  "find_parent v t = (case a_find v t None of None \<Rightarrow> None | Some (p, x) \<Rightarrow> p)"

definition found_ok :: "atree \<Rightarrow> state \<Rightarrow> bool" where
  "found_ok t s \<longleftrightarrow>
     delTargetNode s = find_node (delValuePending s) t \<and>
     delTargetParent s = find_parent (delValuePending s) t"

definition target_sub :: "atree \<Rightarrow> state \<Rightarrow> atree" where
  "target_sub t s = (case delTargetNode s of None \<Rightarrow> Tip | Some x \<Rightarrow> subtree x t)"

fun kids :: "atree \<Rightarrow> nat" where
  "kids Tip = 0"
| "kids (Nd l a v r) = (if l \<noteq> Tip then 1 else 0) + (if r \<noteq> Tip then 1 else 0)"

fun only_child :: "atree \<Rightarrow> atree" where
  "only_child Tip = Tip"
| "only_child (Nd l a v r) = (if l \<noteq> Tip then l else r)"

fun successor_of :: "atree \<Rightarrow> ptr \<times> ptr" where
  "successor_of Tip = (None, None)"
| "successor_of (Nd l a v r) =
     (case a_leftmost a r of None \<Rightarrow> (None, None) | Some (sp, s, m) \<Rightarrow> (Some sp, Some s))"

definition del_ok :: "atree \<Rightarrow> state \<Rightarrow> bool" where
  "del_ok t s \<longleftrightarrow>
     (delStage s \<noteq> DEL_IDLE \<and> delStage s \<noteq> DEL_FINALIZE \<longrightarrow> found_ok t s) \<and>
     (delStage s = DEL_TRAVERSING \<longrightarrow> delTraversalPath s = del_path (delValuePending s) t) \<and>
     (delStage s \<noteq> DEL_IDLE \<and> delStage s \<noteq> DEL_FINALIZE \<and> delStage s \<noteq> DEL_TRAVERSING
        \<longrightarrow> delTargetNode s \<noteq> None) \<and>
     (delStage s = DEL_HIGHLIGHT_SUCCESSOR \<or> delStage s = DEL_MOVE_SUCCESSOR \<longrightarrow>
        kids (target_sub t s) = 2 \<and>
        (successorParent s, successorNode s) = successor_of (target_sub t s)) \<and>
     (delStage s = DEL_MOVE_SUCCESSOR \<longrightarrow> animNode s = successorNode s) \<and>
     (delStage s = DEL_MOVE_CHILD_UP \<longrightarrow>
        kids (target_sub t s) = 1 \<and> animNode s = root_addr (only_child (target_sub t s))) \<and>
     (delStage s = DEL_SHRINK_REMOVE \<longrightarrow>
        kids (target_sub t s) = 0 \<and> animNode s = delTargetNode s)"

definition inv :: "atree \<Rightarrow> state \<Rightarrow> bool" where
  "inv t s \<longleftrightarrow> tree_ok t s \<and> bst t \<and> excl s \<and> ins_ok t s \<and> del_ok t s"

text \<open>
  The tree the pending operation leads to: a traversing insertion will attach its value
  at the address \<open>a\<close>, a deletion before its commit will remove its target.
\<close>

definition goal :: "addr \<Rightarrow> atree \<Rightarrow> state \<Rightarrow> atree" where
  "goal a t s =
     (if insStage s = INS_TRAVERSING then a_insert a (insValuePending s) t
      else if delStage s \<noteq> DEL_IDLE \<and> delStage s \<noteq> DEL_FINALIZE
      then (case delTargetNode s of None \<Rightarrow> t | Some x \<Rightarrow> a_remove x t)
      else t)"

text \<open>The number of frames each machine still needs is bounded by these measures.\<close>

definition wait :: "int \<Rightarrow> int \<Rightarrow> nat" where
  "wait n c = nat (max 1 (n - c))"

definition pticks :: "rat \<Rightarrow> rat \<Rightarrow> nat" where
  "pticks d p = nat \<lceil>(1 - p) * d\<rceil>"

definition ins_measure :: "state \<Rightarrow> nat" where
  "ins_measure s =
     (case insStage s of
        INS_IDLE \<Rightarrow> 0
      | INS_TRAVERSING \<Rightarrow>
          12 * nat (int (length (insTraversalPath s)) - insTraversalIndex s)
            + wait 12 (insFramesCounter s) + 200
      | INS_ATTACHING \<Rightarrow> 0
      | INS_FINALIZE \<Rightarrow> nat (insFinalizeTimer s))"

definition del_measure :: "state \<Rightarrow> nat" where
  "del_measure s =
     (case delStage s of
        DEL_IDLE \<Rightarrow> 0
      | DEL_TRAVERSING \<Rightarrow>
          12 * nat (int (length (delTraversalPath s)) - delTraversalIndex s)
            + wait 12 (delFramesCounter s) + 300
      | DEL_HIGHLIGHT_TARGET \<Rightarrow> wait 30 (delFramesCounter s) + 200
      | DEL_HIGHLIGHT_SUCCESSOR \<Rightarrow> wait 30 (delFramesCounter s) + 100
      | DEL_MOVE_SUCCESSOR \<Rightarrow> pticks 24 (animProgress s) + 30
      | DEL_MOVE_CHILD_UP \<Rightarrow> pticks 24 (animProgress s) + nat (21 - delFramesCounter s) + 2
      | DEL_SHRINK_REMOVE \<Rightarrow> pticks 16 (animProgress s) + nat (21 - delFramesCounter s) + 2
      | DEL_FINALIZE \<Rightarrow> nat (21 - delFramesCounter s) + 1)"

definition search_measure :: "state \<Rightarrow> nat" where
  "search_measure s =
     (case searchStage s of
        S_IDLE \<Rightarrow> 0
      | S_TRAVERSING \<Rightarrow>
          12 * nat (int (length (searchPath s)) - searchIndex s) + wait 12 (searchFrames s)
            + 12 * nat (6 - flashCount s) + 13
      | S_FLASH_FOUND \<Rightarrow> 12 * nat (6 - flashCount s) + wait 12 (searchFrames s)
      | S_FLASH_NOTFOUND \<Rightarrow> 12 * nat (6 - flashCount s) + wait 12 (searchFrames s))"

definition frames_left :: "state \<Rightarrow> nat" where
  "frames_left s = ins_measure s + del_measure s + search_measure s"

text \<open>What a frame that commits a deletion does, from the tree before to the tree after.\<close>

definition del_commit :: "atree \<Rightarrow> state \<Rightarrow> atree \<Rightarrow> state \<Rightarrow> bool" where
  "del_commit t s t' s' \<longleftrightarrow>
     (delStage s = DEL_MOVE_SUCCESSOR \<or> delStage s = DEL_MOVE_CHILD_UP \<or>
      delStage s = DEL_SHRINK_REMOVE) \<and>
     delStage s' = DEL_FINALIZE \<and> 1 \<le> animProgress s' \<and>
     (case delTargetNode s of None \<Rightarrow> False | Some x \<Rightarrow> x \<in> addrs t \<and> t' = a_remove x t)"

text \<open>What the search process holds between frames.\<close>

definition search_view ::
  "state \<Rightarrow> SearchStage \<times> addr list \<times> int \<times> int \<times> int \<times> ptr \<times> int" where
  "search_view s = (searchStage s, searchPath s, searchIndex s, searchFrames s, flashCount s,
     searchFinalNode s, searchValuePending s)"

text \<open>
  One structural edit: the links of the new store are those of the old one with the node
  \<open>y\<close> removed and exactly one slot given another content, the root or the left or right
  slot of a node that stays. Values are not looked at.
\<close>

definition same_links :: "store \<Rightarrow> store \<Rightarrow> bool" where
  "same_links h h' \<longleftrightarrow>
     (\<forall>b. map_option (\<lambda>n. (left n, right n)) (h b) = map_option (\<lambda>n. (left n, right n)) (h' b))"

definition one_edit :: "store \<Rightarrow> ptr \<Rightarrow> store \<Rightarrow> ptr \<Rightarrow> addr \<Rightarrow> bool" where
  "one_edit h r h' r' y \<longleftrightarrow>
     (r' \<noteq> r \<and> same_links h' (h(y := None))) \<or>
     (r' = r \<and> (\<exists>p n c. p \<noteq> y \<and> h p = Some n \<and> c \<noteq> left n \<and>
                   same_links h' ((h(p \<mapsto> n\<lparr>left := c\<rparr>))(y := None)))) \<or>
     (r' = r \<and> (\<exists>p n c. p \<noteq> y \<and> h p = Some n \<and> c \<noteq> right n \<and>
                   same_links h' ((h(p \<mapsto> n\<lparr>right := c\<rparr>))(y := None))))"

section \<open>A concrete tree\<close>

text \<open>
  The tree of the specification's scenario, as the store holds it after 50, 30, 70, 20
  and 40 were inserted at the addresses 1 to 5.
\<close>

definition ex_heap :: store where
  "ex_heap = [1 \<mapsto> \<lparr>val = 50, left = Some 2, right = Some 3\<rparr>,
              2 \<mapsto> \<lparr>val = 30, left = Some 4, right = Some 5\<rparr>,
              3 \<mapsto> \<lparr>val = 70, left = None, right = None\<rparr>,
              4 \<mapsto> \<lparr>val = 20, left = None, right = None\<rparr>,
              5 \<mapsto> \<lparr>val = 40, left = None, right = None\<rparr>]"

definition ex_tree :: atree where
  "ex_tree = Nd (Nd (Nd Tip 4 20 Tip) 2 30 (Nd Tip 5 40 Tip)) 1 50 (Nd Tip 3 70 Tip)"

text \<open>
  The globals after the frame in which Search 5 was entered on the empty tree: the search
  traverses and has counted one frame.
\<close>

definition ex_searching :: state where
  "ex_searching = init\<lparr>searchStage := S_TRAVERSING, searchFrames := 1, searchValuePending := 5\<rparr>"

text \<open>
  The scenario's commands: the five insertions, the allocator handing out the addresses
  1 to 5, and the deletion of 30. After them 30's node holds 40, and the leaf that held 40
  is gone.
\<close>

definition ex_inserts :: "(Mode \<times> int \<times> addr) list" where
  "ex_inserts = [(MODE_INSERT, 50, 1), (MODE_INSERT, 30, 2), (MODE_INSERT, 70, 3),
                 (MODE_INSERT, 20, 4), (MODE_INSERT, 40, 5)]"

definition ex_ops :: "(Mode \<times> int \<times> addr) list" where
  "ex_ops = ex_inserts @ [(MODE_DELETE, 30, 6)]"

definition ex_heap_after :: store where
  "ex_heap_after = [1 \<mapsto> \<lparr>val = 50, left = Some 2, right = Some 3\<rparr>,
                    2 \<mapsto> \<lparr>val = 40, left = Some 4, right = None\<rparr>,
                    3 \<mapsto> \<lparr>val = 70, left = None, right = None\<rparr>,
                    4 \<mapsto> \<lparr>val = 20, left = None, right = None\<rparr>]"

definition ex_tree_after :: atree where
  "ex_tree_after = Nd (Nd (Nd Tip 4 20 Tip) 2 40 Tip) 1 50 (Nd Tip 3 70 Tip)"

text \<open>
  The scenario's tree while Delete 30 shows its target, in the last frame of that stage.
\<close>

definition ex_highlight :: state where
  "ex_highlight = init\<lparr>heap := ex_heap, root := Some 1, delStage := DEL_HIGHLIGHT_TARGET,
     delTraversalPath := [1, 2], delTraversalIndex := 2, delFramesCounter := 29,
     delTargetParent := Some 1, delTargetNode := Some 2, delValuePending := 30\<rparr>"

text \<open>
  The globals twelve frames after Insert 7 was entered while that search was traversing:
  the node is attached, the search still waits in its first step.
\<close>

definition ex_mutated :: state where
  "ex_mutated = init\<lparr>heap := [1 \<mapsto> \<lparr>val = 7, left = None, right = None\<rparr>], root := Some 1,
     insStage := INS_FINALIZE, insNewNode := Some 1, insFinalizeTimer := 119,
     insValuePending := 7, searchStage := S_TRAVERSING, searchFrames := 1,
     searchValuePending := 5, statusMessage := Inserted 7, statusTimer := 119\<rparr>"

text \<open>The frame after \<open>ex_highlight\<close>: the successor of 30 is 40, the right child itself.\<close>

definition ex_highlight_successor :: state where
  "ex_highlight_successor = ex_highlight\<lparr>delStage := DEL_HIGHLIGHT_SUCCESSOR,
     delFramesCounter := 0, successorParent := Some 2, successorNode := Some 5\<rparr>"

text \<open>The scenario's tree with every process idle.\<close>

definition ex_idle :: state where
  "ex_idle = init\<lparr>heap := ex_heap, root := Some 1\<rparr>"

text \<open>The globals after the frame in which Delete 5 was entered on the empty tree.\<close>

definition ex_deleting :: state where
  "ex_deleting = init\<lparr>delStage := DEL_TRAVERSING, delFramesCounter := 1, delValuePending := 5\<rparr>"

text \<open>The thirteen frames that lead to \<open>ex_mutated\<close>, and the globals one frame later.\<close>

definition ex_search_insert :: "input list" where
  "ex_search_insert = \<lparr>cmd = Some (MODE_SEARCH, 5), alloc = 1\<rparr> #
     \<lparr>cmd = Some (MODE_INSERT, 7), alloc = 1\<rparr> # replicate 11 \<lparr>cmd = None, alloc = 1\<rparr>"

definition ex_mutated_next :: state where
  "ex_mutated_next = ex_mutated\<lparr>insFinalizeTimer := 117, statusTimer := 118\<rparr>"

text \<open>
  Four frames after Delete 999 was entered on the scenario's tree: the descent 50, 70 is
  recorded, no target, and the traversal has counted its frames.
\<close>

definition ex_absent :: state where
  "ex_absent = ex_idle\<lparr>delStage := DEL_TRAVERSING, delTraversalPath := [1, 3],
     delFramesCounter := 4, delValuePending := 999\<rparr>"

text \<open>
  The same deletion in the last frame of the successor's move, and the globals after that
  frame, which commits.
\<close>

definition ex_moving :: state where
  "ex_moving = ex_highlight_successor\<lparr>delStage := DEL_MOVE_SUCCESSOR, delFramesCounter := 30,
     animNode := Some 5, animReplaceNode := Some 2, animProgress := 23 / 24\<rparr>"

definition ex_committed :: state where
  "ex_committed = ex_moving\<lparr>animProgress := 1, heap := ex_heap_after, successorNode := None,
     successorParent := None, animNode := None, animReplaceNode := None,
     delStage := DEL_FINALIZE, delFramesCounter := 0, statusMessage := Deleted 30,
     statusTimer := 119\<rparr>"

text \<open>
  The last frame of the leaf branch, Delete 20 on the scenario's tree, and of the one-child
  branch, Delete 40 on the tree the scenario ends with, each with the globals after it;
  and the frame in which Delete 30 is entered on the scenario's tree.
\<close>

definition ex_shrinking :: state where
  "ex_shrinking = init\<lparr>heap := ex_heap, root := Some 1, delStage := DEL_SHRINK_REMOVE,
     delTraversalPath := [1, 2, 4], delTraversalIndex := 3, delFramesCounter := 30,
     delTargetParent := Some 2, delTargetNode := Some 4, delValuePending := 20,
     animNode := Some 4, animProgress := 15 / 16\<rparr>"

definition ex_shrunk :: state where
  "ex_shrunk = ex_shrinking\<lparr>animProgress := 1,
     heap := (ex_heap(2 \<mapsto> \<lparr>val = 30, left = None, right = Some 5\<rparr>))(4 := None),
     animNode := None, delTargetNode := None, delStage := DEL_FINALIZE,
     statusMessage := Deleted 20, statusTimer := 119\<rparr>"

definition ex_lifting :: state where
  "ex_lifting = init\<lparr>heap := ex_heap_after, root := Some 1, delStage := DEL_MOVE_CHILD_UP,
     delTraversalPath := [1, 2], delTraversalIndex := 2, delFramesCounter := 30,
     delTargetParent := Some 1, delTargetNode := Some 2, delValuePending := 40,
     animNode := Some 4, animProgress := 23 / 24\<rparr>"

definition ex_lifted :: state where
  "ex_lifted = ex_lifting\<lparr>animProgress := 1,
     heap := (ex_heap_after(1 \<mapsto> \<lparr>val = 50, left = Some 4, right = Some 3\<rparr>))(2 := None),
     delTargetNode := None, animNode := None, delStage := DEL_FINALIZE,
     statusMessage := Deleted 40, statusTimer := 119\<rparr>"

definition ex_started :: state where
  "ex_started = ex_idle\<lparr>delTraversalPath := [1, 2], delStage := DEL_TRAVERSING,
     delFramesCounter := 1, delTargetParent := Some 1, delTargetNode := Some 2,
     delValuePending := 30\<rparr>"

section \<open>Trees in the store: basic facts\<close>


lemma is_tree_Nd_iff:
  "is_tree h p (Nd l a v r) \<longleftrightarrow>
     p = Some a \<and> a \<notin> addrs l \<and> a \<notin> addrs r \<and> addrs l \<inter> addrs r = {} \<and>
     (\<exists>n. h a = Some n \<and> val n = v \<and> is_tree h (left n) l \<and> is_tree h (right n) r)"
  by (auto split: option.splits)

declare is_tree.simps(2) [simp del]
declare is_tree_Nd_iff [simp]

lemma is_tree_None [simp]: "is_tree h None t \<longleftrightarrow> t = Tip"
  by (cases t) auto

lemma is_tree_root_addr: "is_tree h p t \<Longrightarrow> root_addr t = p"
  by (cases t) auto

lemma is_tree_frame:
  "is_tree h p t \<Longrightarrow> (\<And>a. a \<in> addrs t \<Longrightarrow> h' a = h a) \<Longrightarrow> is_tree h' p t"
proof (induction t arbitrary: p)
  case Tip
  then show ?case by simp
next
  case (Nd l a v r)
  from Nd.prems(1) obtain n where n: "h a = Some n" "val n = v" "is_tree h (left n) l"
    "is_tree h (right n) r" and d: "p = Some a" "a \<notin> addrs l" "a \<notin> addrs r" "addrs l \<inter> addrs r = {}"
    by auto
  have "h' a = Some n" using Nd.prems(2)[of a] n by simp
  moreover have "is_tree h' (left n) l" using Nd.IH(1)[OF n(3)] Nd.prems(2) by simp
  moreover have "is_tree h' (right n) r" using Nd.IH(2)[OF n(4)] Nd.prems(2) by simp
  ultimately show ?case using n d by simp
qed

lemma is_tree_dom: "is_tree h p t \<Longrightarrow> addrs t \<subseteq> dom h"
  by (induction t arbitrary: p) fastforce+

lemma is_tree_unique: "is_tree h p t \<Longrightarrow> is_tree h p t' \<Longrightarrow> t = t'"
proof (induction t arbitrary: p t')
  case Tip
  then show ?case by simp
next
  case (Nd l a v r)
  then show ?case by (cases t') auto
qed

lemma is_tree_upd_other:
  "is_tree h p t \<Longrightarrow> a \<notin> addrs t \<Longrightarrow> is_tree (h(a := x)) p t"
  by (erule is_tree_frame) auto


lemma is_tree_live: "is_tree h p t \<Longrightarrow> a \<in> addrs t \<Longrightarrow> h a \<noteq> None"
  using is_tree_dom by blast

lemma a_leftmost_Some: "t \<noteq> Tip \<Longrightarrow> \<exists>sp s m. a_leftmost p t = Some (sp, s, m)"
  by (induction t arbitrary: p) (auto split: option.splits)

lemma FindInorderSuccessor_loop_tree:
  "is_tree h (Some c) t \<Longrightarrow>
   FindInorderSuccessor_loop h p c = map_option (\<lambda>(sp, s, m). (sp, s)) (a_leftmost p t)"
proof (induction t arbitrary: p c)
  case Tip
  then show ?case by simp
next
  case (Nd l a v r)
  from Nd.prems obtain n where n: "c = a" "h a = Some n" "is_tree h (left n) l"
    by auto
  show ?case
  proof (cases l)
    case Tip
    with n show ?thesis
      by (subst FindInorderSuccessor_loop.simps) simp
  next
    case (Nd ll la lv lr)
    with n have la: "left n = Some la" by auto
    from n la have "is_tree h (Some la) l" by simp
    from Nd.IH(1)[OF this, of a] a_leftmost_Some[of l a] Nd n la show ?thesis
      by (subst FindInorderSuccessor_loop.simps) auto
  qed
qed

lemma StartInsertion_loop_tree:
  "is_tree (heap s) cur t \<Longrightarrow>
   StartInsertion_loop v cur parent s =
     Some (fst (ins_slot v t (parent, insNewIsLeft s)),
           s\<lparr>insTraversalPath := insTraversalPath s @ ins_path v t,
             insNewIsLeft := snd (ins_slot v t (parent, insNewIsLeft s))\<rparr>)"
proof (induction t arbitrary: cur parent s)
  case Tip
  then show ?case by (subst StartInsertion_loop.simps) simp
next
  case (Nd l a x r)
  from Nd.prems obtain n where n: "cur = Some a" "heap s a = Some n" "val n = x"
    "is_tree (heap s) (left n) l" "is_tree (heap s) (right n) r"
    by auto
  show ?case
  proof (cases "v < x")
    case True
    let ?s = "s\<lparr>insTraversalPath := insTraversalPath s @ [a], insNewIsLeft := True\<rparr>"
    have "is_tree (heap ?s) (left n) l" using n by simp
    from Nd.IH(1)[OF this, of "Some a"] True n show ?thesis
      by (subst StartInsertion_loop.simps) simp
  next
    case False
    let ?s = "s\<lparr>insTraversalPath := insTraversalPath s @ [a], insNewIsLeft := False\<rparr>"
    have "is_tree (heap ?s) (right n) r" using n by simp
    from Nd.IH(2)[OF this, of "Some a"] False n show ?thesis
      by (subst StartInsertion_loop.simps) simp
  qed
qed

lemma StartDeletion_loop_tree:
  "is_tree (heap s) cur t \<Longrightarrow>
   StartDeletion_loop v cur parent s =
     Some (case a_find v t parent of
             None \<Rightarrow> s\<lparr>delTraversalPath := delTraversalPath s @ del_path v t\<rparr>
           | Some (p, a) \<Rightarrow> s\<lparr>delTraversalPath := delTraversalPath s @ del_path v t,
                               delTargetParent := p, delTargetNode := Some a\<rparr>)"
proof (induction t arbitrary: cur parent s)
  case Tip
  then show ?case by (subst StartDeletion_loop.simps) simp
next
  case (Nd l a x r)
  from Nd.prems obtain n where n: "cur = Some a" "heap s a = Some n" "val n = x"
    "is_tree (heap s) (left n) l" "is_tree (heap s) (right n) r"
    by auto
  let ?s = "s\<lparr>delTraversalPath := delTraversalPath s @ [a]\<rparr>"
  have l: "is_tree (heap ?s) (left n) l" and r: "is_tree (heap ?s) (right n) r"
    using n by simp_all
  show ?case
    using Nd.IH(1)[OF l, of "Some a"] Nd.IH(2)[OF r, of "Some a"] n
    by (subst StartDeletion_loop.simps) (simp add: Let_def split: option.splits)
qed

lemma populate_loop_tree:
  "is_tree (heap s) tmp t \<Longrightarrow>
   populate_loop tmp s =
     Some (s\<lparr>insTraversalPath := insTraversalPath s @ ins_path (insValuePending s) t\<rparr>)"
proof (induction t arbitrary: tmp s)
  case Tip
  then show ?case by (subst populate_loop.simps) simp
next
  case (Nd l a x r)
  from Nd.prems obtain n where n: "tmp = Some a" "heap s a = Some n" "val n = x"
    "is_tree (heap s) (left n) l" "is_tree (heap s) (right n) r"
    by auto
  let ?s = "s\<lparr>insTraversalPath := insTraversalPath s @ [a]\<rparr>"
  have l: "is_tree (heap ?s) (left n) l" and r: "is_tree (heap ?s) (right n) r"
    using n by simp_all
  show ?case
    using Nd.IH(1)[OF l] Nd.IH(2)[OF r] n
    by (subst populate_loop.simps) (simp add: Let_def)
qed


lemma addrs_a_insert [simp]: "addrs (a_insert n v t) = insert n (addrs t)"
  by (induction t) auto

lemma ins_slot_in: "t \<noteq> Tip \<Longrightarrow> ins_slot v t pb = (q, b) \<Longrightarrow> \<exists>p. q = Some p \<and> p \<in> addrs t"
proof (induction t arbitrary: pb)
  case Tip
  then show ?case by simp
next
  case (Nd l a x r)
  show ?case
  proof (cases "v < x")
    case True
    then show ?thesis using Nd.IH(1)[of "(Some a, True)"] Nd.prems by (cases l) auto
  next
    case False
    then show ?thesis using Nd.IH(2)[of "(Some a, False)"] Nd.prems by (cases r) auto
  qed
qed

lemma attach_tree:
  "is_tree h q t \<Longrightarrow> t \<noteq> Tip \<Longrightarrow> n \<notin> addrs t \<Longrightarrow>
   h n = Some \<lparr>val = v, left = None, right = None\<rparr> \<Longrightarrow>
   ins_slot v t pb = (Some p, b) \<Longrightarrow>
   \<exists>pn. h p = Some pn \<and> p \<in> addrs t \<and>
     is_tree (h(p \<mapsto> (if b then pn\<lparr>left := Some n\<rparr> else pn\<lparr>right := Some n\<rparr>))) q
       (a_insert n v t)"
proof (induction t arbitrary: q pb)
  case Tip
  then show ?case by simp
next
  case (Nd l a x r)
  from Nd.prems(1) obtain an where an: "q = Some a" "h a = Some an" "val an = x"
    "is_tree h (left an) l" "is_tree h (right an) r" "a \<notin> addrs l" "a \<notin> addrs r"
    "addrs l \<inter> addrs r = {}"
    by auto
  from Nd.prems(3) have n: "n \<noteq> a" "n \<notin> addrs l" "n \<notin> addrs r" by auto
  show ?case
  proof (cases "v < x")
    case True
    show ?thesis
    proof (cases l)
      case Tip
      with True Nd.prems(5) have pb: "p = a" "b" by auto
      let ?h = "h(a \<mapsto> an\<lparr>left := Some n\<rparr>)"
      have "is_tree ?h (right an) r" using an by (intro is_tree_upd_other) auto
      with an n Nd.prems(4) Tip True have "is_tree ?h q (a_insert n v (Nd l a x r))" by simp
      moreover have "?h = h(p \<mapsto> (if b then an\<lparr>left := Some n\<rparr> else an\<lparr>right := Some n\<rparr>))"
        using pb by simp
      moreover have "h p = Some an" "p \<in> addrs (Nd l a x r)" using an pb by simp_all
      ultimately show ?thesis by metis
    next
      case (Nd ll la lv lr)
      then have lne: "l \<noteq> Tip" by simp
      from True Nd.prems(5) have sl: "ins_slot v l (Some a, True) = (Some p, b)" by simp
      from Nd.IH(1)[OF an(4) lne n(2) Nd.prems(4) sl] obtain pn where
        pn: "h p = Some pn" "p \<in> addrs l"
        "is_tree (h(p \<mapsto> (if b then pn\<lparr>left := Some n\<rparr> else pn\<lparr>right := Some n\<rparr>))) (left an)
           (a_insert n v l)"
        by blast
      let ?h = "h(p \<mapsto> (if b then pn\<lparr>left := Some n\<rparr> else pn\<lparr>right := Some n\<rparr>))"
      have pa: "p \<noteq> a" "p \<notin> addrs r" using pn an by auto
      have "is_tree ?h (right an) r" using an pa by (intro is_tree_upd_other) auto
      with pn pa an n True have "is_tree ?h q (a_insert n v (Nd l a x r))" by simp
      moreover have "p \<in> addrs (Nd l a x r)" using pn by simp
      ultimately show ?thesis using pn(1) by blast
    qed
  next
    case False
    show ?thesis
    proof (cases r)
      case Tip
      with False Nd.prems(5) have pb: "p = a" "\<not> b" by auto
      let ?h = "h(a \<mapsto> an\<lparr>right := Some n\<rparr>)"
      have "is_tree ?h (left an) l" using an by (intro is_tree_upd_other) auto
      with an n Nd.prems(4) Tip False have "is_tree ?h q (a_insert n v (Nd l a x r))" by simp
      moreover have "?h = h(p \<mapsto> (if b then an\<lparr>left := Some n\<rparr> else an\<lparr>right := Some n\<rparr>))"
        using pb by simp
      moreover have "h p = Some an" "p \<in> addrs (Nd l a x r)" using an pb by simp_all
      ultimately show ?thesis by metis
    next
      case (Nd rl ra rv rr)
      then have rne: "r \<noteq> Tip" by simp
      from False Nd.prems(5) have sl: "ins_slot v r (Some a, False) = (Some p, b)" by simp
      from Nd.IH(2)[OF an(5) rne n(3) Nd.prems(4) sl] obtain pn where
        pn: "h p = Some pn" "p \<in> addrs r"
        "is_tree (h(p \<mapsto> (if b then pn\<lparr>left := Some n\<rparr> else pn\<lparr>right := Some n\<rparr>))) (right an)
           (a_insert n v r)"
        by blast
      let ?h = "h(p \<mapsto> (if b then pn\<lparr>left := Some n\<rparr> else pn\<lparr>right := Some n\<rparr>))"
      have pa: "p \<noteq> a" "p \<notin> addrs l" using pn an by auto
      have "is_tree ?h (left an) l" using an pa by (intro is_tree_upd_other) auto
      with pn pa an n False have "is_tree ?h q (a_insert n v (Nd l a x r))" by simp
      moreover have "p \<in> addrs (Nd l a x r)" using pn by simp
      ultimately show ?thesis using pn(1) by blast
    qed
  qed
qed

lemma addrs_subtree: "addrs (subtree x t) \<subseteq> addrs t"
  by (induction t) auto

lemma addrs_replace: "addrs (replace x s t) \<subseteq> addrs t \<union> addrs s"
  by (induction t) auto

lemma addrs_del_min: "addrs (del_min t) \<subseteq> addrs t"
  by (induction t) auto

lemma subtree_root: "x \<in> addrs t \<Longrightarrow> \<exists>l v r. subtree x t = Nd l x v r"
  by (induction t) auto

lemma a_parent_slot:
  "is_tree h q t \<Longrightarrow> a_parent x t = Some p \<Longrightarrow>
   \<exists>pn. h p = Some pn \<and> p \<in> addrs t \<and> x \<in> addrs t \<and> x \<noteq> p \<and>
     is_tree h (Some x) (subtree x t) \<and>
     ((left pn = Some x \<and> right pn \<noteq> Some x) \<or> (left pn \<noteq> Some x \<and> right pn = Some x))"
proof (induction t arbitrary: q)
  case Tip
  then show ?case by simp
next
  case (Nd l a v r)
  from Nd.prems(1) obtain an where an: "q = Some a" "h a = Some an" "val an = v"
    "is_tree h (left an) l" "is_tree h (right an) r" "a \<notin> addrs l" "a \<notin> addrs r"
    "addrs l \<inter> addrs r = {}"
    by auto
  from Nd.prems(2) have xa: "x \<noteq> a" by (auto split: if_splits)
  consider (L) "root_addr l = Some x" | (R) "root_addr l \<noteq> Some x" "root_addr r = Some x"
    | (DL) "root_addr l \<noteq> Some x" "root_addr r \<noteq> Some x" "x \<in> addrs l"
    | (DR) "root_addr l \<noteq> Some x" "root_addr r \<noteq> Some x" "x \<notin> addrs l"
    by blast
  then show ?case
  proof cases
    case L
    then obtain ll lv lr where l: "l = Nd ll x lv lr" by (cases l) auto
    with an have "left an = Some x" "right an \<noteq> Some x"
      using is_tree_root_addr[OF an(5)] by (auto, cases r, auto)
    with L l an xa Nd.prems(2) show ?thesis by auto
  next
    case R
    then obtain rl rv rr where r: "r = Nd rl x rv rr" by (cases r) auto
    with an have "right an = Some x" "left an \<noteq> Some x"
      using is_tree_root_addr[OF an(4)] R by auto
    moreover have "x \<notin> addrs l" using r an by auto
    ultimately show ?thesis using R r an xa Nd.prems(2) by auto
  next
    case DL
    with Nd.prems(2) xa have "a_parent x l = Some p" by simp
    from Nd.IH(1)[OF an(4) this] DL xa an show ?thesis by auto
  next
    case DR
    with Nd.prems(2) xa have "a_parent x r = Some p" by simp
    from Nd.IH(2)[OF an(5) this] DR xa an show ?thesis by auto
  qed
qed


lemma replace_slot:
  "is_tree h q t \<Longrightarrow> a_parent x t = Some p \<Longrightarrow> h p = Some pn \<Longrightarrow>
   is_tree h c sub' \<Longrightarrow> addrs sub' \<subseteq> addrs (subtree x t) - {x} \<Longrightarrow>
   h' = h(p \<mapsto> (if left pn = Some x then pn\<lparr>left := c\<rparr> else pn\<lparr>right := c\<rparr>)) \<Longrightarrow>
   is_tree h' q (replace x sub' t)"
proof (induction t arbitrary: q)
  case Tip
  then show ?case by simp
next
  case (Nd l a v r)
  from Nd.prems(1) obtain an where an: "q = Some a" "h a = Some an" "val an = v"
    "is_tree h (left an) l" "is_tree h (right an) r" "a \<notin> addrs l" "a \<notin> addrs r"
    "addrs l \<inter> addrs r = {}"
    by auto
  from Nd.prems(2) have xa: "x \<noteq> a" by (auto split: if_splits)
  note h' = Nd.prems(6)
  consider (L) "root_addr l = Some x" | (R) "root_addr l \<noteq> Some x" "root_addr r = Some x"
    | (DL) "root_addr l \<noteq> Some x" "root_addr r \<noteq> Some x" "x \<in> addrs l"
    | (DR) "root_addr l \<noteq> Some x" "root_addr r \<noteq> Some x" "x \<notin> addrs l"
    by blast
  then show ?case
  proof cases
    case L
    then obtain ll lv lr where l: "l = Nd ll x lv lr" by (cases l) auto
    from L Nd.prems(2) xa have pa: "p = a" by simp
    with an Nd.prems(3) have pn: "pn = an" by simp
    from l an have lx: "left an = Some x" by auto
    from l xa Nd.prems(5) have sub: "addrs sub' \<subseteq> addrs l" by auto
    have h'a: "h' a = Some (an\<lparr>left := c\<rparr>)" using h' pa pn lx by simp
    have "is_tree h' c sub'" using Nd.prems(4) sub an h' pa
      by (intro is_tree_frame[of h c sub' h']) auto
    moreover have "is_tree h' (right an) r" using an h' pa
      by (intro is_tree_frame[of h _ r h']) auto
    moreover have "replace x sub' (Nd l a v r) = Nd sub' a v r" using l xa by simp
    ultimately show ?thesis using h'a an sub by auto
  next
    case R
    then obtain rl rv rr where r: "r = Nd rl x rv rr" by (cases r) auto
    from R Nd.prems(2) xa have pa: "p = a" by simp
    with an Nd.prems(3) have pn: "pn = an" by simp
    from r an have rx: "right an = Some x" by auto
    have lx: "left an \<noteq> Some x" using is_tree_root_addr[OF an(4)] R by simp
    have xl: "x \<notin> addrs l" using r an by auto
    from r xa xl Nd.prems(5) have sub: "addrs sub' \<subseteq> addrs r" by auto
    have h'a: "h' a = Some (an\<lparr>right := c\<rparr>)" using h' pa pn lx by simp
    have "is_tree h' c sub'" using Nd.prems(4) sub an h' pa
      by (intro is_tree_frame[of h c sub' h']) auto
    moreover have "is_tree h' (left an) l" using an h' pa
      by (intro is_tree_frame[of h _ l h']) auto
    moreover have "replace x sub' (Nd l a v r) = Nd l a v sub'" using r xa xl by simp
    ultimately show ?thesis using h'a an sub by auto
  next
    case DL
    with Nd.prems(2) xa have par: "a_parent x l = Some p" by simp
    from a_parent_slot[OF an(4) par] have pl: "p \<in> addrs l" by blast
    then have pa: "p \<noteq> a" "p \<notin> addrs r" using an by auto
    have sub: "addrs sub' \<subseteq> addrs (subtree x l) - {x}" using Nd.prems(5) DL xa by simp
    have "is_tree h' (left an) (replace x sub' l)"
      by (rule Nd.IH(1)[OF an(4) par Nd.prems(3) Nd.prems(4) sub h'])
    moreover have "is_tree h' (right an) r" using an h' pa
      by (intro is_tree_frame[of h _ r h']) auto
    moreover have "h' a = Some an" using h' pa an by simp
    moreover have "addrs (replace x sub' l) \<subseteq> addrs l"
      using addrs_replace[of x sub' l] sub addrs_subtree[of x l] by blast
    ultimately show ?thesis using an DL xa by auto
  next
    case DR
    with Nd.prems(2) xa have par: "a_parent x r = Some p" by simp
    from a_parent_slot[OF an(5) par] have pl: "p \<in> addrs r" by blast
    then have pa: "p \<noteq> a" "p \<notin> addrs l" using an by auto
    have sub: "addrs sub' \<subseteq> addrs (subtree x r) - {x}" using Nd.prems(5) DR xa by simp
    have "is_tree h' (right an) (replace x sub' r)"
      by (rule Nd.IH(2)[OF an(5) par Nd.prems(3) Nd.prems(4) sub h'])
    moreover have "is_tree h' (left an) l" using an h' pa
      by (intro is_tree_frame[of h _ l h']) auto
    moreover have "h' a = Some an" using h' pa an by simp
    moreover have "addrs (replace x sub' r) \<subseteq> addrs r"
      using addrs_replace[of x sub' r] sub addrs_subtree[of x r] by blast
    ultimately show ?thesis using an DR xa by auto
  qed
qed

lemma replace_subtree_heap:
  "is_tree h q t \<Longrightarrow> x \<in> addrs t \<Longrightarrow> is_tree h' (Some x) sub' \<Longrightarrow>
   addrs sub' \<subseteq> addrs (subtree x t) \<Longrightarrow>
   (\<And>a. a \<notin> addrs (subtree x t) \<Longrightarrow> h' a = h a) \<Longrightarrow>
   is_tree h' q (replace x sub' t)"
proof (induction t arbitrary: q)
  case Tip
  then show ?case by simp
next
  case (Nd l a v r)
  from Nd.prems(1) obtain an where an: "q = Some a" "h a = Some an" "val an = v"
    "is_tree h (left an) l" "is_tree h (right an) r" "a \<notin> addrs l" "a \<notin> addrs r"
    "addrs l \<inter> addrs r = {}"
    by auto
  consider (E) "x = a" | (DL) "x \<noteq> a" "x \<in> addrs l" | (DR) "x \<noteq> a" "x \<notin> addrs l" "x \<in> addrs r"
    using Nd.prems(2) by auto
  then show ?case
  proof cases
    case E
    then show ?thesis using Nd.prems(3) an by simp
  next
    case DL
    then have st: "subtree x (Nd l a v r) = subtree x l" by simp
    have sl: "addrs (subtree x l) \<subseteq> addrs l" by (rule addrs_subtree)
    have "is_tree h' (left an) (replace x sub' l)"
      using Nd.IH(1)[OF an(4) DL(2) Nd.prems(3)] Nd.prems(4,5) st by simp
    moreover have "is_tree h' (right an) r" using an sl Nd.prems(5)[unfolded st]
      by (intro is_tree_frame[of h _ r h']) auto
    moreover have "h' a = Some an" using Nd.prems(5)[unfolded st, of a] sl an by auto
    moreover have "addrs (replace x sub' l) \<subseteq> addrs l"
      using addrs_replace[of x sub' l] Nd.prems(4) st sl by auto
    ultimately show ?thesis using an DL by auto
  next
    case DR
    then have st: "subtree x (Nd l a v r) = subtree x r" by simp
    have sl: "addrs (subtree x r) \<subseteq> addrs r" by (rule addrs_subtree)
    have "is_tree h' (right an) (replace x sub' r)"
      using Nd.IH(2)[OF an(5) DR(3) Nd.prems(3)] Nd.prems(4,5) st by simp
    moreover have "is_tree h' (left an) l" using an sl Nd.prems(5)[unfolded st]
      by (intro is_tree_frame[of h _ l h']) auto
    moreover have "h' a = Some an" using Nd.prems(5)[unfolded st, of a] sl an by auto
    moreover have "addrs (replace x sub' r) \<subseteq> addrs r"
      using addrs_replace[of x sub' r] Nd.prems(4) st sl by auto
    ultimately show ?thesis using an DR by auto
  qed
qed

lemma subtree_is_tree: "is_tree h q t \<Longrightarrow> x \<in> addrs t \<Longrightarrow> is_tree h (Some x) (subtree x t)"
proof (induction t arbitrary: q)
  case Tip
  then show ?case by simp
next
  case (Nd l a v r)
  then show ?case by (cases "x = a") auto
qed

lemma del_min_slot:
  "is_tree h q (Nd l a v r) \<Longrightarrow> l \<noteq> Tip \<Longrightarrow> a_leftmost p0 (Nd l a v r) = Some (sp, s, m) \<Longrightarrow>
   \<exists>pn sn. h sp = Some pn \<and> left pn = Some s \<and> h s = Some sn \<and> val sn = m \<and>
     left sn = None \<and> sp \<in> addrs (Nd l a v r) \<and> s \<in> addrs (Nd l a v r) \<and> sp \<noteq> s \<and>
     right sn \<noteq> Some s \<and>
     is_tree (h(sp \<mapsto> pn\<lparr>left := right sn\<rparr>)) q (del_min (Nd l a v r))"
proof (induction l arbitrary: q a v r p0)
  case Tip
  then show ?case by simp
next
  case (Nd ll la lv lr)
  from Nd.prems(1) obtain an where an: "q = Some a" "h a = Some an" "val an = v"
    "is_tree h (left an) (Nd ll la lv lr)" "is_tree h (right an) r"
    "a \<notin> addrs (Nd ll la lv lr)" "a \<notin> addrs r"
    "addrs (Nd ll la lv lr) \<inter> addrs r = {}"
    by auto
  from an(4) obtain ln where ln: "left an = Some la" "h la = Some ln" "val ln = lv"
    "is_tree h (left ln) ll" "is_tree h (right ln) lr" "la \<notin> addrs ll" "la \<notin> addrs lr"
    "addrs ll \<inter> addrs lr = {}"
    by auto
  show ?case
  proof (cases ll)
    case Tip
    with Nd.prems(3) have e: "sp = a" "s = la" "m = lv" by auto
    let ?h = "h(a \<mapsto> an\<lparr>left := right ln\<rparr>)"
    have "is_tree ?h (right ln) lr" using ln an by (intro is_tree_upd_other) auto
    moreover have "is_tree ?h (right an) r" using an by (intro is_tree_upd_other) auto
    moreover have "right ln \<noteq> Some la" using is_tree_root_addr[OF ln(5)] ln(7) by (cases lr) auto
    ultimately have T: "is_tree ?h q (del_min (Nd (Nd ll la lv lr) a v r))"
      using Tip an ln by simp
    have "left ln = None" using ln(4) Tip by simp
    moreover have "a \<noteq> la" using an(6) by auto
    moreover have "a \<in> addrs (Nd (Nd ll la lv lr) a v r)" "la \<in> addrs (Nd (Nd ll la lv lr) a v r)"
      by simp_all
    moreover note T \<open>right ln \<noteq> Some la\<close> an(2) ln(1,2,3)
    ultimately show ?thesis unfolding e by blast
  next
    case (Nd lll lla llv llr)
    then have ne: "ll \<noteq> Tip" by simp
    from Nd.prems(3) a_leftmost_Some[OF ne, of la]
    have lm: "a_leftmost a (Nd ll la lv lr) = Some (sp, s, m)" by (auto split: option.splits)
    from Nd.IH(1)[OF an(4) ne lm] obtain pn sn where
      ps: "h sp = Some pn" "left pn = Some s" "h s = Some sn" "val sn = m" "left sn = None"
        "sp \<in> addrs (Nd ll la lv lr)" "s \<in> addrs (Nd ll la lv lr)" "sp \<noteq> s"
        "right sn \<noteq> Some s"
        "is_tree (h(sp \<mapsto> pn\<lparr>left := right sn\<rparr>)) (left an) (del_min (Nd ll la lv lr))"
      by blast
    let ?h = "h(sp \<mapsto> pn\<lparr>left := right sn\<rparr>)"
    have spa: "sp \<noteq> a" "sp \<notin> addrs r" using ps(6) an by auto
    have "is_tree ?h (right an) r" using an spa by (intro is_tree_upd_other) auto
    moreover have "?h a = Some an" using spa an by simp
    moreover have "addrs (del_min (Nd ll la lv lr)) \<subseteq> addrs (Nd ll la lv lr)"
      by (rule addrs_del_min)
    ultimately have "is_tree ?h q (del_min (Nd (Nd ll la lv lr) a v r))"
      using ps(10) an by (auto simp del: del_min.simps simp add: del_min.simps(2)[of "Nd ll la lv lr"])
    moreover have "sp \<in> addrs (Nd (Nd ll la lv lr) a v r)" "s \<in> addrs (Nd (Nd ll la lv lr) a v r)"
      using ps(6,7) by auto
    moreover note ps(1,2,3,4,5,8,9)
    ultimately show ?thesis by blast
  qed
qed


lemma is_tree_distinct: "is_tree h p t \<Longrightarrow> distinct_tree t"
  by (induction t arbitrary: p) auto

lemma addrs_replace_eq:
  "distinct_tree t \<Longrightarrow> x \<in> addrs t \<Longrightarrow>
   addrs (replace x s t) = (addrs t - addrs (subtree x t)) \<union> addrs s"
proof (induction t)
  case Tip
  then show ?case by simp
next
  case (Nd l a v r)
  have sl: "addrs (subtree x l) \<subseteq> addrs l" and sr: "addrs (subtree x r) \<subseteq> addrs r"
    by (rule addrs_subtree)+
  consider (E) "x = a" | (DL) "x \<noteq> a" "x \<in> addrs l" | (DR) "x \<noteq> a" "x \<notin> addrs l" "x \<in> addrs r"
    using Nd.prems(2) by auto
  then show ?case
  proof cases
    case E
    then show ?thesis by auto
  next
    case DL
    with Nd have "addrs (replace x s l) = (addrs l - addrs (subtree x l)) \<union> addrs s" by simp
    with DL Nd.prems sl show ?thesis by auto
  next
    case DR
    with Nd have "addrs (replace x s r) = (addrs r - addrs (subtree x r)) \<union> addrs s" by simp
    with DR Nd.prems sr show ?thesis by auto
  qed
qed

lemma a_leftmost_in: "a_leftmost p t = Some (sp, s, m) \<Longrightarrow> s \<in> addrs t"
  by (induction t arbitrary: p) (auto split: option.splits)

lemma addrs_del_min_eq:
  "distinct_tree t \<Longrightarrow> a_leftmost p t = Some (sp, s, m) \<Longrightarrow> addrs (del_min t) = addrs t - {s}"
proof (induction t arbitrary: p)
  case Tip
  then show ?case by simp
next
  case (Nd l a v r)
  show ?case
  proof (cases l)
    case Tip
    with Nd.prems show ?thesis by auto
  next
    case (Nd ll la lv lr)
    then have ne: "l \<noteq> Tip" by simp
    from Nd.prems(2) a_leftmost_Some[OF ne, of a]
    have lm: "a_leftmost a l = Some (sp, s, m)" by (auto split: option.splits)
    from a_leftmost_in[OF lm] have sl: "s \<in> addrs l" .
    from Nd.IH(1)[OF _ lm] Nd.prems(1) have "addrs (del_min l) = addrs l - {s}" by simp
    with sl Nd.prems(1) ne show ?thesis by auto
  qed
qed

lemma FindInorderSuccessor_tree:
  assumes "is_tree h (Some x) (Nd l x v r)" "r \<noteq> Tip"
  shows "FindInorderSuccessor h (Some x) =
           map_option (\<lambda>(sp, s, m). (Some sp, Some s)) (a_leftmost x r)"
proof -
  from assms(1) obtain xn where xn: "h x = Some xn" "is_tree h (right xn) r" by auto
  from assms(2) xn obtain ra where ra: "right xn = Some ra" by (cases r) auto
  from FindInorderSuccessor_loop_tree[of h ra r x] xn ra
  have "FindInorderSuccessor_loop h x ra = map_option (\<lambda>(sp, s, m). (sp, s)) (a_leftmost x r)"
    by simp
  with xn ra show ?thesis
    by (auto simp: FindInorderSuccessor_def option.map_comp comp_def split: prod.splits
        intro!: option.map_cong)
qed

lemma commit_move_successor_sub:
  assumes T: "is_tree h (Some x) (Nd l x v r)" and ne: "r \<noteq> Tip"
    and lm: "a_leftmost x r = Some (sp, s, m)"
  shows "\<exists>h'. commit_move_successor h (Some x) (Some sp) (Some s) = Some h' \<and>
           is_tree h' (Some x) (Nd l x m (del_min r)) \<and>
           (\<forall>a. a \<notin> addrs (Nd l x v r) \<longrightarrow> h' a = h a) \<and> dom h' = dom h - {s}"
proof -
  from T obtain xn where xn: "h x = Some xn" "val xn = v" "is_tree h (left xn) l"
    "is_tree h (right xn) r" "x \<notin> addrs l" "x \<notin> addrs r" "addrs l \<inter> addrs r = {}"
    by auto
  from ne obtain rl ra rv rr where r: "r = Nd rl ra rv rr" by (cases r) auto
  from xn(4) r obtain rn where rn: "right xn = Some ra" "h ra = Some rn" "val rn = rv"
    "is_tree h (left rn) rl" "is_tree h (right rn) rr" "ra \<notin> addrs rl" "ra \<notin> addrs rr"
    "addrs rl \<inter> addrs rr = {}"
    by auto
  have dr: "distinct_tree r" using is_tree_distinct[OF xn(4)] .
  have sr: "s \<in> addrs r" using a_leftmost_in[OF lm] .
  have dm: "addrs (del_min r) = addrs r - {s}" using addrs_del_min_eq[OF dr lm] .
  have sx: "s \<noteq> x" "s \<notin> addrs l" using sr xn by auto
  show ?thesis
  proof (cases rl)
    case Tip
    with lm r have e: "sp = x" "s = ra" "m = rv" by auto
    have lx: "left xn \<noteq> Some ra" using is_tree_root_addr[OF xn(3)] sx e by (cases l) auto
    let ?h = "(h(x \<mapsto> xn\<lparr>val := rv, right := right rn\<rparr>))(ra := None)"
    have c: "commit_move_successor h (Some x) (Some sp) (Some s) = Some ?h"
      using xn rn e sx lx
      by (simp add: commit_move_successor_def copy_successor_value_def unlink_successor_def
          deref_def set_val_def set_left_def set_right_def DeleteNodePointer_def)
    have "is_tree ?h (left xn) l" using xn sx e
      by (intro is_tree_frame[of h _ l ?h]) auto
    moreover have "is_tree ?h (right rn) rr" using rn xn r
      by (intro is_tree_frame[of h _ rr ?h]) auto
    ultimately have t: "is_tree ?h (Some x) (Nd l x m (del_min r))"
      using xn r Tip e sx by auto
    have f: "\<forall>a. a \<notin> addrs (Nd l x v r) \<longrightarrow> ?h a = h a" using r by auto
    have d: "dom ?h = dom h - {s}" using e xn sx by auto
    from c t f d show ?thesis by blast
  next
    case (Nd rll rla rlv rlr)
    then have rlne: "rl \<noteq> Tip" by simp
    from del_min_slot[OF xn(4)[unfolded r] rlne lm[unfolded r]] obtain pn sn where
      ps: "h sp = Some pn" "left pn = Some s" "h s = Some sn" "val sn = m" "left sn = None"
        "sp \<in> addrs r" "sp \<noteq> s" "right sn \<noteq> Some s"
        "is_tree (h(sp \<mapsto> pn\<lparr>left := right sn\<rparr>)) (right xn) (del_min r)"
      unfolding r by blast
    have spx: "sp \<noteq> x" "sp \<notin> addrs l" using ps(6) xn by auto
    let ?h = "(h(x \<mapsto> xn\<lparr>val := m\<rparr>, sp \<mapsto> pn\<lparr>left := right sn\<rparr>))(s := None)"
    have c: "commit_move_successor h (Some x) (Some sp) (Some s) = Some ?h"
      using xn ps spx sx
      by (simp add: commit_move_successor_def copy_successor_value_def unlink_successor_def
          deref_def set_val_def set_left_def set_right_def DeleteNodePointer_def)
    have "is_tree ?h (left xn) l" using xn sx spx
      by (intro is_tree_frame[of h _ l ?h]) auto
    moreover have "is_tree ?h (right xn) (del_min r)" using ps(9) dm xn sx
      by (intro is_tree_frame[of "h(sp \<mapsto> pn\<lparr>left := right sn\<rparr>)" _ "del_min r" ?h]) auto
    moreover have "?h x = Some (xn\<lparr>val := m\<rparr>)" using sx spx by simp
    ultimately have t: "is_tree ?h (Some x) (Nd l x m (del_min r))"
      using xn dm by auto
    have f: "\<forall>a. a \<notin> addrs (Nd l x v r) \<longrightarrow> ?h a = h a" using ps(6) sr by auto
    have d: "dom ?h = dom h - {s}" using xn ps sx spx by auto
    from c t f d show ?thesis by blast
  qed
qed

section \<open>The commits of a deletion on the store\<close>


lemma a_parent_None_root:
  "x \<in> addrs t \<Longrightarrow> a_parent x t = None \<Longrightarrow> root_addr t = Some x"
proof (induction t)
  case Tip
  then show ?case by simp
next
  case (Nd l a v r)
  show ?case
  proof (cases "x = a")
    case True
    then show ?thesis by simp
  next
    case False
    with Nd.prems have nr: "root_addr l \<noteq> Some x" "root_addr r \<noteq> Some x"
      by (auto split: if_splits)
    show ?thesis
    proof (cases "x \<in> addrs l")
      case True
      with Nd.prems False nr have "a_parent x l = None" by simp
      with Nd.IH(1) True nr show ?thesis by simp
    next
      case False
      with Nd.prems \<open>x \<noteq> a\<close> nr have "a_parent x r = None" "x \<in> addrs r" by auto
      with Nd.IH(2) nr show ?thesis by simp
    qed
  qed
qed

lemma root_addr_subtree: "root_addr t = Some x \<Longrightarrow> subtree x t = t"
  by (cases t) auto

lemma replace_root: "root_addr t = Some x \<Longrightarrow> replace x s t = s"
  by (cases t) auto

lemma commit_move_child_up_tree:
  assumes T: "is_tree h rt t" and X: "x \<in> addrs t" and S: "subtree x t = Nd l x v r"
    and one: "l = Tip \<or> r = Tip"
  shows "\<exists>h'. commit_move_child_up h rt (a_parent x t) (Some x) =
                 Some (h', root_addr (a_remove x t)) \<and>
           is_tree h' (root_addr (a_remove x t)) (a_remove x t) \<and> dom h' = dom h - {x}"
proof -
  let ?sub = "if l \<noteq> Tip then l else r"
  from subtree_is_tree[OF T X] S obtain xn where xn: "h x = Some xn" "is_tree h (left xn) l"
    "is_tree h (right xn) r" "x \<notin> addrs l" "x \<notin> addrs r"
    by auto
  let ?c = "if left xn \<noteq> None then left xn else right xn"
  have c: "is_tree h ?c ?sub" using xn one by (cases l) auto
  have rm: "a_remove x t = replace x ?sub t" using S one by (auto simp: a_remove_def)
  have xs: "x \<notin> addrs ?sub" using xn by simp
  show ?thesis
  proof (cases "a_parent x t")
    case None
    from a_parent_None_root[OF X None] have rx: "root_addr t = Some x" .
    with rm have rm': "a_remove x t = ?sub" by (simp add: replace_root)
    have "is_tree (h(x := None)) ?c ?sub" by (rule is_tree_upd_other[OF c xs])
    moreover have "root_addr ?sub = ?c" using is_tree_root_addr[OF c] .
    moreover have "commit_move_child_up h rt None (Some x) = Some (h(x := None), ?c)"
      using xn by (simp add: commit_move_child_up_def deref_def DeleteNodePointer_def)
    ultimately show ?thesis using None rm' by auto
  next
    case (Some p)
    from a_parent_slot[OF T Some] obtain pn where pn: "h p = Some pn" "x \<noteq> p"
      "(left pn = Some x \<and> right pn \<noteq> Some x) \<or> (left pn \<noteq> Some x \<and> right pn = Some x)"
      by blast
    let ?h1 = "h(p \<mapsto> (if left pn = Some x then pn\<lparr>left := ?c\<rparr> else pn\<lparr>right := ?c\<rparr>))"
    have sub: "addrs ?sub \<subseteq> addrs (subtree x t) - {x}" using S xn by auto
    have t1: "is_tree ?h1 rt (replace x ?sub t)"
      by (rule replace_slot[OF T Some pn(1) c sub refl])
    have "addrs (replace x ?sub t) = (addrs t - addrs (subtree x t)) \<union> addrs ?sub"
      by (rule addrs_replace_eq[OF is_tree_distinct[OF T] X])
    with S xs have "x \<notin> addrs (replace x ?sub t)" by auto
    from is_tree_upd_other[OF t1 this] have t2: "is_tree (?h1(x := None)) rt (replace x ?sub t)" .
    have cm: "commit_move_child_up h rt (Some p) (Some x) = Some (?h1(x := None), rt)"
      using xn pn
      by (auto simp: commit_move_child_up_def deref_def DeleteNodePointer_def set_left_def
          set_right_def)
    have "dom (?h1(x := None)) = dom h - {x}" using pn xn by auto
    with t2 cm rm Some is_tree_root_addr[OF t1] show ?thesis by auto
  qed
qed

lemma commit_shrink_remove_tree:
  assumes T: "is_tree h rt t" and X: "x \<in> addrs t" and S: "subtree x t = Nd Tip x v Tip"
  shows "\<exists>h'. commit_shrink_remove h rt (a_parent x t) (Some x) =
                 Some (h', root_addr (a_remove x t)) \<and>
           is_tree h' (root_addr (a_remove x t)) (a_remove x t) \<and> dom h' = dom h - {x}"
proof -
  from subtree_is_tree[OF T X] S obtain xn where xn: "h x = Some xn" "left xn = None"
    "right xn = None"
    by auto
  have rm: "a_remove x t = replace x Tip t" using S by (auto simp: a_remove_def)
  show ?thesis
  proof (cases "a_parent x t")
    case None
    from a_parent_None_root[OF X None] have rx: "root_addr t = Some x" .
    with rm have rm': "a_remove x t = Tip" by (simp add: replace_root)
    have "rt = Some x" using is_tree_root_addr[OF T] rx by simp
    then have "commit_shrink_remove h rt None (Some x) = Some (h(x := None), None)"
      using xn by (simp add: commit_shrink_remove_def DeleteNodePointer_def)
    then show ?thesis using None rm' by auto
  next
    case (Some p)
    from a_parent_slot[OF T Some] obtain pn where pn: "h p = Some pn" "x \<noteq> p"
      "(left pn = Some x \<and> right pn \<noteq> Some x) \<or> (left pn \<noteq> Some x \<and> right pn = Some x)"
      by blast
    let ?h1 = "h(p \<mapsto> (if left pn = Some x then pn\<lparr>left := None\<rparr> else pn\<lparr>right := None\<rparr>))"
    have c: "is_tree h None Tip" by simp
    have sub: "addrs Tip \<subseteq> addrs (subtree x t) - {x}" by simp
    have t1: "is_tree ?h1 rt (replace x Tip t)"
      by (rule replace_slot[OF T Some pn(1) c sub refl])
    have "addrs (replace x Tip t) = (addrs t - addrs (subtree x t)) \<union> addrs Tip"
      by (rule addrs_replace_eq[OF is_tree_distinct[OF T] X])
    with S have "x \<notin> addrs (replace x Tip t)" by auto
    from is_tree_upd_other[OF t1 this] have t2: "is_tree (?h1(x := None)) rt (replace x Tip t)" .
    have cm: "commit_shrink_remove h rt (Some p) (Some x) = Some (?h1(x := None), rt)"
      using xn pn
      by (auto simp: commit_shrink_remove_def DeleteNodePointer_def set_left_def set_right_def)
    have "dom (?h1(x := None)) = dom h - {x}" using pn xn by auto
    with t2 cm rm Some is_tree_root_addr[OF t1] show ?thesis by auto
  qed
qed

lemma commit_move_successor_tree:
  assumes T: "is_tree h rt t" and X: "x \<in> addrs t" and S: "subtree x t = Nd l x v r"
    and two: "l \<noteq> Tip" "r \<noteq> Tip" and lm: "a_leftmost x r = Some (sp, s, m)"
  shows "\<exists>h'. commit_move_successor h (Some x) (Some sp) (Some s) = Some h' \<and>
           is_tree h' rt (a_remove x t) \<and> dom h' = dom h - {s}"
proof -
  have sub: "is_tree h (Some x) (Nd l x v r)" using subtree_is_tree[OF T X] S by simp
  from commit_move_successor_sub[OF sub two(2) lm] obtain h' where
    h': "commit_move_successor h (Some x) (Some sp) (Some s) = Some h'"
      "is_tree h' (Some x) (Nd l x m (del_min r))"
      "\<forall>a. a \<notin> addrs (Nd l x v r) \<longrightarrow> h' a = h a" "dom h' = dom h - {s}"
    by blast
  have rm: "a_remove x t = replace x (Nd l x m (del_min r)) t"
    using S two lm by (simp add: a_remove_def)
  have "addrs (Nd l x m (del_min r)) \<subseteq> addrs (subtree x t)"
    using addrs_del_min[of r] S by auto
  from replace_subtree_heap[OF T X h'(2) this] h'(3) S
  have "is_tree h' rt (replace x (Nd l x m (del_min r)) t)" by simp
  with h' rm show ?thesis by auto
qed

section \<open>Ordering and values under insertion and removal\<close>


lemma bst_Nd_iff:
  "bst (Nd l a v r) \<longleftrightarrow> bst l \<and> bst r \<and> (\<forall>x\<in>set (inorder l). x < v) \<and> (\<forall>x\<in>set (inorder r). v \<le> x)"
  by (simp add: list_all_iff)

declare bst.simps(2) [simp del]
declare bst_Nd_iff [simp]

lemma set_inorder_a_insert [simp]:
  "set (inorder (a_insert n v t)) = insert v (set (inorder t))"
  by (induction t) auto

lemma mset_inorder_a_insert [simp]:
  "mset (inorder (a_insert n v t)) = add_mset v (mset (inorder t))"
  by (induction t) auto

lemma size_a_insert [simp]: "size_tree (a_insert n v t) = Suc (size_tree t)"
  by (induction t) auto

lemma bst_a_insert: "bst t \<Longrightarrow> bst (a_insert n v t)"
  by (induction t) auto

lemma bst_sorted: "bst t \<Longrightarrow> sorted (inorder t)"
  by (induction t) (fastforce simp: sorted_append)+

lemma a_leftmost_inorder:
  "a_leftmost p t = Some (sp, s, m) \<Longrightarrow> inorder t = m # inorder (del_min t)"
proof (induction t arbitrary: p)
  case Tip
  then show ?case by simp
next
  case (Nd l a v r)
  show ?case
  proof (cases l)
    case Tip
    with Nd.prems show ?thesis by simp
  next
    case (Nd ll la lv lr)
    then have ne: "l \<noteq> Tip" by simp
    from Nd.prems a_leftmost_Some[OF ne, of a]
    have "a_leftmost a l = Some (sp, s, m)" by (auto split: option.splits)
    from Nd.IH(1)[OF this] ne show ?thesis by simp
  qed
qed

lemma set_inorder_del_min: "set (inorder (del_min t)) \<subseteq> set (inorder t)"
  by (induction t) auto

lemma bst_del_min: "bst t \<Longrightarrow> bst (del_min t)"
proof (induction t)
  case Tip
  then show ?case by simp
next
  case (Nd l a v r)
  then show ?case using set_inorder_del_min[of l] by auto
qed

lemma bst_a_del_root: "bst t \<Longrightarrow> bst (a_del_root t)"
proof (cases t)
  case Tip
  then show ?thesis by simp
next
  case (Nd l a v r)
  assume b: "bst t"
  show ?thesis
  proof (cases "l \<noteq> Tip \<and> r \<noteq> Tip")
    case True
    then obtain sp s m where lm: "a_leftmost a r = Some (sp, s, m)"
      using a_leftmost_Some[of r a] by blast
    from a_leftmost_inorder[OF lm] have io: "inorder r = m # inorder (del_min r)" .
    from b Nd have br: "bst r" "bst l" "\<forall>x\<in>set (inorder l). x < v" "\<forall>x\<in>set (inorder r). v \<le> x"
      by auto
    from bst_sorted[OF br(1)] io have "\<forall>x\<in>set (inorder (del_min r)). m \<le> x" by simp
    moreover have "v \<le> m" using br(4) io by simp
    ultimately show ?thesis using True lm Nd br bst_del_min[OF br(1)]
      by fastforce
  next
    case False
    with b Nd show ?thesis by auto
  qed
qed

lemma set_inorder_a_del_root: "set (inorder (a_del_root t)) \<subseteq> set (inorder t)"
proof (cases t)
  case Tip
  then show ?thesis by simp
next
  case (Nd l a v r)
  show ?thesis
  proof (cases "l \<noteq> Tip \<and> r \<noteq> Tip")
    case True
    then obtain sp s m where lm: "a_leftmost a r = Some (sp, s, m)"
      using a_leftmost_Some[of r a] by blast
    from a_leftmost_inorder[OF lm] have io: "inorder r = m # inorder (del_min r)" .
    then have "m \<in> set (inorder r)" "set (inorder (del_min r)) \<subseteq> set (inorder r)" by auto
    with True lm Nd show ?thesis by auto
  next
    case False
    with Nd show ?thesis by auto
  qed
qed

lemma bst_subtree: "bst t \<Longrightarrow> bst (subtree x t)"
  by (induction t) auto

lemma set_inorder_subtree: "set (inorder (subtree x t)) \<subseteq> set (inorder t)"
  by (induction t) auto

lemma set_inorder_replace:
  "set (inorder s) \<subseteq> set (inorder (subtree x t)) \<Longrightarrow>
   set (inorder (replace x s t)) \<subseteq> set (inorder t)"
proof (induction t)
  case Tip
  then show ?case by simp
next
  case (Nd l a v r)
  then show ?case using set_inorder_subtree[of x l] set_inorder_subtree[of x r] by auto
qed

lemma bst_replace:
  "bst t \<Longrightarrow> bst s \<Longrightarrow> set (inorder s) \<subseteq> set (inorder (subtree x t)) \<Longrightarrow>
   bst (replace x s t)"
proof (induction t)
  case Tip
  then show ?case by simp
next
  case (Nd l a v r)
  show ?case
  proof (cases "x = a")
    case True
    with Nd.prems show ?thesis by simp
  next
    case False
    show ?thesis
    proof (cases "x \<in> addrs l")
      case True
      with False Nd.prems have s: "set (inorder s) \<subseteq> set (inorder (subtree x l))" by simp
      from Nd.IH(1)[OF _ Nd.prems(2) s] Nd.prems(1) have "bst (replace x s l)"
        by simp
      with set_inorder_replace[OF s] Nd.prems(1) True False show ?thesis
        by auto
    next
      case f: False
      with False Nd.prems have s: "set (inorder s) \<subseteq> set (inorder (subtree x r))" by simp
      from Nd.IH(2)[OF _ Nd.prems(2) s] Nd.prems(1) have "bst (replace x s r)"
        by simp
      with set_inorder_replace[OF s] Nd.prems(1) f False show ?thesis
        by auto
    qed
  qed
qed

lemma bst_a_remove: "bst t \<Longrightarrow> bst (a_remove x t)"
  unfolding a_remove_def
  by (intro bst_replace bst_a_del_root bst_subtree set_inorder_a_del_root)

lemma mset_inorder_a_del_root:
  "mset (inorder (a_del_root (Nd l a v r))) = mset (inorder (Nd l a v r)) - {#v#}"
proof (cases "l \<noteq> Tip \<and> r \<noteq> Tip")
  case True
  then obtain sp s m where lm: "a_leftmost a r = Some (sp, s, m)"
    using a_leftmost_Some[of r a] by blast
  from a_leftmost_inorder[OF lm] have io: "inorder r = m # inorder (del_min r)" .
  with True lm show ?thesis by simp
next
  case False
  then show ?thesis by (cases l) auto
qed

lemma mset_inorder_replace:
  "distinct_tree t \<Longrightarrow> x \<in> addrs t \<Longrightarrow>
   mset (inorder (replace x s t)) + mset (inorder (subtree x t)) =
   mset (inorder t) + mset (inorder s)"
proof (induction t)
  case Tip
  then show ?case by simp
next
  case (Nd l a v r)
  consider (E) "x = a" | (DL) "x \<noteq> a" "x \<in> addrs l" | (DR) "x \<noteq> a" "x \<notin> addrs l" "x \<in> addrs r"
    using Nd.prems(2) by auto
  then show ?case
  proof cases
    case E
    then show ?thesis by simp
  next
    case DL
    with Nd have "mset (inorder (replace x s l)) + mset (inorder (subtree x l)) =
      mset (inorder l) + mset (inorder s)" by simp
    with DL show ?thesis by (simp add: ac_simps)
  next
    case DR
    with Nd have "mset (inorder (replace x s r)) + mset (inorder (subtree x r)) =
      mset (inorder r) + mset (inorder s)" by simp
    with DR show ?thesis by (simp add: ac_simps)
  qed
qed

lemma mset_inorder_a_remove:
  assumes "distinct_tree t" "x \<in> addrs t" "subtree x t = Nd l x v r"
  shows "add_mset v (mset (inorder (a_remove x t))) = mset (inorder t)"
proof -
  from mset_inorder_replace[OF assms(1,2), of "a_del_root (subtree x t)"]
  have "mset (inorder (a_remove x t)) + mset (inorder (Nd l x v r)) =
        mset (inorder t) + (mset (inorder (Nd l x v r)) - {#v#})"
    unfolding a_remove_def assms(3) mset_inorder_a_del_root .
  moreover have "v \<in># mset (inorder (Nd l x v r))" by simp
  ultimately show ?thesis
    by (metis add_mset_add_single add_mset_remove_trivial_If add_right_cancel
        union_mset_add_mset_right add.commute insert_DiffM)
qed

section \<open>The staged commit and the one-shot deleter\<close>





section \<open>Fields the invariant does not read\<close>

lemma tree_ok_irrelevant [simp]:
  "tree_ok t (insStage_update f0 s) = tree_ok t s"
  "tree_ok t (insTraversalPath_update f1 s) = tree_ok t s"
  "tree_ok t (insTraversalIndex_update f2 s) = tree_ok t s"
  "tree_ok t (insFramesCounter_update f3 s) = tree_ok t s"
  "tree_ok t (insParent_update f4 s) = tree_ok t s"
  "tree_ok t (insNewNode_update f5 s) = tree_ok t s"
  "tree_ok t (insNewIsLeft_update f6 s) = tree_ok t s"
  "tree_ok t (insFinalizeTimer_update f7 s) = tree_ok t s"
  "tree_ok t (insValuePending_update f8 s) = tree_ok t s"
  "tree_ok t (delStage_update f9 s) = tree_ok t s"
  "tree_ok t (delTraversalPath_update f10 s) = tree_ok t s"
  "tree_ok t (delTraversalIndex_update f11 s) = tree_ok t s"
  "tree_ok t (delFramesCounter_update f12 s) = tree_ok t s"
  "tree_ok t (delTargetParent_update f13 s) = tree_ok t s"
  "tree_ok t (delTargetNode_update f14 s) = tree_ok t s"
  "tree_ok t (successorParent_update f15 s) = tree_ok t s"
  "tree_ok t (successorNode_update f16 s) = tree_ok t s"
  "tree_ok t (animNode_update f17 s) = tree_ok t s"
  "tree_ok t (animReplaceNode_update f18 s) = tree_ok t s"
  "tree_ok t (animProgress_update f19 s) = tree_ok t s"
  "tree_ok t (delValuePending_update f20 s) = tree_ok t s"
  "tree_ok t (searchStage_update f21 s) = tree_ok t s"
  "tree_ok t (searchPath_update f22 s) = tree_ok t s"
  "tree_ok t (searchIndex_update f23 s) = tree_ok t s"
  "tree_ok t (searchFrames_update f24 s) = tree_ok t s"
  "tree_ok t (flashCount_update f25 s) = tree_ok t s"
  "tree_ok t (searchFinalNode_update f26 s) = tree_ok t s"
  "tree_ok t (searchValuePending_update f27 s) = tree_ok t s"
  "tree_ok t (statusMessage_update f28 s) = tree_ok t s"
  "tree_ok t (statusTimer_update f29 s) = tree_ok t s"
  by (simp_all add: tree_ok_def)

lemma excl_irrelevant [simp]:
  "excl (heap_update f0 s) = excl s"
  "excl (root_update f1 s) = excl s"
  "excl (insTraversalPath_update f2 s) = excl s"
  "excl (insTraversalIndex_update f3 s) = excl s"
  "excl (insFramesCounter_update f4 s) = excl s"
  "excl (insParent_update f5 s) = excl s"
  "excl (insNewNode_update f6 s) = excl s"
  "excl (insNewIsLeft_update f7 s) = excl s"
  "excl (insFinalizeTimer_update f8 s) = excl s"
  "excl (insValuePending_update f9 s) = excl s"
  "excl (delTraversalPath_update f10 s) = excl s"
  "excl (delTraversalIndex_update f11 s) = excl s"
  "excl (delFramesCounter_update f12 s) = excl s"
  "excl (delTargetParent_update f13 s) = excl s"
  "excl (delTargetNode_update f14 s) = excl s"
  "excl (successorParent_update f15 s) = excl s"
  "excl (successorNode_update f16 s) = excl s"
  "excl (animNode_update f17 s) = excl s"
  "excl (animReplaceNode_update f18 s) = excl s"
  "excl (animProgress_update f19 s) = excl s"
  "excl (delValuePending_update f20 s) = excl s"
  "excl (searchPath_update f21 s) = excl s"
  "excl (searchIndex_update f22 s) = excl s"
  "excl (searchFrames_update f23 s) = excl s"
  "excl (flashCount_update f24 s) = excl s"
  "excl (searchFinalNode_update f25 s) = excl s"
  "excl (searchValuePending_update f26 s) = excl s"
  "excl (statusMessage_update f27 s) = excl s"
  "excl (statusTimer_update f28 s) = excl s"
  by (simp_all add: excl_def)

lemma ins_ok_irrelevant [simp]:
  "ins_ok t (heap_update f0 s) = ins_ok t s"
  "ins_ok t (root_update f1 s) = ins_ok t s"
  "ins_ok t (insTraversalIndex_update f2 s) = ins_ok t s"
  "ins_ok t (insFramesCounter_update f3 s) = ins_ok t s"
  "ins_ok t (insNewNode_update f4 s) = ins_ok t s"
  "ins_ok t (delStage_update f5 s) = ins_ok t s"
  "ins_ok t (delTraversalPath_update f6 s) = ins_ok t s"
  "ins_ok t (delTraversalIndex_update f7 s) = ins_ok t s"
  "ins_ok t (delFramesCounter_update f8 s) = ins_ok t s"
  "ins_ok t (delTargetParent_update f9 s) = ins_ok t s"
  "ins_ok t (delTargetNode_update f10 s) = ins_ok t s"
  "ins_ok t (successorParent_update f11 s) = ins_ok t s"
  "ins_ok t (successorNode_update f12 s) = ins_ok t s"
  "ins_ok t (animNode_update f13 s) = ins_ok t s"
  "ins_ok t (animReplaceNode_update f14 s) = ins_ok t s"
  "ins_ok t (animProgress_update f15 s) = ins_ok t s"
  "ins_ok t (delValuePending_update f16 s) = ins_ok t s"
  "ins_ok t (searchStage_update f17 s) = ins_ok t s"
  "ins_ok t (searchPath_update f18 s) = ins_ok t s"
  "ins_ok t (searchIndex_update f19 s) = ins_ok t s"
  "ins_ok t (searchFrames_update f20 s) = ins_ok t s"
  "ins_ok t (flashCount_update f21 s) = ins_ok t s"
  "ins_ok t (searchFinalNode_update f22 s) = ins_ok t s"
  "ins_ok t (searchValuePending_update f23 s) = ins_ok t s"
  "ins_ok t (statusMessage_update f24 s) = ins_ok t s"
  "ins_ok t (statusTimer_update f25 s) = ins_ok t s"
  by (simp_all add: ins_ok_def)

lemma del_ok_irrelevant [simp]:
  "del_ok t (heap_update f0 s) = del_ok t s"
  "del_ok t (root_update f1 s) = del_ok t s"
  "del_ok t (insStage_update f2 s) = del_ok t s"
  "del_ok t (insTraversalPath_update f3 s) = del_ok t s"
  "del_ok t (insTraversalIndex_update f4 s) = del_ok t s"
  "del_ok t (insFramesCounter_update f5 s) = del_ok t s"
  "del_ok t (insParent_update f6 s) = del_ok t s"
  "del_ok t (insNewNode_update f7 s) = del_ok t s"
  "del_ok t (insNewIsLeft_update f8 s) = del_ok t s"
  "del_ok t (insFinalizeTimer_update f9 s) = del_ok t s"
  "del_ok t (insValuePending_update f10 s) = del_ok t s"
  "del_ok t (delTraversalIndex_update f11 s) = del_ok t s"
  "del_ok t (delFramesCounter_update f12 s) = del_ok t s"
  "del_ok t (animReplaceNode_update f13 s) = del_ok t s"
  "del_ok t (animProgress_update f14 s) = del_ok t s"
  "del_ok t (searchStage_update f15 s) = del_ok t s"
  "del_ok t (searchPath_update f16 s) = del_ok t s"
  "del_ok t (searchIndex_update f17 s) = del_ok t s"
  "del_ok t (searchFrames_update f18 s) = del_ok t s"
  "del_ok t (flashCount_update f19 s) = del_ok t s"
  "del_ok t (searchFinalNode_update f20 s) = del_ok t s"
  "del_ok t (searchValuePending_update f21 s) = del_ok t s"
  "del_ok t (statusMessage_update f22 s) = del_ok t s"
  "del_ok t (statusTimer_update f23 s) = del_ok t s"
  by (simp_all add: del_ok_def found_ok_def target_sub_def)

lemma goal_irrelevant [simp]:
  "goal a t (heap_update f0 s) = goal a t s"
  "goal a t (root_update f1 s) = goal a t s"
  "goal a t (insTraversalPath_update f2 s) = goal a t s"
  "goal a t (insTraversalIndex_update f3 s) = goal a t s"
  "goal a t (insFramesCounter_update f4 s) = goal a t s"
  "goal a t (insParent_update f5 s) = goal a t s"
  "goal a t (insNewNode_update f6 s) = goal a t s"
  "goal a t (insNewIsLeft_update f7 s) = goal a t s"
  "goal a t (insFinalizeTimer_update f8 s) = goal a t s"
  "goal a t (delTraversalPath_update f9 s) = goal a t s"
  "goal a t (delTraversalIndex_update f10 s) = goal a t s"
  "goal a t (delFramesCounter_update f11 s) = goal a t s"
  "goal a t (delTargetParent_update f12 s) = goal a t s"
  "goal a t (successorParent_update f13 s) = goal a t s"
  "goal a t (successorNode_update f14 s) = goal a t s"
  "goal a t (animNode_update f15 s) = goal a t s"
  "goal a t (animReplaceNode_update f16 s) = goal a t s"
  "goal a t (animProgress_update f17 s) = goal a t s"
  "goal a t (delValuePending_update f18 s) = goal a t s"
  "goal a t (searchStage_update f19 s) = goal a t s"
  "goal a t (searchPath_update f20 s) = goal a t s"
  "goal a t (searchIndex_update f21 s) = goal a t s"
  "goal a t (searchFrames_update f22 s) = goal a t s"
  "goal a t (flashCount_update f23 s) = goal a t s"
  "goal a t (searchFinalNode_update f24 s) = goal a t s"
  "goal a t (searchValuePending_update f25 s) = goal a t s"
  "goal a t (statusMessage_update f26 s) = goal a t s"
  "goal a t (statusTimer_update f27 s) = goal a t s"
  by (simp_all add: goal_def)

lemma ins_measure_irrelevant [simp]:
  "ins_measure (heap_update f0 s) = ins_measure s"
  "ins_measure (root_update f1 s) = ins_measure s"
  "ins_measure (insParent_update f2 s) = ins_measure s"
  "ins_measure (insNewNode_update f3 s) = ins_measure s"
  "ins_measure (insNewIsLeft_update f4 s) = ins_measure s"
  "ins_measure (insValuePending_update f5 s) = ins_measure s"
  "ins_measure (delStage_update f6 s) = ins_measure s"
  "ins_measure (delTraversalPath_update f7 s) = ins_measure s"
  "ins_measure (delTraversalIndex_update f8 s) = ins_measure s"
  "ins_measure (delFramesCounter_update f9 s) = ins_measure s"
  "ins_measure (delTargetParent_update f10 s) = ins_measure s"
  "ins_measure (delTargetNode_update f11 s) = ins_measure s"
  "ins_measure (successorParent_update f12 s) = ins_measure s"
  "ins_measure (successorNode_update f13 s) = ins_measure s"
  "ins_measure (animNode_update f14 s) = ins_measure s"
  "ins_measure (animReplaceNode_update f15 s) = ins_measure s"
  "ins_measure (animProgress_update f16 s) = ins_measure s"
  "ins_measure (delValuePending_update f17 s) = ins_measure s"
  "ins_measure (searchStage_update f18 s) = ins_measure s"
  "ins_measure (searchPath_update f19 s) = ins_measure s"
  "ins_measure (searchIndex_update f20 s) = ins_measure s"
  "ins_measure (searchFrames_update f21 s) = ins_measure s"
  "ins_measure (flashCount_update f22 s) = ins_measure s"
  "ins_measure (searchFinalNode_update f23 s) = ins_measure s"
  "ins_measure (searchValuePending_update f24 s) = ins_measure s"
  "ins_measure (statusMessage_update f25 s) = ins_measure s"
  "ins_measure (statusTimer_update f26 s) = ins_measure s"
  by (simp_all add: ins_measure_def split: InsertStage.splits)

lemma del_measure_irrelevant [simp]:
  "del_measure (heap_update f0 s) = del_measure s"
  "del_measure (root_update f1 s) = del_measure s"
  "del_measure (insStage_update f2 s) = del_measure s"
  "del_measure (insTraversalPath_update f3 s) = del_measure s"
  "del_measure (insTraversalIndex_update f4 s) = del_measure s"
  "del_measure (insFramesCounter_update f5 s) = del_measure s"
  "del_measure (insParent_update f6 s) = del_measure s"
  "del_measure (insNewNode_update f7 s) = del_measure s"
  "del_measure (insNewIsLeft_update f8 s) = del_measure s"
  "del_measure (insFinalizeTimer_update f9 s) = del_measure s"
  "del_measure (insValuePending_update f10 s) = del_measure s"
  "del_measure (delTargetParent_update f11 s) = del_measure s"
  "del_measure (delTargetNode_update f12 s) = del_measure s"
  "del_measure (successorParent_update f13 s) = del_measure s"
  "del_measure (successorNode_update f14 s) = del_measure s"
  "del_measure (animNode_update f15 s) = del_measure s"
  "del_measure (animReplaceNode_update f16 s) = del_measure s"
  "del_measure (delValuePending_update f17 s) = del_measure s"
  "del_measure (searchStage_update f18 s) = del_measure s"
  "del_measure (searchPath_update f19 s) = del_measure s"
  "del_measure (searchIndex_update f20 s) = del_measure s"
  "del_measure (searchFrames_update f21 s) = del_measure s"
  "del_measure (flashCount_update f22 s) = del_measure s"
  "del_measure (searchFinalNode_update f23 s) = del_measure s"
  "del_measure (searchValuePending_update f24 s) = del_measure s"
  "del_measure (statusMessage_update f25 s) = del_measure s"
  "del_measure (statusTimer_update f26 s) = del_measure s"
  by (simp_all add: del_measure_def split: DelStage.splits)

lemma search_measure_irrelevant [simp]:
  "search_measure (heap_update f0 s) = search_measure s"
  "search_measure (root_update f1 s) = search_measure s"
  "search_measure (insStage_update f2 s) = search_measure s"
  "search_measure (insTraversalPath_update f3 s) = search_measure s"
  "search_measure (insTraversalIndex_update f4 s) = search_measure s"
  "search_measure (insFramesCounter_update f5 s) = search_measure s"
  "search_measure (insParent_update f6 s) = search_measure s"
  "search_measure (insNewNode_update f7 s) = search_measure s"
  "search_measure (insNewIsLeft_update f8 s) = search_measure s"
  "search_measure (insFinalizeTimer_update f9 s) = search_measure s"
  "search_measure (insValuePending_update f10 s) = search_measure s"
  "search_measure (delStage_update f11 s) = search_measure s"
  "search_measure (delTraversalPath_update f12 s) = search_measure s"
  "search_measure (delTraversalIndex_update f13 s) = search_measure s"
  "search_measure (delFramesCounter_update f14 s) = search_measure s"
  "search_measure (delTargetParent_update f15 s) = search_measure s"
  "search_measure (delTargetNode_update f16 s) = search_measure s"
  "search_measure (successorParent_update f17 s) = search_measure s"
  "search_measure (successorNode_update f18 s) = search_measure s"
  "search_measure (animNode_update f19 s) = search_measure s"
  "search_measure (animReplaceNode_update f20 s) = search_measure s"
  "search_measure (animProgress_update f21 s) = search_measure s"
  "search_measure (delValuePending_update f22 s) = search_measure s"
  "search_measure (searchFinalNode_update f23 s) = search_measure s"
  "search_measure (searchValuePending_update f24 s) = search_measure s"
  "search_measure (statusMessage_update f25 s) = search_measure s"
  "search_measure (statusTimer_update f26 s) = search_measure s"
  by (simp_all add: search_measure_def split: SearchStage.splits)

lemma all_idle_irrelevant [simp]:
  "all_idle (heap_update f0 s) = all_idle s"
  "all_idle (root_update f1 s) = all_idle s"
  "all_idle (insTraversalPath_update f2 s) = all_idle s"
  "all_idle (insTraversalIndex_update f3 s) = all_idle s"
  "all_idle (insFramesCounter_update f4 s) = all_idle s"
  "all_idle (insParent_update f5 s) = all_idle s"
  "all_idle (insNewNode_update f6 s) = all_idle s"
  "all_idle (insNewIsLeft_update f7 s) = all_idle s"
  "all_idle (insFinalizeTimer_update f8 s) = all_idle s"
  "all_idle (insValuePending_update f9 s) = all_idle s"
  "all_idle (delTraversalPath_update f10 s) = all_idle s"
  "all_idle (delTraversalIndex_update f11 s) = all_idle s"
  "all_idle (delFramesCounter_update f12 s) = all_idle s"
  "all_idle (delTargetParent_update f13 s) = all_idle s"
  "all_idle (delTargetNode_update f14 s) = all_idle s"
  "all_idle (successorParent_update f15 s) = all_idle s"
  "all_idle (successorNode_update f16 s) = all_idle s"
  "all_idle (animNode_update f17 s) = all_idle s"
  "all_idle (animReplaceNode_update f18 s) = all_idle s"
  "all_idle (animProgress_update f19 s) = all_idle s"
  "all_idle (delValuePending_update f20 s) = all_idle s"
  "all_idle (searchPath_update f21 s) = all_idle s"
  "all_idle (searchIndex_update f22 s) = all_idle s"
  "all_idle (searchFrames_update f23 s) = all_idle s"
  "all_idle (flashCount_update f24 s) = all_idle s"
  "all_idle (searchFinalNode_update f25 s) = all_idle s"
  "all_idle (searchValuePending_update f26 s) = all_idle s"
  "all_idle (statusMessage_update f27 s) = all_idle s"
  "all_idle (statusTimer_update f28 s) = all_idle s"
  by (simp_all add: all_idle_def)

section \<open>Starting an operation on a tree\<close>


lemma StartSearch_loop_tree:
  "is_tree (heap s) cur t \<Longrightarrow>
   StartSearch_loop v cur s =
     Some (case a_find v t p0 of
             None \<Rightarrow> s\<lparr>searchPath := searchPath s @ del_path v t\<rparr>
           | Some (p, a) \<Rightarrow> s\<lparr>searchPath := searchPath s @ del_path v t,
                               searchFinalNode := Some a\<rparr>)"
proof (induction t arbitrary: cur s p0)
  case Tip
  then show ?case by (subst StartSearch_loop.simps) simp
next
  case (Nd l a x r)
  from Nd.prems obtain n where n: "cur = Some a" "heap s a = Some n" "val n = x"
    "is_tree (heap s) (left n) l" "is_tree (heap s) (right n) r"
    by auto
  let ?s = "s\<lparr>searchPath := searchPath s @ [a]\<rparr>"
  have l: "is_tree (heap ?s) (left n) l" and r: "is_tree (heap ?s) (right n) r"
    using n by simp_all
  show ?case
    using Nd.IH(1)[OF l, of "Some a"] Nd.IH(2)[OF r, of "Some a"] n
    by (subst StartSearch_loop.simps) (simp add: Let_def split: option.splits)
qed

lemma StartInsertion_tree:
  assumes "is_tree (heap s) (root s) t"
  shows "StartInsertion v s =
     Some (s\<lparr>insTraversalPath := ins_path v t, insTraversalIndex := 0,
             insFramesCounter := 0, insStage := INS_TRAVERSING,
             insParent := fst (ins_slot v t (None, False)), insNewNode := None,
             insNewIsLeft := snd (ins_slot v t (None, False)), insValuePending := v\<rparr>)"
proof (cases "root s")
  case None
  with assms have "t = Tip" by simp
  with None show ?thesis by (simp add: StartInsertion_def)
next
  case (Some a)
  let ?s = "s\<lparr>insTraversalPath := [], insTraversalIndex := 0, insFramesCounter := 0,
    insStage := INS_TRAVERSING, insParent := None, insNewNode := None,
    insNewIsLeft := False, insValuePending := v\<rparr>"
  have "is_tree (heap ?s) (root s) t" using assms by simp
  from StartInsertion_loop_tree[OF this, of v None] Some show ?thesis
    by (simp add: StartInsertion_def)
qed

lemma StartDeletion_tree:
  assumes "is_tree (heap s) (root s) t"
  shows "StartDeletion v s =
     Some (s\<lparr>delTraversalPath := del_path v t, delTraversalIndex := 0,
             delFramesCounter := 0, delStage := DEL_TRAVERSING,
             delTargetParent := find_parent v t, delTargetNode := find_node v t,
             successorParent := None, successorNode := None, animNode := None,
             animReplaceNode := None, animProgress := 0, delValuePending := v\<rparr>)"
proof -
  let ?s = "s\<lparr>delTraversalPath := [], delTraversalIndex := 0, delFramesCounter := 0,
                 delStage := DEL_TRAVERSING, delTargetParent := None, delTargetNode := None,
                 successorParent := None, successorNode := None, animNode := None,
                 animReplaceNode := None, animProgress := 0, delValuePending := v\<rparr>"
  have "is_tree (heap ?s) (root s) t" using assms by simp
  from StartDeletion_loop_tree[OF this, of v None] show ?thesis
    by (simp add: StartDeletion_def find_node_def find_parent_def split: option.splits)
qed

lemma StartSearch_tree:
  assumes "is_tree (heap s) (root s) t"
  shows "StartSearch v s =
     Some (s\<lparr>searchPath := del_path v t, searchIndex := 0, searchFrames := 0,
             flashCount := 0, searchFinalNode := find_node v t,
             searchStage := S_TRAVERSING, searchValuePending := v\<rparr>)"
proof -
  let ?s = "s\<lparr>searchPath := [], searchIndex := 0, searchFrames := 0, flashCount := 0,
                 searchFinalNode := None, searchStage := S_TRAVERSING,
                 searchValuePending := v\<rparr>"
  have "is_tree (heap ?s) (root s) t" using assms by simp
  from StartSearch_loop_tree[OF this, of v None] show ?thesis
    by (simp add: StartSearch_def find_node_def split: option.splits prod.splits)
qed

lemma handle_enter_inv:
  assumes "inv t s"
  shows "\<exists>s1. handle_enter c s = Some s1 \<and> inv t s1"
proof -
  from assms have T: "is_tree (heap s) (root s) t" and D: "dom (heap s) = addrs t"
    and B: "bst t" and E: "excl s" and I: "ins_ok t s" and DL: "del_ok t s"
    by (simp_all add: inv_def tree_ok_def)
  show ?thesis
  proof (cases c)
    case None
    with assms show ?thesis by (simp add: handle_enter_def)
  next
    case (Some mv)
    obtain m v where mv: "mv = (m, v)" by (cases mv)
    show ?thesis
    proof (cases m)
      case MODE_INSERT
      show ?thesis
      proof (cases "delStage s = DEL_IDLE \<and> insStage s = INS_IDLE")
        case True
        let ?s = "s\<lparr>insTraversalPath := ins_path v t, insTraversalIndex := 0,
             insFramesCounter := 0, insStage := INS_TRAVERSING,
             insParent := fst (ins_slot v t (None, False)), insNewNode := None,
             insNewIsLeft := snd (ins_slot v t (None, False)), insValuePending := v\<rparr>"
        have h: "handle_enter c s = Some ?s"
          using Some mv MODE_INSERT True by (simp add: handle_enter_def StartInsertion_tree[OF T])
        have "tree_ok t ?s" using T D by (simp add: tree_ok_def)
        moreover have "excl ?s" using True by (simp add: excl_def)
        moreover have "ins_ok t ?s" using I True by (simp add: ins_ok_def)
        moreover have "del_ok t ?s" using True by (simp add: del_ok_def)
        ultimately show ?thesis using h B by (simp add: inv_def)
      next
        case False
        let ?s = "s\<lparr>statusMessage := InsertBlocked, statusTimer := 120\<rparr>"
        have h: "handle_enter c s = Some ?s"
          using Some mv MODE_INSERT False by (auto simp: handle_enter_def)
        have "tree_ok t ?s" using T D by (simp add: tree_ok_def)
        moreover have "excl ?s" using E by (simp add: excl_def)
        moreover have "ins_ok t ?s" using I by (simp add: ins_ok_def)
        moreover have "del_ok t ?s" using DL by simp
        ultimately show ?thesis using h B by (simp add: inv_def)
      qed
    next
      case MODE_DELETE
      show ?thesis
      proof (cases "delStage s = DEL_IDLE \<and> searchStage s = S_IDLE \<and> insStage s = INS_IDLE")
        case True
        let ?s = "s\<lparr>delTraversalPath := del_path v t, delTraversalIndex := 0,
             delFramesCounter := 0, delStage := DEL_TRAVERSING,
             delTargetParent := find_parent v t, delTargetNode := find_node v t,
             successorParent := None, successorNode := None, animNode := None,
             animReplaceNode := None, animProgress := 0, delValuePending := v\<rparr>"
        have h: "handle_enter c s = Some ?s"
          using Some mv MODE_DELETE True by (simp add: handle_enter_def StartDeletion_tree[OF T])
        have "tree_ok t ?s" using T D by (simp add: tree_ok_def)
        moreover have "excl ?s" using True by (simp add: excl_def)
        moreover have "ins_ok t ?s" using I True by (simp add: ins_ok_def)
        moreover have "del_ok t ?s"
          by (simp add: del_ok_def found_ok_def)
        ultimately show ?thesis using h B by (simp add: inv_def)
      next
        case False
        let ?s = "s\<lparr>statusMessage := DeleteBlocked, statusTimer := 120\<rparr>"
        have h: "handle_enter c s = Some ?s"
          using Some mv MODE_DELETE False by (auto simp: handle_enter_def)
        have "tree_ok t ?s" using T D by (simp add: tree_ok_def)
        moreover have "excl ?s" using E by (simp add: excl_def)
        moreover have "ins_ok t ?s" using I by (simp add: ins_ok_def)
        moreover have "del_ok t ?s" using DL by simp
        ultimately show ?thesis using h B by (simp add: inv_def)
      qed
    next
      case MODE_SEARCH
      show ?thesis
      proof (cases "delStage s = DEL_IDLE \<and> insStage s = INS_IDLE \<and> searchStage s = S_IDLE")
        case True
        let ?s = "s\<lparr>searchPath := del_path v t, searchIndex := 0, searchFrames := 0,
             flashCount := 0, searchFinalNode := find_node v t,
             searchStage := S_TRAVERSING, searchValuePending := v\<rparr>"
        have h: "handle_enter c s = Some ?s"
          using Some mv MODE_SEARCH True by (simp add: handle_enter_def StartSearch_tree[OF T])
        have "tree_ok t ?s" using T D by (simp add: tree_ok_def)
        moreover have "excl ?s" using True by (simp add: excl_def)
        moreover have "ins_ok t ?s" using I True by (simp add: ins_ok_def)
        moreover have "del_ok t ?s" using True by (simp add: del_ok_def)
        ultimately show ?thesis using h B by (simp add: inv_def)
      next
        case False
        let ?s = "s\<lparr>statusMessage := SearchBlocked, statusTimer := 120\<rparr>"
        have h: "handle_enter c s = Some ?s"
          using Some mv MODE_SEARCH False by (auto simp: handle_enter_def)
        have "tree_ok t ?s" using T D by (simp add: tree_ok_def)
        moreover have "excl ?s" using E by (simp add: excl_def)
        moreover have "ins_ok t ?s" using I by (simp add: ins_ok_def)
        moreover have "del_ok t ?s" using DL by simp
        ultimately show ?thesis using h B by (simp add: inv_def)
      qed
    qed
  qed
qed

section \<open>The found target and the attached node\<close>


lemma a_find_located:
  "distinct_tree t \<Longrightarrow> a_find v t p0 = Some (p, x) \<Longrightarrow>
   x \<in> addrs t \<and> p = (if root_addr t = Some x then p0 else a_parent x t) \<and>
   (\<exists>l r. subtree x t = Nd l x v r)"
proof (induction t arbitrary: p0)
  case Tip
  then show ?case by simp
next
  case (Nd l a y r)
  show ?case
  proof (cases "v = y")
    case True
    with Nd.prems show ?thesis by auto
  next
    case ne: False
    show ?thesis
    proof (cases "v < y")
      case True
      with ne Nd.prems have f: "a_find v l (Some a) = Some (p, x)" by simp
      from Nd.IH(1)[OF _ f] Nd.prems(1) have
        i: "x \<in> addrs l" "p = (if root_addr l = Some x then Some a else a_parent x l)"
        "\<exists>l' r'. subtree x l = Nd l' x v r'" by auto
      from i(1) Nd.prems(1) have "x \<noteq> a" "x \<notin> addrs r" by auto
      moreover from this have "root_addr r \<noteq> Some x" by (cases r) auto
      ultimately show ?thesis using i by auto
    next
      case False
      with ne Nd.prems have f: "a_find v r (Some a) = Some (p, x)" by simp
      from Nd.IH(2)[OF _ f] Nd.prems(1) have
        i: "x \<in> addrs r" "p = (if root_addr r = Some x then Some a else a_parent x r)"
        "\<exists>l' r'. subtree x r = Nd l' x v r'" by auto
      from i(1) Nd.prems(1) have "x \<noteq> a" "x \<notin> addrs l" by auto
      moreover from this have "root_addr l \<noteq> Some x" by (cases l) auto
      ultimately show ?thesis using i by auto
    qed
  qed
qed

lemma a_parent_root: "root_addr t = Some x \<Longrightarrow> a_parent x t = None"
  by (cases t) auto

lemma find_node_located:
  assumes "distinct_tree t" "find_node v t = Some x"
  shows "x \<in> addrs t" "find_parent v t = a_parent x t" "\<exists>l r. subtree x t = Nd l x v r"
proof -
  from assms(2) obtain p where f: "a_find v t None = Some (p, x)"
    by (auto simp: find_node_def)
  from a_find_located[OF assms(1) f] show "x \<in> addrs t" "\<exists>l r. subtree x t = Nd l x v r"
    by auto
  from a_find_located[OF assms(1) f] f show "find_parent v t = a_parent x t"
    by (auto simp: find_parent_def a_parent_root)
qed

lemma addrs_a_remove_leaf_one:
  assumes "distinct_tree t" "x \<in> addrs t" "subtree x t = Nd l x v r" "l = Tip \<or> r = Tip"
  shows "addrs (a_remove x t) = addrs t - {x}"
proof -
  have d: "distinct_tree (subtree x t)" using assms(1) by (induction t) auto
  with assms(3) have "x \<notin> addrs l" "x \<notin> addrs r" by auto
  moreover have "addrs (subtree x t) \<subseteq> addrs t" by (rule addrs_subtree)
  ultimately show ?thesis
    using addrs_replace_eq[OF assms(1,2), of "a_del_root (subtree x t)"] assms(3,4)
    by (auto simp: a_remove_def)
qed

lemma addrs_a_remove_two:
  assumes "distinct_tree t" "x \<in> addrs t" "subtree x t = Nd l x v r" "l \<noteq> Tip" "r \<noteq> Tip"
    "a_leftmost x r = Some (sp, s, m)"
  shows "addrs (a_remove x t) = addrs t - {s}"
proof -
  have d: "distinct_tree (subtree x t)" using assms(1) by (induction t) auto
  with assms(3) have dx: "x \<notin> addrs l" "x \<notin> addrs r" "distinct_tree r" "addrs l \<inter> addrs r = {}"
    by auto
  have sr: "s \<in> addrs r" using a_leftmost_in[OF assms(6)] .
  have dm: "addrs (del_min r) = addrs r - {s}" using addrs_del_min_eq[OF dx(3) assms(6)] .
  have "addrs (subtree x t) \<subseteq> addrs t" by (rule addrs_subtree)
  then show ?thesis
    using addrs_replace_eq[OF assms(1,2), of "a_del_root (subtree x t)"] assms(3,4,5,6) dm sr dx
    by (auto simp: a_remove_def)
qed

lemma AttachNewNodeFromPending_tree:
  assumes T: "is_tree (heap s) (root s) t" and D: "dom (heap s) = addrs t"
    and P: "(insParent s, insNewIsLeft s) = ins_slot (insValuePending s) t (None, False)"
    and A: "a \<notin> addrs t"
  shows "\<exists>h'. AttachNewNodeFromPending a s =
           Some (s\<lparr>heap := h', root := root_addr (a_insert a (insValuePending s) t),
                   insNewNode := Some a, insFinalizeTimer := 120,
                   statusMessage := Inserted (insValuePending s), statusTimer := 120\<rparr>) \<and>
         is_tree h' (root_addr (a_insert a (insValuePending s) t))
           (a_insert a (insValuePending s) t) \<and>
         dom h' = insert a (addrs t)"
proof -
  let ?v = "insValuePending s"
  let ?h = "(heap s)(a \<mapsto> \<lparr>val = ?v, left = None, right = None\<rparr>)"
  have fr: "heap s a = None" using A D by auto
  then have nn: "new_Node (heap s) a ?v = Some ?h" by (simp add: new_Node_def)
  show ?thesis
  proof (cases t)
    case Tip
    with P have p: "insParent s = None" by simp
    from Tip T have r: "root s = None" by simp
    have 1: "is_tree ?h (Some a) (Nd Tip a ?v Tip)" by simp
    have 2: "dom ?h = insert a (addrs t)" using D by simp
    have 3: "AttachNewNodeFromPending a s =
           Some (s\<lparr>heap := ?h, root := Some a,
                   insNewNode := Some a, insFinalizeTimer := 120,
                   statusMessage := Inserted ?v, statusTimer := 120\<rparr>)"
      using nn p by (simp add: AttachNewNodeFromPending_def)
    from 1 2 3 Tip show ?thesis by (intro exI[of _ ?h]) simp
  next
    case (Nd l b x r)
    then have ne: "t \<noteq> Tip" by simp
    obtain q bb where qb: "ins_slot ?v t (None, False) = (q, bb)" by (cases "ins_slot ?v t (None, False)")
    from ins_slot_in[OF ne qb] obtain p where p: "q = Some p" "p \<in> addrs t" by blast
    from P qb p have ip: "insParent s = Some p" "insNewIsLeft s = bb" by simp_all
    have T': "is_tree ?h (root s) t" by (rule is_tree_upd_other[OF T A])
    have hn: "?h a = Some \<lparr>val = ?v, left = None, right = None\<rparr>" by simp
    from attach_tree[OF T' ne A hn qb[unfolded p(1)]] obtain pn where
      pn: "?h p = Some pn"
      "is_tree (?h(p \<mapsto> (if bb then pn\<lparr>left := Some a\<rparr> else pn\<lparr>right := Some a\<rparr>))) (root s)
        (a_insert a ?v t)"
      by blast
    let ?h2 = "?h(p \<mapsto> (if bb then pn\<lparr>left := Some a\<rparr> else pn\<lparr>right := Some a\<rparr>))"
    have rt: "root_addr (a_insert a ?v t) = root s" using is_tree_root_addr[OF pn(2)] .
    have d: "dom ?h2 = insert a (addrs t)" using D p(2) by auto
    have "AttachNewNodeFromPending a s =
           Some (s\<lparr>heap := ?h2,
                   insNewNode := Some a, insFinalizeTimer := 120,
                   statusMessage := Inserted ?v, statusTimer := 120\<rparr>)"
      using nn ip pn(1)
      by (cases bb) (simp_all add: AttachNewNodeFromPending_def set_left_def set_right_def)
    with pn(2) d rt show ?thesis by (intro exI[of _ ?h2]) simp
  qed
qed

section \<open>The insert machine on a tree\<close>


lemma ins_ok_tree_irrelevant: "insStage s \<noteq> INS_TRAVERSING \<Longrightarrow> ins_ok t s = ins_ok t' s"
  by (simp add: ins_ok_def)

lemma del_ok_finalize [simp]: "delStage s = DEL_FINALIZE \<Longrightarrow> del_ok t s"
  by (simp add: del_ok_def)

lemma del_ok_idle [simp]: "delStage s = DEL_IDLE \<Longrightarrow> del_ok t s"
  by (simp add: del_ok_def)

lemma insert_machine_idle [simp]: "insStage s = INS_IDLE \<Longrightarrow> insert_machine a s = Some s"
  by (simp add: insert_machine_def)

lemma wait_pos: "0 < wait n c"
  by (simp add: wait_def)

lemma wait_step: "c + 1 < n \<Longrightarrow> wait n (c + 1) < wait n c"
  by (simp add: wait_def)

lemma inv_parts:
  "inv t s \<Longrightarrow> is_tree (heap s) (root s) t"
  "inv t s \<Longrightarrow> dom (heap s) = addrs t"
  "inv t s \<Longrightarrow> bst t"
  "inv t s \<Longrightarrow> excl s"
  "inv t s \<Longrightarrow> ins_ok t s"
  "inv t s \<Longrightarrow> del_ok t s"
  by (simp_all add: inv_def tree_ok_def)

lemma insert_machine_cases [consumes 1, case_names idle count index attach_fail attach fin_done fin]:
  assumes I: "inv t s"
  obtains
    (idle) "insStage s = INS_IDLE" "insert_machine a s = Some s"
  | (count) "insStage s = INS_TRAVERSING" "insFramesCounter s + 1 < 12"
      "insert_machine a s = Some (s\<lparr>insFramesCounter := insFramesCounter s + 1\<rparr>)"
  | (index) "insStage s = INS_TRAVERSING" "12 \<le> insFramesCounter s + 1"
      "insTraversalIndex s < int (length (insTraversalPath s))"
      "insert_machine a s =
         Some (s\<lparr>insFramesCounter := 0, insTraversalIndex := insTraversalIndex s + 1\<rparr>)"
  | (attach_fail) "insStage s = INS_TRAVERSING" "12 \<le> insFramesCounter s + 1"
      "\<not> insTraversalIndex s < int (length (insTraversalPath s))"
      "a \<in> addrs t" "insert_machine a s = None"
  | (attach) h' where "insStage s = INS_TRAVERSING" "12 \<le> insFramesCounter s + 1"
      "\<not> insTraversalIndex s < int (length (insTraversalPath s))"
      "a \<notin> addrs t"
      "insert_machine a s =
         Some (s\<lparr>insFramesCounter := 0, insStage := INS_FINALIZE, heap := h',
                 root := root_addr (a_insert a (insValuePending s) t),
                 insNewNode := Some a, insFinalizeTimer := 120,
                 statusMessage := Inserted (insValuePending s), statusTimer := 120\<rparr>)"
      "is_tree h' (root_addr (a_insert a (insValuePending s) t))
         (a_insert a (insValuePending s) t)"
      "dom h' = insert a (addrs t)"
  | (fin_done) "insStage s = INS_FINALIZE" "insFinalizeTimer s = 1"
      "insert_machine a s =
         Some (s\<lparr>insFinalizeTimer := 0, insNewNode := None, insStage := INS_IDLE\<rparr>)"
  | (fin) "insStage s = INS_FINALIZE" "1 < insFinalizeTimer s"
      "insert_machine a s = Some (s\<lparr>insFinalizeTimer := insFinalizeTimer s - 1\<rparr>)"
proof -
  note T = inv_parts(1)[OF I] and D = inv_parts(2)[OF I] and IO = inv_parts(5)[OF I]
  show thesis
  proof (cases "insStage s")
    case INS_IDLE
    then show ?thesis using idle by simp
  next
    case INS_ATTACHING
    with IO show ?thesis by (simp add: ins_ok_def)
  next
    case INS_TRAVERSING
    show ?thesis
    proof (cases "12 \<le> insFramesCounter s + 1")
      case False
      with INS_TRAVERSING show ?thesis
        by (intro count) (simp_all add: insert_machine_def INS_STEP_FRAMES_def Let_def)
    next
      case True
      show ?thesis
      proof (cases "insTraversalIndex s < int (length (insTraversalPath s))")
        case lt: True
        with INS_TRAVERSING True show ?thesis
          by (intro index) (simp_all add: insert_machine_def INS_STEP_FRAMES_def Let_def)
      next
        case ge: False
        show ?thesis
        proof (cases "a \<in> addrs t")
          case f: True
          then have "heap s a \<noteq> None" using D by auto
          then have "insert_machine a s = None"
            using INS_TRAVERSING True ge
            by (simp add: insert_machine_def INS_STEP_FRAMES_def Let_def
                AttachNewNodeFromPending_def new_Node_def)
          with INS_TRAVERSING True ge f show ?thesis by (intro attach_fail)
        next
          case F: False
          let ?s0 = "s\<lparr>insFramesCounter := 0, insStage := INS_ATTACHING\<rparr>"
          have P: "(insParent ?s0, insNewIsLeft ?s0) =
              ins_slot (insValuePending ?s0) t (None, False)"
            using IO INS_TRAVERSING by (simp add: ins_ok_def)
          have T0: "is_tree (heap ?s0) (root ?s0) t" and D0: "dom (heap ?s0) = addrs t"
            using T D by simp_all
          from AttachNewNodeFromPending_tree[OF T0 D0 P F]
          obtain h' where h': "AttachNewNodeFromPending a ?s0 =
               Some (?s0\<lparr>heap := h', root := root_addr (a_insert a (insValuePending ?s0) t),
                       insNewNode := Some a, insFinalizeTimer := 120,
                       statusMessage := Inserted (insValuePending ?s0), statusTimer := 120\<rparr>)"
             "is_tree h' (root_addr (a_insert a (insValuePending ?s0) t))
               (a_insert a (insValuePending ?s0) t)"
             "dom h' = insert a (addrs t)"
            by blast
          have r: "insert_machine a s =
             Some (s\<lparr>insFramesCounter := 0, insStage := INS_FINALIZE, heap := h',
                 root := root_addr (a_insert a (insValuePending s) t),
                 insNewNode := Some a, insFinalizeTimer := 120,
                 statusMessage := Inserted (insValuePending s), statusTimer := 120\<rparr>)"
            using INS_TRAVERSING True ge h'(1)
            by (simp add: insert_machine_def INS_STEP_FRAMES_def Let_def)
          from h'(2,3) have "is_tree h' (root_addr (a_insert a (insValuePending s) t))
             (a_insert a (insValuePending s) t)" "dom h' = insert a (addrs t)" by simp_all
          with INS_TRAVERSING True ge F r show ?thesis by (intro attach)
        qed
      qed
    qed
  next
    case INS_FINALIZE
    with IO have pos: "0 < insFinalizeTimer s" by (simp add: ins_ok_def)
    show ?thesis
    proof (cases "insFinalizeTimer s = 1")
      case True
      with INS_FINALIZE show ?thesis
        by (intro fin_done) (simp_all add: insert_machine_def Let_def)
    next
      case False
      with INS_FINALIZE pos show ?thesis
        by (intro fin) (simp_all add: insert_machine_def Let_def)
    qed
  qed
qed

section \<open>The delete machine on a tree\<close>


lemma target_facts:
  assumes I: "inv t s" and A: "delStage s \<noteq> DEL_IDLE" "delStage s \<noteq> DEL_FINALIZE"
    and X: "delTargetNode s = Some x"
  obtains l r xn where "x \<in> addrs t" "delTargetParent s = a_parent x t"
    "subtree x t = Nd l x (delValuePending s) r" "heap s x = Some xn"
    "left xn = root_addr l" "right xn = root_addr r"
    "is_tree (heap s) (Some x) (Nd l x (delValuePending s) r)"
    "target_sub t s = Nd l x (delValuePending s) r"
proof -
  note T = inv_parts(1)[OF I] and DL = inv_parts(6)[OF I]
  from DL A have F: "found_ok t s" by (simp add: del_ok_def)
  with X have fn: "find_node (delValuePending s) t = Some x"
    and fp: "delTargetParent s = find_parent (delValuePending s) t"
    by (simp_all add: found_ok_def)
  note loc = find_node_located[OF is_tree_distinct[OF T] fn]
  from loc(3) obtain l r where S: "subtree x t = Nd l x (delValuePending s) r" by blast
  from subtree_is_tree[OF T loc(1)] S
  have st: "is_tree (heap s) (Some x) (Nd l x (delValuePending s) r)" by simp
  then obtain xn where xn: "heap s x = Some xn" "is_tree (heap s) (left xn) l"
    "is_tree (heap s) (right xn) r" by auto
  have "left xn = root_addr l" "right xn = root_addr r"
    using is_tree_root_addr[OF xn(2)] is_tree_root_addr[OF xn(3)] by simp_all
  moreover have "target_sub t s = Nd l x (delValuePending s) r" using X S
    by (simp add: target_sub_def)
  ultimately show thesis using that loc(1) loc(2) fp S xn(1) st by simp
qed

lemma root_addr_None [simp]: "root_addr t = None \<longleftrightarrow> t = Tip"
  by (cases t) auto

lemma delete_machine_traversing:
  assumes "delStage s = DEL_TRAVERSING"
  obtains
    (count) "delFramesCounter s + 1 < 12"
      "delete_machine s = Some (s\<lparr>delFramesCounter := delFramesCounter s + 1\<rparr>)"
  | (index) "12 \<le> delFramesCounter s + 1"
      "delTraversalIndex s < int (length (delTraversalPath s))"
      "delete_machine s =
         Some (s\<lparr>delFramesCounter := 0, delTraversalIndex := delTraversalIndex s + 1\<rparr>)"
  | (notfound) "12 \<le> delFramesCounter s + 1"
      "\<not> delTraversalIndex s < int (length (delTraversalPath s))"
      "delTargetNode s = None"
      "delete_machine s =
         Some (s\<lparr>delFramesCounter := 0,
                 statusMessage := DeleteNotFound (delValuePending s), statusTimer := 120,
                 delStage := DEL_IDLE, delTraversalPath := [], delTraversalIndex := 0\<rparr>)"
  | (found) "12 \<le> delFramesCounter s + 1"
      "\<not> delTraversalIndex s < int (length (delTraversalPath s))"
      "delTargetNode s \<noteq> None"
      "delete_machine s =
         Some (s\<lparr>delFramesCounter := 0, delStage := DEL_HIGHLIGHT_TARGET\<rparr>)"
proof (cases "12 \<le> delFramesCounter s + 1")
  case False
  with assms show ?thesis
    by (intro count) (simp_all add: delete_machine_def del_traversing_def DEL_STEP_FRAMES_def Let_def)
next
  case True
  show ?thesis
  proof (cases "delTraversalIndex s < int (length (delTraversalPath s))")
    case lt: True
    with assms True show ?thesis
      by (intro index)
        (simp_all add: delete_machine_def del_traversing_def DEL_STEP_FRAMES_def Let_def)
  next
    case ge: False
    show ?thesis
    proof (cases "delTargetNode s = None")
      case n: True
      with assms True ge show ?thesis
        by (intro notfound)
          (simp_all add: delete_machine_def del_traversing_def DEL_STEP_FRAMES_def Let_def)
    next
      case f: False
      then obtain x where "delTargetNode s = Some x" by auto
      with assms True ge show ?thesis
        by (intro found)
          (simp_all add: delete_machine_def del_traversing_def DEL_STEP_FRAMES_def Let_def)
    qed
  qed
qed

lemma delete_machine_highlight_target:
  assumes I: "inv t s" and St: "delStage s = DEL_HIGHLIGHT_TARGET"
  obtains
    (count) "delFramesCounter s + 1 < 30"
      "delete_machine s = Some (s\<lparr>delFramesCounter := delFramesCounter s + 1\<rparr>)"
  | (leaf) x where "30 \<le> delFramesCounter s + 1" "delTargetNode s = Some x"
      "kids (target_sub t s) = 0"
      "delete_machine s =
         Some (s\<lparr>delFramesCounter := delFramesCounter s + 1, delStage := DEL_SHRINK_REMOVE,
                 animNode := Some x, animProgress := 0\<rparr>)"
  | (two) x sp sn where "30 \<le> delFramesCounter s + 1" "delTargetNode s = Some x"
      "kids (target_sub t s) = 2" "successor_of (target_sub t s) = (Some sp, Some sn)"
      "delete_machine s =
         Some (s\<lparr>delFramesCounter := 0, successorParent := Some sp, successorNode := Some sn,
                 delStage := DEL_HIGHLIGHT_SUCCESSOR\<rparr>)"
  | (one) x where "30 \<le> delFramesCounter s + 1" "delTargetNode s = Some x"
      "kids (target_sub t s) = 1"
      "delete_machine s =
         Some (s\<lparr>delFramesCounter := delFramesCounter s + 1, delStage := DEL_MOVE_CHILD_UP,
                 animNode := root_addr (only_child (target_sub t s)), animProgress := 0\<rparr>)"
proof (cases "30 \<le> delFramesCounter s + 1")
  case False
  with St show ?thesis
    by (intro count) (simp_all add: delete_machine_def del_highlight_target_def Let_def)
next
  case True
  from inv_parts(6)[OF I] St obtain x where X: "delTargetNode s = Some x"
    by (auto simp: del_ok_def)
  from St have A: "delStage s \<noteq> DEL_IDLE" "delStage s \<noteq> DEL_FINALIZE" by simp_all
  obtain l r xn where tf: "x \<in> addrs t" "subtree x t = Nd l x (delValuePending s) r"
    "heap s x = Some xn" "left xn = root_addr l" "right xn = root_addr r"
    "is_tree (heap s) (Some x) (Nd l x (delValuePending s) r)"
    "target_sub t s = Nd l x (delValuePending s) r"
    by (rule target_facts[OF I A X]) blast
  consider (L) "l = Tip" "r = Tip" | (T) "l \<noteq> Tip" "r \<noteq> Tip"
    | (O) "l = Tip \<or> r = Tip" "\<not> (l = Tip \<and> r = Tip)"
    by blast
  then show ?thesis
  proof cases
    case L
    have "delete_machine s =
         Some (s\<lparr>delFramesCounter := delFramesCounter s + 1, delStage := DEL_SHRINK_REMOVE,
                 animNode := Some x, animProgress := 0\<rparr>)"
      using St True X tf(3,4,5) L
      by (simp add: delete_machine_def del_highlight_target_def Let_def deref_def)
    moreover have "kids (target_sub t s) = 0" using tf(7) L by simp
    ultimately show ?thesis using True X by (intro leaf)
  next
    case T
    then obtain sp sn m where lm: "a_leftmost x r = Some (sp, sn, m)"
      using a_leftmost_Some[of r x] by blast
    have f: "FindInorderSuccessor (heap s) (Some x) = Some (Some sp, Some sn)"
      using FindInorderSuccessor_tree[OF tf(6) T(2)] lm by simp
    have "delete_machine s =
         Some (s\<lparr>delFramesCounter := 0, successorParent := Some sp, successorNode := Some sn,
                 delStage := DEL_HIGHLIGHT_SUCCESSOR\<rparr>)"
      using St True X tf(3,4,5) T f
      by (simp add: delete_machine_def del_highlight_target_def Let_def deref_def)
    moreover have "kids (target_sub t s) = 2" "successor_of (target_sub t s) = (Some sp, Some sn)"
      using tf(7) T lm by simp_all
    ultimately show ?thesis using True X by (intro two)
  next
    case O
    let ?c = "if l \<noteq> Tip then l else r"
    from tf(6) obtain "is_tree (heap s) (left xn) l" "is_tree (heap s) (right xn) r"
      using tf(3) by auto
    then have ct: "is_tree (heap s) (root_addr ?c) ?c" using tf(4,5) by auto
    from O obtain c where c: "root_addr ?c = Some c" by (cases ?c) auto
    with ct have "c \<in> addrs ?c" by (cases ?c) auto
    from is_tree_live[OF ct this] have live: "heap s c \<noteq> None" .
    have oc: "only_child (target_sub t s) = ?c" using tf(7) by simp
    have "delete_machine s =
         Some (s\<lparr>delFramesCounter := delFramesCounter s + 1, delStage := DEL_MOVE_CHILD_UP,
                 animNode := root_addr (only_child (target_sub t s)), animProgress := 0\<rparr>)"
      unfolding oc using St True X tf(3,4,5) O c live
      by (auto simp: delete_machine_def del_highlight_target_def Let_def deref_def)
    moreover have "kids (target_sub t s) = 1" using tf(7) O by auto
    ultimately show ?thesis using True X by (intro one)
  qed
qed


lemma delete_machine_idle [simp]: "delStage s = DEL_IDLE \<Longrightarrow> delete_machine s = Some s"
  by (simp add: delete_machine_def)

lemma delete_machine_finalize:
  assumes "delStage s = DEL_FINALIZE"
  obtains
    (count) "delFramesCounter s + 1 \<le> 20"
      "delete_machine s = Some (s\<lparr>delFramesCounter := delFramesCounter s + 1\<rparr>)"
  | (finished) "20 < delFramesCounter s + 1"
      "delete_machine s =
         Some (s\<lparr>delFramesCounter := 0, delStage := DEL_IDLE, delTraversalPath := [],
                 delTraversalIndex := 0\<rparr>)"
proof (cases "20 < delFramesCounter s + 1")
  case True
  with assms show ?thesis
    by (intro finished) (simp_all add: delete_machine_def del_finalize_def Let_def)
next
  case False
  with assms show ?thesis
    by (intro count) (simp_all add: delete_machine_def del_finalize_def Let_def)
qed

lemma delete_machine_highlight_successor:
  assumes I: "inv t s" and St: "delStage s = DEL_HIGHLIGHT_SUCCESSOR"
  obtains
    (count) "delFramesCounter s + 1 < 30"
      "delete_machine s = Some (s\<lparr>delFramesCounter := delFramesCounter s + 1\<rparr>)"
  | (go) "30 \<le> delFramesCounter s + 1"
      "delete_machine s =
         Some (s\<lparr>delFramesCounter := delFramesCounter s + 1, delStage := DEL_MOVE_SUCCESSOR,
                 animNode := successorNode s, animReplaceNode := delTargetNode s,
                 animProgress := 0\<rparr>)"
proof (cases "30 \<le> delFramesCounter s + 1")
  case False
  with St show ?thesis
    by (intro count) (simp_all add: delete_machine_def del_highlight_successor_def Let_def)
next
  case True
  from inv_parts(6)[OF I] St obtain x where X: "delTargetNode s = Some x"
    by (auto simp: del_ok_def)
  from St have A: "delStage s \<noteq> DEL_IDLE" "delStage s \<noteq> DEL_FINALIZE" by simp_all
  obtain l r xn where tf: "x \<in> addrs t" "delTargetParent s = a_parent x t"
    "subtree x t = Nd l x (delValuePending s) r"
    "heap s x = Some xn" "left xn = root_addr l" "right xn = root_addr r"
    "is_tree (heap s) (Some x) (Nd l x (delValuePending s) r)"
    "target_sub t s = Nd l x (delValuePending s) r"
    by (rule target_facts[OF I A X]) blast
  from inv_parts(6)[OF I] St have k: "kids (target_sub t s) = 2"
    "(successorParent s, successorNode s) = successor_of (target_sub t s)"
    by (simp_all add: del_ok_def)
  from k(1) tf(8) have two: "l \<noteq> Tip" "r \<noteq> Tip" by (auto split: if_splits)
  then obtain sp sn m where lm: "a_leftmost x r = Some (sp, sn, m)"
    using a_leftmost_Some[of r x] by blast
  with k(2) tf(8) have sc: "successorNode s = Some sn" by simp
  from tf(7) obtain "is_tree (heap s) (right xn) r" using tf(4) by auto
  from is_tree_live[OF this a_leftmost_in[OF lm]] have "heap s sn \<noteq> None" .
  with St True X tf(4) sc show ?thesis
    by (intro go) (auto simp: delete_machine_def del_highlight_successor_def Let_def deref_def)
qed

lemma delete_machine_move_successor:
  assumes I: "inv t s" and St: "delStage s = DEL_MOVE_SUCCESSOR"
  obtains
    (move) "animProgress s + 1 / 24 < 1"
      "delete_machine s = Some (s\<lparr>animProgress := animProgress s + 1 / 24\<rparr>)"
  | (commit) x h' where "1 \<le> animProgress s + 1 / 24" "delTargetNode s = Some x"
      "x \<in> addrs t"
      "delete_machine s =
         Some (s\<lparr>animProgress := 1, heap := h', successorNode := None,
                 successorParent := None, animNode := None, animReplaceNode := None,
                 delStage := DEL_FINALIZE, delFramesCounter := 0,
                 statusMessage := Deleted (delValuePending s), statusTimer := 120\<rparr>)"
      "is_tree h' (root s) (a_remove x t)" "dom h' = addrs (a_remove x t)"
proof -
  note T = inv_parts(1)[OF I] and D = inv_parts(2)[OF I]
  from inv_parts(6)[OF I] St obtain x where X: "delTargetNode s = Some x"
    by (auto simp: del_ok_def)
  from St have A: "delStage s \<noteq> DEL_IDLE" "delStage s \<noteq> DEL_FINALIZE" by simp_all
  obtain l r xn where tf: "x \<in> addrs t" "delTargetParent s = a_parent x t"
    "subtree x t = Nd l x (delValuePending s) r"
    "heap s x = Some xn" "left xn = root_addr l" "right xn = root_addr r"
    "is_tree (heap s) (Some x) (Nd l x (delValuePending s) r)"
    "target_sub t s = Nd l x (delValuePending s) r"
    by (rule target_facts[OF I A X]) blast
  from inv_parts(6)[OF I] St have k: "kids (target_sub t s) = 2"
    "(successorParent s, successorNode s) = successor_of (target_sub t s)"
    "animNode s = successorNode s"
    by (simp_all add: del_ok_def)
  from k(1) tf(8) have two: "l \<noteq> Tip" "r \<noteq> Tip" by (auto split: if_splits)
  then obtain sp sn m where lm: "a_leftmost x r = Some (sp, sn, m)"
    using a_leftmost_Some[of r x] by blast
  with k(2) tf(8) have sc: "successorNode s = Some sn" "successorParent s = Some sp" by simp_all
  from tf(7) obtain "is_tree (heap s) (right xn) r" using tf(4) by auto
  from is_tree_live[OF this a_leftmost_in[OF lm]] obtain snn where live: "heap s sn = Some snn"
    by auto
  show thesis
  proof (cases "1 \<le> animProgress s + 1 / 24")
    case False
    with St k(3) sc live show ?thesis
      by (intro move)
        (simp_all add: delete_machine_def del_move_successor_def Let_def deref_def
          animDuration_def)
  next
    case True
    from commit_move_successor_tree[OF T tf(1) tf(3) two lm] obtain h' where
      h': "commit_move_successor (heap s) (Some x) (Some sp) (Some sn) = Some h'"
        "is_tree h' (root s) (a_remove x t)" "dom h' = dom (heap s) - {sn}"
      by blast
    have "addrs (a_remove x t) = addrs t - {sn}"
      by (rule addrs_a_remove_two[OF is_tree_distinct[OF T] tf(1) tf(3) two lm])
    with h'(3) D have d: "dom h' = addrs (a_remove x t)" by simp
    have "delete_machine s =
         Some (s\<lparr>animProgress := 1, heap := h', successorNode := None,
                 successorParent := None, animNode := None, animReplaceNode := None,
                 delStage := DEL_FINALIZE, delFramesCounter := 0,
                 statusMessage := Deleted (delValuePending s), statusTimer := 120\<rparr>)"
      using St True k(3) sc live X h'(1)
      by (cases "1 < animProgress s + 1 / 24")
        (simp_all add: delete_machine_def del_move_successor_def Let_def deref_def
          animDuration_def)
    with True X tf(1) h'(2) d show ?thesis by (intro commit)
  qed
qed

lemma delete_machine_move_child_up:
  assumes I: "inv t s" and St: "delStage s = DEL_MOVE_CHILD_UP"
  obtains
    (move) "animProgress s + 1 / 24 < 1"
      "delete_machine s = Some (s\<lparr>animProgress := animProgress s + 1 / 24\<rparr>)"
  | (commit) x h' where "1 \<le> animProgress s + 1 / 24" "delTargetNode s = Some x"
      "x \<in> addrs t"
      "delete_machine s =
         Some (s\<lparr>animProgress := 1, heap := h', root := root_addr (a_remove x t),
                 delTargetNode := None, animNode := None, delStage := DEL_FINALIZE,
                 statusMessage := Deleted (delValuePending s), statusTimer := 120\<rparr>)"
      "is_tree h' (root_addr (a_remove x t)) (a_remove x t)" "dom h' = addrs (a_remove x t)"
proof -
  note T = inv_parts(1)[OF I] and D = inv_parts(2)[OF I]
  from inv_parts(6)[OF I] St obtain x where X: "delTargetNode s = Some x"
    by (auto simp: del_ok_def)
  from St have A: "delStage s \<noteq> DEL_IDLE" "delStage s \<noteq> DEL_FINALIZE" by simp_all
  obtain l r xn where tf: "x \<in> addrs t" "delTargetParent s = a_parent x t"
    "subtree x t = Nd l x (delValuePending s) r"
    "heap s x = Some xn" "left xn = root_addr l" "right xn = root_addr r"
    "is_tree (heap s) (Some x) (Nd l x (delValuePending s) r)"
    "target_sub t s = Nd l x (delValuePending s) r"
    by (rule target_facts[OF I A X]) blast
  from inv_parts(6)[OF I] St have k: "kids (target_sub t s) = 1"
    "animNode s = root_addr (only_child (target_sub t s))"
    by (simp_all add: del_ok_def)
  from k(1) tf(8) have one: "l = Tip \<or> r = Tip" "\<not> (l = Tip \<and> r = Tip)"
    by (auto split: if_splits)
  let ?c = "if l \<noteq> Tip then l else r"
  from tf(7) obtain "is_tree (heap s) (left xn) l" "is_tree (heap s) (right xn) r"
    using tf(4) by auto
  then have ct: "is_tree (heap s) (root_addr ?c) ?c" using tf(5,6) by auto
  from one obtain c where c: "root_addr ?c = Some c" by (cases ?c) auto
  with ct have "c \<in> addrs ?c" by (cases ?c) auto
  from is_tree_live[OF ct this] obtain cn where live: "heap s c = Some cn" by auto
  have an: "animNode s = Some c" using k(2) tf(8) c by simp
  show thesis
  proof (cases "1 \<le> animProgress s + 1 / 24")
    case False
    with St an live show ?thesis
      by (intro move)
        (simp_all add: delete_machine_def del_move_child_up_def Let_def deref_def
          animDuration_def)
  next
    case True
    from commit_move_child_up_tree[OF T tf(1) tf(3) one(1)] obtain h' where
      h': "commit_move_child_up (heap s) (root s) (a_parent x t) (Some x) =
             Some (h', root_addr (a_remove x t))"
        "is_tree h' (root_addr (a_remove x t)) (a_remove x t)" "dom h' = dom (heap s) - {x}"
      by blast
    have "addrs (a_remove x t) = addrs t - {x}"
      by (rule addrs_a_remove_leaf_one[OF is_tree_distinct[OF T] tf(1) tf(3) one(1)])
    with h'(3) D have d: "dom h' = addrs (a_remove x t)" by simp
    have "delete_machine s =
         Some (s\<lparr>animProgress := 1, heap := h', root := root_addr (a_remove x t),
                 delTargetNode := None, animNode := None, delStage := DEL_FINALIZE,
                 statusMessage := Deleted (delValuePending s), statusTimer := 120\<rparr>)"
      using St True an live X h'(1) tf(2)
      by (cases "1 < animProgress s + 1 / 24")
        (simp_all add: delete_machine_def del_move_child_up_def Let_def deref_def
          animDuration_def)
    with True X tf(1) h'(2) d show ?thesis by (intro commit)
  qed
qed

lemma delete_machine_shrink_remove:
  assumes I: "inv t s" and St: "delStage s = DEL_SHRINK_REMOVE"
  obtains
    (move) "animProgress s + 1 / 16 < 1"
      "delete_machine s = Some (s\<lparr>animProgress := animProgress s + 1 / 16\<rparr>)"
  | (commit) x h' where "1 \<le> animProgress s + 1 / 16" "delTargetNode s = Some x"
      "x \<in> addrs t"
      "delete_machine s =
         Some (s\<lparr>animProgress := animProgress s + 1 / 16, heap := h',
                 root := root_addr (a_remove x t),
                 animNode := None, delTargetNode := None, delStage := DEL_FINALIZE,
                 statusMessage := Deleted (delValuePending s), statusTimer := 120\<rparr>)"
      "is_tree h' (root_addr (a_remove x t)) (a_remove x t)" "dom h' = addrs (a_remove x t)"
proof -
  note T = inv_parts(1)[OF I] and D = inv_parts(2)[OF I]
  from inv_parts(6)[OF I] St obtain x where X: "delTargetNode s = Some x"
    by (auto simp: del_ok_def)
  from St have A: "delStage s \<noteq> DEL_IDLE" "delStage s \<noteq> DEL_FINALIZE" by simp_all
  obtain l r xn where tf: "x \<in> addrs t" "delTargetParent s = a_parent x t"
    "subtree x t = Nd l x (delValuePending s) r"
    "heap s x = Some xn" "left xn = root_addr l" "right xn = root_addr r"
    "is_tree (heap s) (Some x) (Nd l x (delValuePending s) r)"
    "target_sub t s = Nd l x (delValuePending s) r"
    by (rule target_facts[OF I A X]) blast
  from inv_parts(6)[OF I] St have k: "kids (target_sub t s) = 0"
    "animNode s = delTargetNode s"
    by (simp_all add: del_ok_def)
  from k(1) tf(8) have leaf: "l = Tip" "r = Tip" by (auto split: if_splits)
  have an: "animNode s = Some x" using k(2) X by simp
  show thesis
  proof (cases "1 \<le> animProgress s + 1 / 16")
    case False
    with St an tf(4) show ?thesis
      by (intro move)
        (simp_all add: delete_machine_def del_shrink_remove_def Let_def deref_def
          animDuration_def)
  next
    case True
    from tf(3) leaf have S: "subtree x t = Nd Tip x (delValuePending s) Tip" by simp
    from commit_shrink_remove_tree[OF T tf(1) S] obtain h' where
      h': "commit_shrink_remove (heap s) (root s) (a_parent x t) (Some x) =
             Some (h', root_addr (a_remove x t))"
        "is_tree h' (root_addr (a_remove x t)) (a_remove x t)" "dom h' = dom (heap s) - {x}"
      by blast
    have "addrs (a_remove x t) = addrs t - {x}"
      by (rule addrs_a_remove_leaf_one[OF is_tree_distinct[OF T] tf(1) S]) simp
    with h'(3) D have d: "dom h' = addrs (a_remove x t)" by simp
    have "delete_machine s =
         Some (s\<lparr>animProgress := animProgress s + 1 / 16, heap := h',
                 root := root_addr (a_remove x t),
                 animNode := None, delTargetNode := None, delStage := DEL_FINALIZE,
                 statusMessage := Deleted (delValuePending s), statusTimer := 120\<rparr>)"
      using St True an tf(4) X h'(1) tf(2)
      by (simp add: delete_machine_def del_shrink_remove_def Let_def deref_def
          animDuration_def)
    with True X tf(1) h'(2) d show ?thesis by (intro commit)
  qed
qed

section \<open>A frame of the delete machine\<close>


lemma pticks_step: "0 < d \<Longrightarrow> p + 1 / d < 1 \<Longrightarrow> pticks d (p + 1 / d) < pticks d p"
proof -
  assume d: "0 < d" and lt: "p + 1 / d < 1"
  have e: "(1 - (p + 1 / d)) * d = (1 - p) * d - 1" using d by (simp add: field_simps)
  have "0 < (1 - (p + 1 / d)) * d" using d lt by simp
  then have "0 < \<lceil>(1 - (p + 1 / d)) * d\<rceil>" by simp
  moreover have "\<lceil>(1 - (p + 1 / d)) * d\<rceil> = \<lceil>(1 - p) * d\<rceil> - 1" unfolding e by simp
  ultimately show ?thesis by (simp add: pticks_def)
qed

lemma pticks_0 [simp]: "pticks 24 0 = 24" "pticks 16 0 = 16"
  by (simp_all add: pticks_def)

lemma inv_del_active:
  assumes "inv t s" "delStage s \<noteq> DEL_IDLE"
  shows "insStage s = INS_IDLE" "searchStage s = S_IDLE" "insFinalizeTimer s = 0"
proof -
  from inv_parts(4)[OF assms(1)] assms(2) show i: "insStage s = INS_IDLE"
    and "searchStage s = S_IDLE" by (auto simp: excl_def)
  from inv_parts(5)[OF assms(1)] i show "insFinalizeTimer s = 0" by (simp add: ins_ok_def)
qed

lemma inv_del_intro:
  assumes "insStage s' = INS_IDLE" "searchStage s' = S_IDLE" "insFinalizeTimer s' = 0"
    "is_tree (heap s') (root s') t'" "dom (heap s') = addrs t'" "bst t'" "del_ok t' s'"
  shows "inv t' s'"
  using assms by (simp add: inv_def tree_ok_def excl_def ins_ok_def)

lemma delete_machine_step:
  assumes I: "inv t s" and A: "delStage s \<noteq> DEL_IDLE"
  obtains t' s' where "delete_machine s = Some s'" "inv t' s'" "goal a t' s' = goal a t s"
    "del_measure s' < del_measure s" "ins_measure s' = ins_measure s"
    "search_measure s' = search_measure s"
    "insStage s' = INS_IDLE" "searchStage s' = S_IDLE" "insFinalizeTimer s' = 0"
    "t' = t \<and> heap s' = heap s \<and> root s' = root s \<or> del_commit t s t' s'"
proof -
  note T = inv_parts(1)[OF I] and D = inv_parts(2)[OF I] and B = inv_parts(3)[OF I]
    and DL = inv_parts(6)[OF I]
  note act = inv_del_active[OF I A]
  note outer = that
  have im: "ins_measure s = 0" using act by (simp add: ins_measure_def)
  have sm: "search_measure s = 0" using act by (simp add: search_measure_def)
  have gl: "goal a t s = (if delStage s \<noteq> DEL_FINALIZE
      then (case delTargetNode s of None \<Rightarrow> t | Some x \<Rightarrow> a_remove x t) else t)"
    using act A by (simp add: goal_def)
  \<comment> \<open>a frame that leaves the tree alone\<close>
  have stay: thesis
    if r: "delete_machine s = Some s'" and h: "heap s' = heap s" "root s' = root s"
      and i: "insStage s' = INS_IDLE" "searchStage s' = S_IDLE" "insFinalizeTimer s' = 0"
      and d: "del_ok t s'" and g: "goal a t s' = goal a t s"
      and m: "del_measure s' < del_measure s" for s'
  proof -
    have iv: "inv t s'" using i h T D B d by (intro inv_del_intro) simp_all
    have "ins_measure s' = ins_measure s" using i im by (simp add: ins_measure_def)
    moreover have "search_measure s' = search_measure s"
      using i sm by (simp add: search_measure_def)
    ultimately show thesis using g m i h by (intro outer[OF r iv]) simp_all
  qed
  \<comment> \<open>a frame that commits\<close>
  have commit_rule: thesis
    if r: "delete_machine s = Some s'" and x: "delTargetNode s = Some x" "x \<in> addrs t"
      and h: "is_tree (heap s') (root s') (a_remove x t)" "dom (heap s') = addrs (a_remove x t)"
      and i: "insStage s' = INS_IDLE" "searchStage s' = S_IDLE" "insFinalizeTimer s' = 0"
      and st: "delStage s = DEL_MOVE_SUCCESSOR \<or> delStage s = DEL_MOVE_CHILD_UP \<or>
        delStage s = DEL_SHRINK_REMOVE" "delStage s' = DEL_FINALIZE" "1 \<le> animProgress s'"
      and m: "del_measure s' < del_measure s" for s' x
  proof -
    have iv: "inv (a_remove x t) s'" using i h bst_a_remove[OF B] st(2)
      by (intro inv_del_intro) simp_all
    have "ins_measure s' = ins_measure s" using i im by (simp add: ins_measure_def)
    moreover have "search_measure s' = search_measure s"
      using i sm by (simp add: search_measure_def)
    moreover have "goal a (a_remove x t) s' = goal a t s"
      using gl st x i by (auto simp: goal_def)
    moreover have "del_commit t s (a_remove x t) s'" using st x by (simp add: del_commit_def)
    ultimately show thesis using m i by (intro outer[OF r iv]) simp_all
  qed
  show thesis
  proof (cases "delStage s")
    case DEL_IDLE
    with A show ?thesis by simp
  next
    case DEL_TRAVERSING
    from DL DEL_TRAVERSING have F: "found_ok t s"
      "delTraversalPath s = del_path (delValuePending s) t" by (simp_all add: del_ok_def)
    from DEL_TRAVERSING show ?thesis
    proof (cases rule: delete_machine_traversing)
      case count
      show ?thesis
        using count(2) act DEL_TRAVERSING F wait_step[of "delFramesCounter s" 12] count(1)
        by (intro stay[OF count(2)])
          (simp_all add: del_ok_def found_ok_def goal_def del_measure_def)
    next
      case index
      show ?thesis
        using act DEL_TRAVERSING F wait_pos[of 12 "delFramesCounter s"] index(1,2)
        by (intro stay[OF index(3)])
          (simp_all add: del_ok_def found_ok_def goal_def del_measure_def wait_def
            nat_diff_distrib)
    next
      case notfound
      show ?thesis
        using act DEL_TRAVERSING F notfound(1,2,3)
        by (intro stay[OF notfound(4)])
          (simp_all add: del_ok_def found_ok_def goal_def del_measure_def)
    next
      case found
      show ?thesis
        using act DEL_TRAVERSING F found(1,2,3) wait_pos[of 12 "delFramesCounter s"]
        by (intro stay[OF found(4)])
          (simp_all add: del_ok_def found_ok_def goal_def del_measure_def wait_def)
    qed
  next
    case DEL_HIGHLIGHT_TARGET
    from DL DEL_HIGHLIGHT_TARGET have F: "found_ok t s" "delTargetNode s \<noteq> None"
      by (simp_all add: del_ok_def)
    from I DEL_HIGHLIGHT_TARGET show ?thesis
    proof (cases rule: delete_machine_highlight_target)
      case count
      show ?thesis
        using act DEL_HIGHLIGHT_TARGET F wait_step[of "delFramesCounter s" 30] count(1)
        by (intro stay[OF count(2)])
          (simp_all add: del_ok_def found_ok_def goal_def del_measure_def target_sub_def)
    next
      case (leaf x)
      show ?thesis
        using act DEL_HIGHLIGHT_TARGET F leaf(1,2,3)
        by (intro stay[OF leaf(4)])
          (simp_all add: del_ok_def found_ok_def goal_def del_measure_def target_sub_def)
    next
      case (two x sp sn)
      show ?thesis
        using act DEL_HIGHLIGHT_TARGET F two(1,2,3,4) wait_pos[of 30 "delFramesCounter s"]
        by (intro stay[OF two(5)])
          (simp_all add: del_ok_def found_ok_def goal_def del_measure_def target_sub_def
            wait_def)
    next
      case (one x)
      show ?thesis
        using act DEL_HIGHLIGHT_TARGET F one(1,2,3)
        by (intro stay[OF one(4)])
          (simp_all add: del_ok_def found_ok_def goal_def del_measure_def target_sub_def)
    qed
  next
    case DEL_HIGHLIGHT_SUCCESSOR
    from DL DEL_HIGHLIGHT_SUCCESSOR have F: "found_ok t s" "delTargetNode s \<noteq> None"
      "kids (target_sub t s) = 2"
      "(successorParent s, successorNode s) = successor_of (target_sub t s)"
      by (simp_all add: del_ok_def)
    from I DEL_HIGHLIGHT_SUCCESSOR show ?thesis
    proof (cases rule: delete_machine_highlight_successor)
      case count
      show ?thesis
        using act DEL_HIGHLIGHT_SUCCESSOR F wait_step[of "delFramesCounter s" 30] count(1)
        by (intro stay[OF count(2)])
          (simp_all add: del_ok_def found_ok_def goal_def del_measure_def target_sub_def)
    next
      case go
      show ?thesis
        using act DEL_HIGHLIGHT_SUCCESSOR F go(1)
        by (intro stay[OF go(2)])
          (simp_all add: del_ok_def found_ok_def goal_def del_measure_def target_sub_def)
    qed
  next
    case DEL_MOVE_SUCCESSOR
    from DL DEL_MOVE_SUCCESSOR have F: "found_ok t s" "delTargetNode s \<noteq> None"
      "kids (target_sub t s) = 2"
      "(successorParent s, successorNode s) = successor_of (target_sub t s)"
      "animNode s = successorNode s"
      by (simp_all add: del_ok_def)
    from I DEL_MOVE_SUCCESSOR show ?thesis
    proof (cases rule: delete_machine_move_successor)
      case move
      show ?thesis
        using act DEL_MOVE_SUCCESSOR F pticks_step[of 24 "animProgress s"] move(1)
        by (intro stay[OF move(2)])
          (simp_all add: del_ok_def found_ok_def goal_def del_measure_def target_sub_def)
    next
      case (commit x h')
      show ?thesis
        using act DEL_MOVE_SUCCESSOR commit(1,2,3,5,6)
        by (intro commit_rule[OF commit(4)]) (simp_all add: del_measure_def)
    qed
  next
    case DEL_MOVE_CHILD_UP
    from DL DEL_MOVE_CHILD_UP have F: "found_ok t s" "delTargetNode s \<noteq> None"
      "kids (target_sub t s) = 1" "animNode s = root_addr (only_child (target_sub t s))"
      by (simp_all add: del_ok_def)
    from I DEL_MOVE_CHILD_UP show ?thesis
    proof (cases rule: delete_machine_move_child_up)
      case move
      show ?thesis
        using act DEL_MOVE_CHILD_UP F pticks_step[of 24 "animProgress s"] move(1)
        by (intro stay[OF move(2)])
          (simp_all add: del_ok_def found_ok_def goal_def del_measure_def target_sub_def)
    next
      case (commit x h')
      show ?thesis
        using act DEL_MOVE_CHILD_UP commit(1,2,3,5,6)
        by (intro commit_rule[OF commit(4)]) (simp_all add: del_measure_def)
    qed
  next
    case DEL_SHRINK_REMOVE
    from DL DEL_SHRINK_REMOVE have F: "found_ok t s" "delTargetNode s \<noteq> None"
      "kids (target_sub t s) = 0" "animNode s = delTargetNode s"
      by (simp_all add: del_ok_def)
    from I DEL_SHRINK_REMOVE show ?thesis
    proof (cases rule: delete_machine_shrink_remove)
      case move
      show ?thesis
        using act DEL_SHRINK_REMOVE F pticks_step[of 16 "animProgress s"] move(1)
        by (intro stay[OF move(2)])
          (simp_all add: del_ok_def found_ok_def goal_def del_measure_def target_sub_def)
    next
      case (commit x h')
      show ?thesis
        using act DEL_SHRINK_REMOVE commit(1,2,3,5,6)
        by (intro commit_rule[OF commit(4)]) (simp_all add: del_measure_def)
    qed
  next
    case DEL_FINALIZE
    from DEL_FINALIZE show ?thesis
    proof (cases rule: delete_machine_finalize)
      case count
      show ?thesis
        using act DEL_FINALIZE count(1)
        by (intro stay[OF count(2)]) (simp_all add: goal_def del_measure_def)
    next
      case finished
      show ?thesis
        using act DEL_FINALIZE finished(1)
        by (intro stay[OF finished(2)]) (simp_all add: goal_def del_measure_def)
    qed
  qed
qed

section \<open>A frame of the insert machine, the search machine and the timers\<close>


lemma insert_machine_succeeds:
  assumes I: "inv t s" and F: "insStage s = INS_TRAVERSING \<longrightarrow> a \<notin> addrs t"
  shows "insert_machine a s \<noteq> None"
  using I
proof (cases rule: insert_machine_cases[where a = a])
  case attach_fail
  with F show ?thesis by simp
qed simp_all

lemma inv_ins_active:
  assumes "inv t s" "insStage s \<noteq> INS_IDLE"
  shows "delStage s = DEL_IDLE"
  using inv_parts(4)[OF assms(1)] assms(2) by (simp add: excl_def)

lemma insert_machine_step:
  assumes I: "inv t s" and R: "insert_machine a s = Some s'"
  obtains t' where "inv t' s'" "goal a t' s' = goal a t s"
    "ins_measure s' \<le> ins_measure s" "insStage s \<noteq> INS_IDLE \<Longrightarrow> ins_measure s' < ins_measure s"
    "del_measure s' = del_measure s" "search_measure s' = search_measure s"
    "delStage s' = delStage s" "searchStage s' = searchStage s"
    "insStage s' = INS_TRAVERSING \<Longrightarrow> insStage s = INS_TRAVERSING"
    "t' = t \<and> heap s' = heap s \<and> root s' = root s \<or>
     insStage s = INS_TRAVERSING \<and> insStage s' = INS_FINALIZE \<and>
     t' = a_insert a (insValuePending s) t"
proof -
  note T = inv_parts(1)[OF I] and D = inv_parts(2)[OF I] and B = inv_parts(3)[OF I]
    and E = inv_parts(4)[OF I] and IO = inv_parts(5)[OF I] and DL = inv_parts(6)[OF I]
  note outer = that
  have stay: thesis
    if h: "heap s' = heap s" "root s' = root s"
      and e: "delStage s' = delStage s" "searchStage s' = searchStage s"
      and d: "del_ok t s'" and io: "ins_ok t s'"
      and x: "insStage s' \<noteq> INS_IDLE \<longrightarrow> insStage s \<noteq> INS_IDLE"
        "insStage s' = INS_TRAVERSING \<longrightarrow> insStage s = INS_TRAVERSING"
      and g: "goal a t s' = goal a t s"
      and m: "ins_measure s' \<le> ins_measure s"
        "insStage s \<noteq> INS_IDLE \<longrightarrow> ins_measure s' < ins_measure s"
        "del_measure s' = del_measure s" "search_measure s' = search_measure s"
  proof -
    have "excl s'" using E e x(1) by (auto simp: excl_def)
    then have iv: "inv t s'" using h T D B d io by (simp add: inv_def tree_ok_def)
    show thesis using g m e x h by (intro outer[OF iv]) simp_all
  qed
  from I show thesis
  proof (cases rule: insert_machine_cases[where a = a])
    case idle
    with R have "s' = s" by simp
    with I idle show ?thesis by (intro outer[of t]) simp_all
  next
    case count
    with R have s': "s' = s\<lparr>insFramesCounter := insFramesCounter s + 1\<rparr>" by simp
    show ?thesis
      using count(1,2) IO DL wait_step[of "insFramesCounter s" 12]
      by (intro stay) (simp_all add: s' goal_def ins_measure_def)
  next
    case index
    with R have s': "s' = s\<lparr>insFramesCounter := 0,
      insTraversalIndex := insTraversalIndex s + 1\<rparr>" by simp
    show ?thesis
      using index(1,2,3) IO DL wait_pos[of 12 "insFramesCounter s"]
      by (intro stay) (simp_all add: s' goal_def ins_measure_def wait_def nat_diff_distrib)
  next
    case attach_fail
    with R show ?thesis by simp
  next
    case (attach h')
    let ?t = "a_insert a (insValuePending s) t"
    from attach(5) R have s': "s' = s\<lparr>insFramesCounter := 0, insStage := INS_FINALIZE,
                 heap := h', root := root_addr ?t,
                 insNewNode := Some a, insFinalizeTimer := 120,
                 statusMessage := Inserted (insValuePending s), statusTimer := 120\<rparr>"
      by simp
    have di: "delStage s = DEL_IDLE" using inv_ins_active[OF I] attach(1) by simp
    have "tree_ok ?t s'" using attach(6,7) by (simp add: s' tree_ok_def)
    moreover have "excl s'" using E di by (simp add: s' excl_def)
    moreover have "ins_ok ?t s'" by (simp add: s' ins_ok_def)
    moreover have "del_ok ?t s'" using di by (simp add: s')
    ultimately have iv: "inv ?t s'" using bst_a_insert[OF B] by (simp add: inv_def)
    show ?thesis
      using attach(1) di
      by (intro outer[OF iv]) (simp_all add: s' goal_def ins_measure_def)
  next
    case fin_done
    with R have s': "s' = s\<lparr>insFinalizeTimer := 0, insNewNode := None,
      insStage := INS_IDLE\<rparr>" by simp
    have di: "delStage s = DEL_IDLE" using inv_ins_active[OF I] fin_done(1) by simp
    show ?thesis
      using fin_done(1,2) di
      by (intro stay) (simp_all add: s' goal_def ins_measure_def ins_ok_def)
  next
    case fin
    with R have s': "s' = s\<lparr>insFinalizeTimer := insFinalizeTimer s - 1\<rparr>" by simp
    have di: "delStage s = DEL_IDLE" using inv_ins_active[OF I] fin(1) by simp
    show ?thesis
      using fin(1,2) di
      by (intro stay) (simp_all add: s' goal_def ins_measure_def ins_ok_def)
  qed
qed

subsection \<open>The rest of the frame\<close>

lemma search_machine_idle [simp]: "searchStage s = S_IDLE \<Longrightarrow> search_machine s = s"
  by (simp add: search_machine_def)

lemma search_machine_waits [simp]:
  "searchStage s = S_TRAVERSING \<Longrightarrow> delStage s \<noteq> DEL_IDLE \<or> insStage s \<noteq> INS_IDLE \<Longrightarrow>
   search_machine s = s"
  by (simp add: search_machine_def)

lemma search_machine_shape:
  "search_machine s = s\<lparr>searchStage := searchStage (search_machine s),
     searchPath := searchPath (search_machine s), searchIndex := searchIndex (search_machine s),
     searchFrames := searchFrames (search_machine s), flashCount := flashCount (search_machine s),
     searchFinalNode := searchFinalNode (search_machine s),
     statusMessage := statusMessage (search_machine s),
     statusTimer := statusTimer (search_machine s)\<rparr>"
  by (simp add: search_machine_def search_flash_def Let_def)


lemma search_machine_keeps [simp]:
  "heap (search_machine s) = heap s" "root (search_machine s) = root s"
  "insStage (search_machine s) = insStage s" "delStage (search_machine s) = delStage s"
  "insFinalizeTimer (search_machine s) = insFinalizeTimer s"
  "insTraversalPath (search_machine s) = insTraversalPath s"
  "animProgress (search_machine s) = animProgress s"
  "delTargetNode (search_machine s) = delTargetNode s"
  "tree_ok t (search_machine s) = tree_ok t s" "ins_ok t (search_machine s) = ins_ok t s"
  "del_ok t (search_machine s) = del_ok t s" "goal a t (search_machine s) = goal a t s"
  "ins_measure (search_machine s) = ins_measure s"
  "del_measure (search_machine s) = del_measure s"
  by (subst search_machine_shape, simp)+

lemma search_machine_inv: "inv t s \<Longrightarrow> inv t (search_machine s)"
proof -
  assume I: "inv t s"
  show ?thesis
  proof (cases "searchStage s = S_IDLE")
    case True
    with I show ?thesis by simp
  next
    case False
    with inv_parts(4)[OF I] have "delStage s = DEL_IDLE" by (auto simp: excl_def)
    then have "excl (search_machine s)" using inv_parts(4)[OF I] by (simp add: excl_def)
    with I show ?thesis by (simp add: inv_def)
  qed
qed

lemma search_measure_search_machine:
  "search_measure (search_machine s) \<le> search_measure s"
  "insStage s = INS_IDLE \<Longrightarrow> delStage s = DEL_IDLE \<Longrightarrow> searchStage s \<noteq> S_IDLE \<Longrightarrow>
   search_measure (search_machine s) < search_measure s"
proof -
  have w: "\<And>c. c + 1 < 12 \<Longrightarrow> wait 12 (c + 1) < wait 12 c" by (rule wait_step)
  have p: "\<And>c. 0 < wait 12 c" by (rule wait_pos)
  have k: "searchStage s \<noteq> S_IDLE \<Longrightarrow> \<not> (searchStage s = S_TRAVERSING \<and>
      (delStage s \<noteq> DEL_IDLE \<or> insStage s \<noteq> INS_IDLE)) \<Longrightarrow>
      search_measure (search_machine s) < search_measure s"
  proof (cases "searchStage s")
    case S_IDLE
    assume "searchStage s \<noteq> S_IDLE"
    with S_IDLE show ?thesis by simp
  next
    case S_TRAVERSING
    assume "\<not> (searchStage s = S_TRAVERSING \<and> (delStage s \<noteq> DEL_IDLE \<or> insStage s \<noteq> INS_IDLE))"
    with S_TRAVERSING have i: "delStage s = DEL_IDLE" "insStage s = INS_IDLE" by simp_all
    show ?thesis
      using S_TRAVERSING i w[of "searchFrames s"] p[of "searchFrames s"]
      by (auto simp: search_machine_def search_measure_def Let_def SEARCH_STEP_FRAMES_def
          wait_def nat_diff_distrib)
  next
    case S_FLASH_FOUND
    show ?thesis
      using S_FLASH_FOUND w[of "searchFrames s"] p[of "searchFrames s"]
      by (auto simp: search_machine_def search_flash_def search_measure_def Let_def
          FLASH_FRAMES_def wait_def nat_diff_distrib)
  next
    case S_FLASH_NOTFOUND
    show ?thesis
      using S_FLASH_NOTFOUND w[of "searchFrames s"] p[of "searchFrames s"]
      by (auto simp: search_machine_def search_flash_def search_measure_def Let_def
          FLASH_FRAMES_def wait_def nat_diff_distrib)
  qed
  show "insStage s = INS_IDLE \<Longrightarrow> delStage s = DEL_IDLE \<Longrightarrow> searchStage s \<noteq> S_IDLE \<Longrightarrow>
   search_measure (search_machine s) < search_measure s"
    using k by simp
  show "search_measure (search_machine s) \<le> search_measure s"
  proof (cases "searchStage s = S_IDLE \<or> (searchStage s = S_TRAVERSING \<and>
      (delStage s \<noteq> DEL_IDLE \<or> insStage s \<noteq> INS_IDLE))")
    case True
    then show ?thesis by auto
  next
    case False
    with k show ?thesis by simp
  qed
qed

lemma finalize_timer_shape:
  "finalize_timer s = s\<lparr>insFinalizeTimer := insFinalizeTimer (finalize_timer s),
     insNewNode := insNewNode (finalize_timer s), insStage := insStage (finalize_timer s)\<rparr>"
  by (simp add: finalize_timer_def Let_def)

lemma finalize_timer_keeps [simp]:
  "heap (finalize_timer s) = heap s" "root (finalize_timer s) = root s"
  "delStage (finalize_timer s) = delStage s" "searchStage (finalize_timer s) = searchStage s"
  "insTraversalPath (finalize_timer s) = insTraversalPath s"
  "animProgress (finalize_timer s) = animProgress s"
  "delTargetNode (finalize_timer s) = delTargetNode s"
  "tree_ok t (finalize_timer s) = tree_ok t s"
  "del_ok t (finalize_timer s) = del_ok t s"
  "del_measure (finalize_timer s) = del_measure s"
  "search_measure (finalize_timer s) = search_measure s"
  by (subst finalize_timer_shape, simp)+

lemma finalize_timer_zero [simp]: "insFinalizeTimer s = 0 \<Longrightarrow> finalize_timer s = s"
  by (simp add: finalize_timer_def)

lemma finalize_timer_inv:
  assumes I: "inv t s"
  shows "inv t (finalize_timer s)" "goal a t (finalize_timer s) = goal a t s"
    "ins_measure (finalize_timer s) \<le> ins_measure s"
    "insStage (finalize_timer s) = INS_TRAVERSING \<longleftrightarrow> insStage s = INS_TRAVERSING"
    "insStage s = INS_IDLE \<Longrightarrow> insStage (finalize_timer s) = INS_IDLE"
proof -
  note IO = inv_parts(5)[OF I] and E = inv_parts(4)[OF I]
  have c: "insFinalizeTimer s = 0 \<or> insStage s = INS_FINALIZE \<and> 0 < insFinalizeTimer s"
    using IO by (auto simp: ins_ok_def)
  have "ins_ok t (finalize_timer s)" using c IO
    by (auto simp: finalize_timer_def Let_def ins_ok_def)
  moreover have "excl (finalize_timer s)" using c E
    by (auto simp: finalize_timer_def Let_def excl_def)
  ultimately show "inv t (finalize_timer s)" using I by (simp add: inv_def)
  show "goal a t (finalize_timer s) = goal a t s" using c
    by (auto simp: finalize_timer_def Let_def goal_def)
  show "ins_measure (finalize_timer s) \<le> ins_measure s" using c
    by (auto simp: finalize_timer_def Let_def ins_measure_def)
  show "insStage (finalize_timer s) = INS_TRAVERSING \<longleftrightarrow> insStage s = INS_TRAVERSING" using c
    by (auto simp: finalize_timer_def Let_def)
  show "insStage s = INS_IDLE \<Longrightarrow> insStage (finalize_timer s) = INS_IDLE" using c
    by (auto simp: finalize_timer_def Let_def)
qed

lemma status_timer_shape:
  "status_timer s = s\<lparr>statusTimer := statusTimer (status_timer s),
     statusMessage := statusMessage (status_timer s)\<rparr>"
  by (simp add: status_timer_def Let_def)

lemma status_timer_keeps [simp]:
  "heap (status_timer s) = heap s" "root (status_timer s) = root s"
  "insStage (status_timer s) = insStage s"
  "delStage (status_timer s) = delStage s" "searchStage (status_timer s) = searchStage s"
  "insTraversalPath (status_timer s) = insTraversalPath s"
  "animProgress (status_timer s) = animProgress s"
  "delTargetNode (status_timer s) = delTargetNode s"
  "tree_ok t (status_timer s) = tree_ok t s" "excl (status_timer s) = excl s"
  "ins_ok t (status_timer s) = ins_ok t s"
  "del_ok t (status_timer s) = del_ok t s" "goal a t (status_timer s) = goal a t s"
  "ins_measure (status_timer s) = ins_measure s"
  "del_measure (status_timer s) = del_measure s"
  "search_measure (status_timer s) = search_measure s"
  by (subst status_timer_shape, simp)+

lemma status_timer_inv [simp]: "inv t (status_timer s) = inv t s"
  by (simp add: inv_def)

section \<open>A whole frame\<close>


lemma ins_path_Nil [simp]: "ins_path v t = [] \<longleftrightarrow> t = Tip" "[] = ins_path v t \<longleftrightarrow> t = Tip"
  by (cases t; auto)+

lemma populate_inv:
  assumes I: "inv t s"
  shows "draw_populate s = Some s"
    and "post_populate s =
      Some (if insStage s = INS_TRAVERSING \<and> insTraversalPath s = []
            then s\<lparr>insTraversalIndex := 0\<rparr> else s)"
proof -
  note T = inv_parts(1)[OF I] and IO = inv_parts(5)[OF I]
  have e: "insStage s = INS_TRAVERSING \<Longrightarrow> insTraversalPath s = [] \<Longrightarrow> root s = None"
  proof -
    assume "insStage s = INS_TRAVERSING" "insTraversalPath s = []"
    with IO have "t = Tip" by (simp add: ins_ok_def)
    with T show ?thesis by simp
  qed
  show "draw_populate s = Some s" using e by (auto simp: draw_populate_def)
  show "post_populate s =
      Some (if insStage s = INS_TRAVERSING \<and> insTraversalPath s = []
            then s\<lparr>insTraversalIndex := 0\<rparr> else s)"
    using e by (auto simp: post_populate_def)
qed

lemma frame_rest:
  assumes I: "inv t s"
  obtains s' where
    "Option.bind (draw_populate (status_timer (finalize_timer (search_machine s)))) post_populate
       = Some s'"
    "inv t s'" "goal a t s' = goal a t s"
    "ins_measure s' \<le> ins_measure s" "del_measure s' = del_measure s"
    "search_measure s' \<le> search_measure s"
    "insStage s = INS_IDLE \<Longrightarrow> delStage s = DEL_IDLE \<Longrightarrow> searchStage s \<noteq> S_IDLE \<Longrightarrow>
       search_measure s' < search_measure s"
    "heap s' = heap s" "root s' = root s" "delStage s' = delStage s"
    "animProgress s' = animProgress s" "delTargetNode s' = delTargetNode s"
    "insStage s' = INS_TRAVERSING \<longleftrightarrow> insStage s = INS_TRAVERSING"
    "insStage s = INS_IDLE \<Longrightarrow> insStage s' = INS_IDLE"
    "insStage s = INS_FINALIZE \<Longrightarrow> insStage s' \<noteq> INS_TRAVERSING"
proof -
  let ?s1 = "search_machine s"
  let ?s2 = "finalize_timer ?s1"
  let ?s3 = "status_timer ?s2"
  let ?s4 = "if insStage ?s3 = INS_TRAVERSING \<and> insTraversalPath ?s3 = []
            then ?s3\<lparr>insTraversalIndex := 0\<rparr> else ?s3"
  have I1: "inv t ?s1" by (rule search_machine_inv[OF I])
  note f = finalize_timer_inv[OF I1]
  have I3: "inv t ?s3" using f(1) by simp
  note p = populate_inv[OF I3]
  have r: "Option.bind (draw_populate ?s3) post_populate = Some ?s4"
    unfolding p(1) using p(2) by simp
  have I4: "inv t ?s4" using I3 by (simp add: inv_def)
  have g: "goal a t ?s4 = goal a t s" using f(2)[of a] by simp
  have mi: "ins_measure ?s4 \<le> ins_measure ?s3"
    by (simp add: ins_measure_def)
  have mi': "ins_measure ?s3 \<le> ins_measure s" using f(3) by simp
  show thesis
  proof (rule that[OF r I4 g])
    show "ins_measure ?s4 \<le> ins_measure s" using mi mi' by (rule order_trans)
    show "del_measure ?s4 = del_measure s" by simp
    show "search_measure ?s4 \<le> search_measure s"
      using search_measure_search_machine(1)[of s] by simp
    show "insStage s = INS_IDLE \<Longrightarrow> delStage s = DEL_IDLE \<Longrightarrow> searchStage s \<noteq> S_IDLE \<Longrightarrow>
       search_measure ?s4 < search_measure s"
      using search_measure_search_machine(2)[of s] by simp
    show "heap ?s4 = heap s" "root ?s4 = root s" "delStage ?s4 = delStage s"
      "animProgress ?s4 = animProgress s" "delTargetNode ?s4 = delTargetNode s"
      by simp_all
    show "insStage ?s4 = INS_TRAVERSING \<longleftrightarrow> insStage s = INS_TRAVERSING"
      using f(4) by simp
    show "insStage s = INS_IDLE \<Longrightarrow> insStage ?s4 = INS_IDLE" using f(5) by simp
    show "insStage s = INS_FINALIZE \<Longrightarrow> insStage ?s4 \<noteq> INS_TRAVERSING" using f(4) by simp
  qed
qed

lemma frame_machines_succeeds:
  assumes I: "inv t s" and F: "insStage s = INS_TRAVERSING \<longrightarrow> a \<notin> addrs t"
  shows "frame_machines a s \<noteq> None"
proof -
  from insert_machine_succeeds[OF I F] obtain s2 where s2: "insert_machine a s = Some s2"
    by auto
  from insert_machine_step[OF I s2] obtain t2 where I2: "inv t2 s2" by blast
  have "\<exists>t3 s3. delete_machine s2 = Some s3 \<and> inv t3 s3"
  proof (cases "delStage s2 = DEL_IDLE")
    case True
    with I2 show ?thesis by auto
  next
    case False
    from delete_machine_step[OF I2 False, where a = a] show ?thesis by metis
  qed
  then obtain t3 s3 where s3: "delete_machine s2 = Some s3" "inv t3 s3" by blast
  from frame_rest[OF s3(2), where a = a] obtain s' where
    "Option.bind (draw_populate (status_timer (finalize_timer (search_machine s3)))) post_populate
       = Some s'" by metis
  with s2 s3 show ?thesis by (simp add: frame_machines_def)
qed


lemma del_measure_idle [simp]: "delStage s = DEL_IDLE \<Longrightarrow> del_measure s = 0"
  by (simp add: del_measure_def)

lemma ins_measure_idle [simp]: "insStage s = INS_IDLE \<Longrightarrow> ins_measure s = 0"
  by (simp add: ins_measure_def)

lemma search_measure_idle [simp]: "searchStage s = S_IDLE \<Longrightarrow> search_measure s = 0"
  by (simp add: search_measure_def)

lemma delete_machine_step_at:
  assumes I: "inv t s" and A: "delStage s \<noteq> DEL_IDLE" and R: "delete_machine s = Some s'"
  obtains t' where "inv t' s'" "goal a t' s' = goal a t s"
    "del_measure s' < del_measure s" "ins_measure s' = ins_measure s"
    "search_measure s' = search_measure s"
    "insStage s' = INS_IDLE" "searchStage s' = S_IDLE" "insFinalizeTimer s' = 0"
    "t' = t \<and> heap s' = heap s \<and> root s' = root s \<or> del_commit t s t' s'"
proof (rule delete_machine_step[OF I A, where a = a])
  fix t' s''
  assume d: "delete_machine s = Some s''" and r: "inv t' s''" "goal a t' s'' = goal a t s"
    "del_measure s'' < del_measure s" "ins_measure s'' = ins_measure s"
    "search_measure s'' = search_measure s"
    "insStage s'' = INS_IDLE" "searchStage s'' = S_IDLE" "insFinalizeTimer s'' = 0"
    "t' = t \<and> heap s'' = heap s \<and> root s'' = root s \<or> del_commit t s t' s''"
  from d R have e: "s'' = s'" by simp
  show thesis using r unfolding e by (rule that)
qed

lemma frame_rest_at:
  assumes I: "inv t s"
    and R: "Option.bind (draw_populate (status_timer (finalize_timer (search_machine s))))
       post_populate = Some s'"
  shows "inv t s'" "goal a t s' = goal a t s"
    "ins_measure s' \<le> ins_measure s" "del_measure s' = del_measure s"
    "search_measure s' \<le> search_measure s"
    "insStage s = INS_IDLE \<Longrightarrow> delStage s = DEL_IDLE \<Longrightarrow> searchStage s \<noteq> S_IDLE \<Longrightarrow>
       search_measure s' < search_measure s"
    "heap s' = heap s" "root s' = root s" "delStage s' = delStage s"
    "animProgress s' = animProgress s" "delTargetNode s' = delTargetNode s"
    "insStage s' = INS_TRAVERSING \<longleftrightarrow> insStage s = INS_TRAVERSING"
    "insStage s = INS_IDLE \<Longrightarrow> insStage s' = INS_IDLE"
    "insStage s = INS_FINALIZE \<Longrightarrow> insStage s' \<noteq> INS_TRAVERSING"
proof -
  have "inv t s' \<and> goal a t s' = goal a t s \<and>
    ins_measure s' \<le> ins_measure s \<and> del_measure s' = del_measure s \<and>
    search_measure s' \<le> search_measure s \<and>
    (insStage s = INS_IDLE \<longrightarrow> delStage s = DEL_IDLE \<longrightarrow> searchStage s \<noteq> S_IDLE \<longrightarrow>
       search_measure s' < search_measure s) \<and>
    heap s' = heap s \<and> root s' = root s \<and> delStage s' = delStage s \<and>
    animProgress s' = animProgress s \<and> delTargetNode s' = delTargetNode s \<and>
    (insStage s' = INS_TRAVERSING \<longleftrightarrow> insStage s = INS_TRAVERSING) \<and>
    (insStage s = INS_IDLE \<longrightarrow> insStage s' = INS_IDLE) \<and>
    (insStage s = INS_FINALIZE \<longrightarrow> insStage s' \<noteq> INS_TRAVERSING)"
  proof (rule frame_rest[OF I, where a = a])
    fix s''
    assume d: "Option.bind (draw_populate (status_timer (finalize_timer (search_machine s))))
        post_populate = Some s''"
      and r: "inv t s''" "goal a t s'' = goal a t s"
      "ins_measure s'' \<le> ins_measure s" "del_measure s'' = del_measure s"
      "search_measure s'' \<le> search_measure s"
      "insStage s = INS_IDLE \<Longrightarrow> delStage s = DEL_IDLE \<Longrightarrow> searchStage s \<noteq> S_IDLE \<Longrightarrow>
         search_measure s'' < search_measure s"
      "heap s'' = heap s" "root s'' = root s" "delStage s'' = delStage s"
      "animProgress s'' = animProgress s" "delTargetNode s'' = delTargetNode s"
      "insStage s'' = INS_TRAVERSING \<longleftrightarrow> insStage s = INS_TRAVERSING"
      "insStage s = INS_IDLE \<Longrightarrow> insStage s'' = INS_IDLE"
      "insStage s = INS_FINALIZE \<Longrightarrow> insStage s'' \<noteq> INS_TRAVERSING"
    from d R have e: "s'' = s'" by simp
    show ?thesis using r unfolding e by simp
  qed
  then show "inv t s'" "goal a t s' = goal a t s"
    "ins_measure s' \<le> ins_measure s" "del_measure s' = del_measure s"
    "search_measure s' \<le> search_measure s"
    "insStage s = INS_IDLE \<Longrightarrow> delStage s = DEL_IDLE \<Longrightarrow> searchStage s \<noteq> S_IDLE \<Longrightarrow>
       search_measure s' < search_measure s"
    "heap s' = heap s" "root s' = root s" "delStage s' = delStage s"
    "animProgress s' = animProgress s" "delTargetNode s' = delTargetNode s"
    "insStage s' = INS_TRAVERSING \<longleftrightarrow> insStage s = INS_TRAVERSING"
    "insStage s = INS_IDLE \<Longrightarrow> insStage s' = INS_IDLE"
    "insStage s = INS_FINALIZE \<Longrightarrow> insStage s' \<noteq> INS_TRAVERSING"
    by simp_all
qed

lemma frame_machines_split:
  assumes "frame_machines a s = Some s'"
  obtains s2 s3 where "insert_machine a s = Some s2" "delete_machine s2 = Some s3"
    "Option.bind (draw_populate (status_timer (finalize_timer (search_machine s3))))
      post_populate = Some s'"
proof (cases "insert_machine a s")
  case None
  with assms show ?thesis by (simp add: frame_machines_def)
next
  case s2: (Some s2)
  show ?thesis
  proof (cases "delete_machine s2")
    case None
    with assms s2 show ?thesis by (simp add: frame_machines_def)
  next
    case s3: (Some s3)
    with assms s2 show ?thesis by (intro that[OF s2 s3]) (simp add: frame_machines_def)
  qed
qed

lemma frame_machines_step:
  assumes I: "inv t s" and R: "frame_machines a s = Some s'"
  obtains t' where "inv t' s'" "goal a t' s' = goal a t s"
    "frames_left s' \<le> frames_left s" "\<not> all_idle s \<Longrightarrow> frames_left s' < frames_left s"
    "insStage s' = INS_TRAVERSING \<Longrightarrow> insStage s = INS_TRAVERSING \<and> t' = t"
    "t' = t \<and> heap s' = heap s \<and> root s' = root s \<or> del_commit t s t' s' \<or>
     insStage s = INS_TRAVERSING \<and> insStage s' = INS_FINALIZE \<and>
     t' = a_insert a (insValuePending s) t"
proof -
  note outer = that
  from R obtain s2 s3 where s2: "insert_machine a s = Some s2"
    and s3: "delete_machine s2 = Some s3"
    and r: "Option.bind (draw_populate (status_timer (finalize_timer (search_machine s3))))
      post_populate = Some s'"
    by (rule frame_machines_split)
  from insert_machine_step[OF I s2] obtain t2 where
    i: "inv t2 s2" "goal a t2 s2 = goal a t s" "ins_measure s2 \<le> ins_measure s"
      "insStage s \<noteq> INS_IDLE \<Longrightarrow> ins_measure s2 < ins_measure s"
      "del_measure s2 = del_measure s" "search_measure s2 = search_measure s"
      "delStage s2 = delStage s" "searchStage s2 = searchStage s"
      "insStage s2 = INS_TRAVERSING \<Longrightarrow> insStage s = INS_TRAVERSING"
      "t2 = t \<and> heap s2 = heap s \<and> root s2 = root s \<or>
       insStage s = INS_TRAVERSING \<and> insStage s2 = INS_FINALIZE \<and>
       t2 = a_insert a (insValuePending s) t"
    by blast
  show thesis
  proof (cases "delStage s = DEL_IDLE")
    case True
    with i(7) s3 have e3: "s3 = s2" by simp
    note f = frame_rest_at[OF i(1) r[unfolded e3]]
    have le: "frames_left s' \<le> frames_left s"
      using f(3,4,5) i(3,5,6) by (simp add: frames_left_def)
    have lt: "frames_left s' < frames_left s" if n: "\<not> all_idle s"
    proof (cases "insStage s = INS_IDLE")
      case ii: True
      with s2 have "s2 = s" by simp
      with f(6) ii True n have "search_measure s' < search_measure s"
        by (auto simp: all_idle_def)
      with f(3,4) i(3,5) show ?thesis by (simp add: frames_left_def)
    next
      case False
      with i(4) f(3,4,5) i(5,6) show ?thesis by (simp add: frames_left_def)
    qed
    have tr: "insStage s' = INS_TRAVERSING \<Longrightarrow> insStage s = INS_TRAVERSING \<and> t2 = t"
      using f(12) i(9,10) by auto
    show ?thesis
    proof (cases "t2 = t \<and> heap s2 = heap s \<and> root s2 = root s")
      case same: True
      show ?thesis using le lt tr same f(7,8) i(2) f(2)
        by (intro outer[OF f(1)]) simp_all
    next
      case False
      with i(10) have at: "insStage s = INS_TRAVERSING" "insStage s2 = INS_FINALIZE"
        "t2 = a_insert a (insValuePending s) t" by auto
      have nt: "insStage s' \<noteq> INS_TRAVERSING" using f(14) at(2) by simp
      have "0 < insFinalizeTimer s'"
      proof -
        from I have "insFinalizeTimer s2 = 120"
          using s2 at(1,2) by (cases rule: insert_machine_cases[where a = a]) auto
        then have "insFinalizeTimer (finalize_timer (search_machine s2)) = 119"
          "insStage (finalize_timer (search_machine s2)) = INS_FINALIZE"
          using at(2) by (simp_all add: finalize_timer_def Let_def)
        moreover have "s' = (let s4 = status_timer (finalize_timer (search_machine s2)) in
          if insStage s4 = INS_TRAVERSING \<and> insTraversalPath s4 = []
          then s4\<lparr>insTraversalIndex := 0\<rparr> else s4)"
        proof -
          have I3: "inv t2 (status_timer (finalize_timer (search_machine s2)))"
            using finalize_timer_inv(1)[OF search_machine_inv[OF i(1)]] by simp
          from populate_inv[OF I3] r[unfolded e3] show ?thesis by (simp add: Let_def)
        qed
        ultimately show ?thesis
          by (simp add: Let_def status_timer_def)
      qed
      with inv_parts(5)[OF f(1)] have "insStage s' = INS_FINALIZE"
        by (cases "insStage s'") (auto simp: ins_ok_def)
      with at show ?thesis using le lt tr i(2) f(2)
        by (intro outer[OF f(1)]) simp_all
    qed
  next
    case False
    note ii = inv_del_active[OF I False]
    from s2 ii(1) have e2: "s2 = s" by simp
    from delete_machine_step_at[OF I False s3[unfolded e2], where a = a] obtain t3 where
      d: "inv t3 s3" "goal a t3 s3 = goal a t s"
      "del_measure s3 < del_measure s" "ins_measure s3 = ins_measure s"
      "search_measure s3 = search_measure s"
      "insStage s3 = INS_IDLE" "searchStage s3 = S_IDLE" "insFinalizeTimer s3 = 0"
      "t3 = t \<and> heap s3 = heap s \<and> root s3 = root s \<or> del_commit t s t3 s3"
      by blast
    note f = frame_rest_at[OF d(1) r]
    have lt: "frames_left s' < frames_left s"
      using f(3,4,5) d(3,4,5) by (simp add: frames_left_def)
    have ch: "t3 = t \<and> heap s' = heap s \<and> root s' = root s \<or> del_commit t s t3 s'"
      using d(9) f(7,8,9,10) by (auto simp: del_commit_def)
    have "insStage s' = INS_IDLE" using f(13) d(6) by simp
    then show ?thesis using lt ch f(2) d(2)
      by (intro outer[OF f(1)]) auto
  qed
qed

section \<open>Runs and settling\<close>


lemma inv_init: "inv Tip init"
  by (simp add: inv_def tree_ok_def excl_def ins_ok_def del_ok_def init_def)

lemma tick_no_command: "tick \<lparr>cmd = None, alloc = a\<rparr> s = frame_machines a s"
  by (simp add: tick_def handle_enter_def)

lemma tick_inv:
  assumes I: "inv t s" and R: "tick i s = Some s'"
  obtains t' where "inv t' s'"
proof -
  from handle_enter_inv[OF I, of "cmd i"] obtain s1 where
    s1: "handle_enter (cmd i) s = Some s1" "inv t s1" by blast
  with R have "frame_machines (alloc i) s1 = Some s'" by (simp add: tick_def)
  from frame_machines_step[OF s1(2) this] that show thesis by blast
qed

lemma run_inv:
  "inv t s \<Longrightarrow> run is s = Some s' \<Longrightarrow> \<exists>t'. inv t' s'"
proof (induction "is" arbitrary: t s)
  case Nil
  then show ?case by auto
next
  case (Cons i "is")
  from Cons.prems(2) obtain s1 where s1: "tick i s = Some s1" "run is s1 = Some s'"
    by (auto split: option.splits)
  from tick_inv[OF Cons.prems(1) s1(1)] obtain t1 where "inv t1 s1" by blast
  from Cons.IH[OF this s1(2)] show ?case .
qed

lemma is_tree_same_tree:
  "is_tree h r t \<Longrightarrow> is_tree h' r' t \<Longrightarrow> r = r' \<and> (\<forall>a\<in>addrs t. h a = h' a)"
proof (induction t arbitrary: r r')
  case Tip
  then show ?case by simp
next
  case (Nd l a v rt)
  from Nd.prems(1) obtain n where n: "r = Some a" "h a = Some n" "val n = v"
    "is_tree h (left n) l" "is_tree h (right n) rt" by auto
  from Nd.prems(2) obtain n' where n': "r' = Some a" "h' a = Some n'" "val n' = v"
    "is_tree h' (left n') l" "is_tree h' (right n') rt" by auto
  from Nd.IH(1)[OF n(4) n'(4)] Nd.IH(2)[OF n(5) n'(5)]
  have e: "left n = left n'" "right n = right n'" "\<forall>a\<in>addrs l. h a = h' a"
    "\<forall>a\<in>addrs rt. h a = h' a" by simp_all
  have "n = n'" using e(1,2) n(3) n'(3) by simp
  with n n' e show ?case by auto
qed

lemma tree_ok_same_heap:
  assumes "tree_ok t s" "tree_ok t s'"
  shows "heap s' = heap s" "root s' = root s"
proof -
  from assms have a: "is_tree (heap s) (root s) t" "is_tree (heap s') (root s') t"
    and d: "dom (heap s) = addrs t" "dom (heap s') = addrs t"
    by (simp_all add: tree_ok_def)
  from is_tree_same_tree[OF a] show "root s' = root s" by simp
  show "heap s' = heap s"
  proof
    fix x
    show "heap s' x = heap s x"
    proof (cases "x \<in> addrs t")
      case True
      with is_tree_same_tree[OF a] show ?thesis by simp
    next
      case False
      with d have "heap s x = None" "heap s' x = None" by auto
      then show ?thesis by simp
    qed
  qed
qed

lemma goal_idle [simp]: "all_idle s \<Longrightarrow> goal a t s = t"
  by (simp add: all_idle_def goal_def)

lemma settle_rule:
  assumes I: "inv t s" and F: "insStage s = INS_TRAVERSING \<longrightarrow> a \<notin> addrs t" and J: "J s"
    and step: "\<And>t s s'. inv t s \<Longrightarrow> J s \<Longrightarrow> \<not> all_idle s \<Longrightarrow> frame_machines a s = Some s' \<Longrightarrow> J s'"
  shows "\<exists>s'. settle a s = Some s' \<and> all_idle s' \<and> inv (goal a t s) s' \<and> J s'"
  using I F J
proof (induction "frames_left s" arbitrary: t s rule: less_induct)
  case less
  show ?case
  proof (cases "all_idle s")
    case True
    then have "settle a s = Some s" by (subst settle.simps) simp
    with True less.prems show ?thesis by simp
  next
    case False
    from frame_machines_succeeds[OF less.prems(1,2)] obtain s1 where
      s1: "frame_machines a s = Some s1" by auto
    from frame_machines_step[OF less.prems(1) s1] obtain t1 where
      t1: "inv t1 s1" "goal a t1 s1 = goal a t s" "frames_left s1 < frames_left s"
      "insStage s1 = INS_TRAVERSING \<Longrightarrow> insStage s = INS_TRAVERSING \<and> t1 = t"
      using False by blast
    have F1: "insStage s1 = INS_TRAVERSING \<longrightarrow> a \<notin> addrs t1" using t1(4) less.prems(2) by auto
    have J1: "J s1" by (rule step[OF less.prems(1,3) False s1])
    from less.hyps[OF t1(3) t1(1) F1 J1] obtain s' where
      s': "settle a s1 = Some s'" "all_idle s'" "inv (goal a t1 s1) s'" "J s'" by blast
    have "settle a s = Some s'"
      using False s1 s'(1) by (subst settle.simps) (simp add: tick_no_command)
    with s' t1(2) show ?thesis by simp
  qed
qed

lemma reachable_inv: "run is init = Some s \<Longrightarrow> \<exists>t. inv t s"
  using run_inv[OF inv_init] by blast

lemma handle_enter_del_active:
  assumes "delStage s \<noteq> DEL_IDLE"
  obtains m n where "handle_enter c s = Some (s\<lparr>statusMessage := m, statusTimer := n\<rparr>)"
proof (cases c)
  case None
  have "handle_enter c s = Some (s\<lparr>statusMessage := statusMessage s, statusTimer := statusTimer s\<rparr>)"
    using None by (simp add: handle_enter_def)
  then show ?thesis by (rule that)
next
  case (Some mv)
  obtain md v where mv: "mv = (md, v)" by (cases mv)
  show ?thesis
  proof (cases md)
    case MODE_INSERT
    with Some mv assms
    have "handle_enter c s = Some (s\<lparr>statusMessage := InsertBlocked, statusTimer := 120\<rparr>)"
      by (simp add: handle_enter_def)
    then show ?thesis by (rule that)
  next
    case MODE_DELETE
    with Some mv assms
    have "handle_enter c s = Some (s\<lparr>statusMessage := DeleteBlocked, statusTimer := 120\<rparr>)"
      by (simp add: handle_enter_def)
    then show ?thesis by (rule that)
  next
    case MODE_SEARCH
    with Some mv assms
    have "handle_enter c s = Some (s\<lparr>statusMessage := SearchBlocked, statusTimer := 120\<rparr>)"
      by (simp add: handle_enter_def)
    then show ?thesis by (rule that)
  qed
qed

lemma frame_machines_del_active:
  assumes I: "inv t s" and A: "delStage s \<noteq> DEL_IDLE"
  shows "frame_machines a s = map_option status_timer (delete_machine s)"
proof -
  note act = inv_del_active[OF I A]
  from delete_machine_step[OF I A, where a = a] obtain t3 s3 where
    d: "delete_machine s = Some s3" "insStage s3 = INS_IDLE" "searchStage s3 = S_IDLE"
      "insFinalizeTimer s3 = 0" by blast
  show ?thesis using act(1) d
    by (simp add: frame_machines_def draw_populate_def post_populate_def)
qed

lemma tick_del_active:
  assumes I: "inv t s" and A: "delStage s \<noteq> DEL_IDLE" and R: "tick i s = Some s'"
  obtains m n s3 where "inv t (s\<lparr>statusMessage := m, statusTimer := n\<rparr>)"
    "delete_machine (s\<lparr>statusMessage := m, statusTimer := n\<rparr>) = Some s3"
    "s' = status_timer s3"
proof -
  obtain m n where h: "handle_enter (cmd i) s = Some (s\<lparr>statusMessage := m, statusTimer := n\<rparr>)"
    by (rule handle_enter_del_active[OF A])
  let ?s1 = "s\<lparr>statusMessage := m, statusTimer := n\<rparr>"
  have I1: "inv t ?s1" using I by (simp add: inv_def)
  have A1: "delStage ?s1 \<noteq> DEL_IDLE" using A by simp
  from R h have "frame_machines (alloc i) ?s1 = Some s'" by (simp add: tick_def)
  with frame_machines_del_active[OF I1 A1] obtain s3 where
    s3: "delete_machine ?s1 = Some s3" "s' = status_timer s3" by auto
  show thesis by (rule that[OF I1 s3])
qed



lemma Some_inject: "Some x = Some y \<Longrightarrow> x = y"
  by simp

lemma status_timer_keeps_successor [simp]:
  "successorParent (status_timer s) = successorParent s"
  "successorNode (status_timer s) = successorNode s"
  by (simp_all add: status_timer_def Let_def)

subsection \<open>The concrete tree\<close>

lemma ex_tree_ok: "is_tree ex_heap (Some 1) ex_tree" "dom ex_heap = addrs ex_tree" "bst ex_tree"
  by (auto simp: ex_tree_def ex_heap_def)




subsection \<open>A command entered and left to settle\<close>

lemma request_rule:
  assumes H: "handle_enter (Some (m, v)) s = Some s1" and I: "inv t s1"
    and F: "insStage s1 = INS_TRAVERSING \<longrightarrow> a \<notin> addrs t"
    and J: "J s1" and N: "\<not> all_idle s1"
    and step: "\<And>t s s'. inv t s \<Longrightarrow> J s \<Longrightarrow> \<not> all_idle s \<Longrightarrow> frame_machines a s = Some s' \<Longrightarrow> J s'"
  shows "\<exists>s'. request m v a s = Some s' \<and> all_idle s' \<and> inv (goal a t s1) s' \<and> J s'"
proof -
  from frame_machines_succeeds[OF I F] obtain s2 where R: "frame_machines a s1 = Some s2"
    by blast
  from R H have tk: "tick \<lparr>cmd = Some (m, v), alloc = a\<rparr> s = Some s2" by (simp add: tick_def)
  have J2: "J s2" by (rule step[OF I J N R])
  show ?thesis
  proof (rule frame_machines_step[OF I R])
    fix t2
    assume I2: "inv t2 s2" and G: "goal a t2 s2 = goal a t s1"
      and T: "insStage s2 = INS_TRAVERSING \<Longrightarrow> insStage s1 = INS_TRAVERSING \<and> t2 = t"
    from T F have F2: "insStage s2 = INS_TRAVERSING \<longrightarrow> a \<notin> addrs t2" by blast
    from settle_rule[of t2 s2 a J, OF I2 F2 J2 step] G tk show ?thesis
      by (simp add: request_def)
  qed
qed

lemma request_insert:
  assumes I: "inv t s" and A: "all_idle s" and F: "a \<notin> addrs t"
  shows "\<exists>s'. request MODE_INSERT v a s = Some s' \<and> all_idle s' \<and> inv (a_insert a v t) s'"
proof -
  note T = inv_parts(1)[OF I]
  let ?s1 = "s\<lparr>insTraversalPath := ins_path v t, insTraversalIndex := 0,
             insFramesCounter := 0, insStage := INS_TRAVERSING,
             insParent := fst (ins_slot v t (None, False)), insNewNode := None,
             insNewIsLeft := snd (ins_slot v t (None, False)), insValuePending := v\<rparr>"
  from A have H: "handle_enter (Some (MODE_INSERT, v)) s = Some ?s1"
    by (simp add: handle_enter_def all_idle_def StartInsertion_tree[OF T])
  from handle_enter_inv[OF I, of "Some (MODE_INSERT, v)"] H have I1: "inv t ?s1" by simp
  have N: "\<not> all_idle ?s1" by (simp add: all_idle_def)
  have G: "goal a t ?s1 = a_insert a v t" by (simp add: goal_def)
  from request_rule[of MODE_INSERT v s ?s1 t a "\<lambda>_. True", OF H I1 _ _ N] F G
  show ?thesis by simp
qed

lemma request_delete:
  assumes I: "inv t s" and A: "all_idle s"
  shows "\<exists>s'. request MODE_DELETE v a s = Some s' \<and> all_idle s' \<and>
    inv (case find_node v t of None \<Rightarrow> t | Some x \<Rightarrow> a_remove x t) s'"
proof -
  note T = inv_parts(1)[OF I]
  let ?s1 = "s\<lparr>delTraversalPath := del_path v t, delTraversalIndex := 0,
             delFramesCounter := 0, delStage := DEL_TRAVERSING,
             delTargetParent := find_parent v t, delTargetNode := find_node v t,
             successorParent := None, successorNode := None, animNode := None,
             animReplaceNode := None, animProgress := 0, delValuePending := v\<rparr>"
  from A have H: "handle_enter (Some (MODE_DELETE, v)) s = Some ?s1"
    by (simp add: handle_enter_def all_idle_def StartDeletion_tree[OF T])
  from handle_enter_inv[OF I, of "Some (MODE_DELETE, v)"] H have I1: "inv t ?s1" by simp
  have N: "\<not> all_idle ?s1" by (simp add: all_idle_def)
  from A have G: "goal a t ?s1 = (case find_node v t of None \<Rightarrow> t | Some x \<Rightarrow> a_remove x t)"
    by (simp add: goal_def all_idle_def)
  from A have F: "insStage ?s1 = INS_TRAVERSING \<longrightarrow> a \<notin> addrs t" by (simp add: all_idle_def)
  from request_rule[of MODE_DELETE v s ?s1 t a "\<lambda>_. True", OF H I1 F _ N] G
  show ?thesis by simp
qed

subsection \<open>Where an insertion puts the node\<close>

lemma set_ins_path: "set (ins_path v t) \<subseteq> addrs t"
  by (induction t) auto

lemma subtree_a_insert_path:
  "distinct_tree t \<Longrightarrow> a \<notin> addrs t \<Longrightarrow> x \<in> set (ins_path v t) \<Longrightarrow>
   subtree x t = Nd l x w r \<Longrightarrow>
   subtree x (a_insert a v t) =
     (if v < w then Nd (a_insert a v l) x w r else Nd l x w (a_insert a v r))"
proof (induction t)
  case Tip
  then show ?case by simp
next
  case (Nd l0 a0 w0 r0)
  show ?case
  proof (cases "x = a0")
    case True
    with Nd.prems show ?thesis by simp
  next
    case False
    show ?thesis
    proof (cases "v < w0")
      case True
      with False Nd.prems(3) have p: "x \<in> set (ins_path v l0)" by simp
      with set_ins_path have xl: "x \<in> addrs l0" by blast
      with False Nd.prems(4) have s: "subtree x l0 = Nd l x w r" by simp
      from Nd.prems(1,2) have "distinct_tree l0" "a \<notin> addrs l0" by simp_all
      from Nd.IH(1)[OF this p s] True False xl show ?thesis by simp
    next
      case ge: False
      with False Nd.prems(3) have p: "x \<in> set (ins_path v r0)" by simp
      with set_ins_path have xr: "x \<in> addrs r0" by blast
      with Nd.prems(1) have xl: "x \<notin> addrs l0" by auto
      with False Nd.prems(4) have s: "subtree x r0 = Nd l x w r" by simp
      from Nd.prems(1,2) have "distinct_tree r0" "a \<notin> addrs r0" by simp_all
      from Nd.IH(2)[OF this p s] ge False xl show ?thesis by simp
    qed
  qed
qed

lemma subtree_a_insert_new:
  "a \<notin> addrs t \<Longrightarrow> subtree a (a_insert a v t) = Nd Tip a v Tip"
  by (induction t) auto

lemma a_find_a_insert: "a_find v (a_insert a v t) p \<noteq> None"
  by (induction t arbitrary: p) auto

lemma inv_ex_idle: "inv ex_tree ex_idle"
proof -
  have "tree_ok ex_tree ex_idle"
    using ex_tree_ok by (simp add: tree_ok_def ex_idle_def)
  moreover have "excl ex_idle" "ins_ok ex_tree ex_idle" "del_ok ex_tree ex_idle"
    by (simp_all add: excl_def ins_ok_def del_ok_def ex_idle_def init_def)
  ultimately show ?thesis using ex_tree_ok(3) by (simp add: inv_def)
qed

subsection \<open>A search that waits\<close>

lemma search_view_keeps [simp]:
  "search_view (finalize_timer s) = search_view s"
  "search_view (status_timer s) = search_view s"
  by (simp_all add: search_view_def finalize_timer_def status_timer_def Let_def)

lemma handle_enter_search_view:
  assumes I: "inv t s" and S: "searchStage s \<noteq> S_IDLE" and H: "handle_enter c s = Some s1"
  shows "search_view s1 = search_view s"
proof (cases c)
  case None
  with H show ?thesis by (simp add: handle_enter_def)
next
  case (Some mv)
  obtain m v where mv: "mv = (m, v)" by (cases mv)
  note T = inv_parts(1)[OF I]
  show ?thesis
  proof (cases m)
    case MODE_INSERT
    with H Some mv show ?thesis
      by (auto simp: handle_enter_def StartInsertion_tree[OF T] search_view_def
          split: if_splits)
  next
    case MODE_DELETE
    with H Some mv S show ?thesis
      by (auto simp: handle_enter_def search_view_def)
  next
    case MODE_SEARCH
    with H Some mv S show ?thesis
      by (auto simp: handle_enter_def search_view_def)
  qed
qed

lemma insert_machine_search_view:
  assumes I: "inv t s" and R: "insert_machine a s = Some s2"
  shows "search_view s2 = search_view s"
  using I
proof (cases rule: insert_machine_cases[where a = a])
  case idle
  with R show ?thesis by simp
next
  case count
  with R show ?thesis by (auto simp: search_view_def)
next
  case index
  with R show ?thesis by (auto simp: search_view_def)
next
  case attach_fail
  with R show ?thesis by simp
next
  case (attach h')
  with R show ?thesis by (auto simp: search_view_def)
next
  case fin_done
  with R show ?thesis by (auto simp: search_view_def)
next
  case fin
  with R show ?thesis by (auto simp: search_view_def)
qed

lemma tick_search_waits:
  assumes I: "inv t s" and S: "searchStage s = S_TRAVERSING" and R: "tick i s = Some s'"
    and A: "insStage s' \<noteq> INS_IDLE"
  shows "search_view s' = search_view s"
proof -
  from handle_enter_inv[OF I, of "cmd i"] obtain s1 where
    s1: "handle_enter (cmd i) s = Some s1" "inv t s1" by blast
  from S have S0: "searchStage s \<noteq> S_IDLE" by simp
  have v1: "search_view s1 = search_view s" by (rule handle_enter_search_view[OF I S0 s1(1)])
  from R s1(1) have F: "frame_machines (alloc i) s1 = Some s'" by (simp add: tick_def)
  show ?thesis
  proof (rule frame_machines_split[OF F])
    fix s2 s3
    assume m: "insert_machine (alloc i) s1 = Some s2" "delete_machine s2 = Some s3"
      and rest: "Option.bind (draw_populate (status_timer (finalize_timer (search_machine s3))))
        post_populate = Some s'"
    have v2: "search_view s2 = search_view s1" by (rule insert_machine_search_view[OF s1(2) m(1)])
    show ?thesis
    proof (rule insert_machine_step[OF s1(2) m(1)])
      fix t2
      assume I2: "inv t2 s2"
      from v2 v1 S have S2: "searchStage s2 = S_TRAVERSING" by (simp add: search_view_def)
      with inv_parts(4)[OF I2] have D2: "delStage s2 = DEL_IDLE" by (auto simp: excl_def)
      with m(2) have e: "s3 = s2" by simp
      have act: "insStage s2 \<noteq> INS_IDLE"
      proof
        assume "insStage s2 = INS_IDLE"
        with frame_rest_at(13)[OF I2 rest[unfolded e]] A show False by simp
      qed
      with S2 have w: "search_machine s2 = s2" by simp
      let ?u = "status_timer (finalize_timer s2)"
      have Iu: "inv t2 ?u" using finalize_timer_inv(1)[OF I2] by simp
      from rest populate_inv[OF Iu] have "s' = ?u \<or> s' = ?u\<lparr>insTraversalIndex := 0\<rparr>"
        unfolding e w by (auto split: if_splits)
      then have "search_view s' = search_view ?u" by (auto simp: search_view_def)
      with v2 v1 show ?thesis by simp
    qed
  qed
qed

lemma run_append:
  "run (xs @ ys) s = (case run xs s of None \<Rightarrow> None | Some s' \<Rightarrow> run ys s')"
  by (induction xs arbitrary: s) (auto split: option.splits)

lemma search_machine_traversing_status:
  assumes "searchStage s = S_TRAVERSING" "insStage s = INS_IDLE" "delStage s = DEL_IDLE"
  shows "search_view (search_machine (s\<lparr>statusMessage := m, statusTimer := n\<rparr>)) =
   search_view (search_machine s)"
  using assms by (simp add: search_machine_def Let_def search_view_def)

lemma search_machine_moves:
  assumes "searchStage s = S_TRAVERSING" "insStage s = INS_IDLE" "delStage s = DEL_IDLE"
  shows "search_view (search_machine s) \<noteq> search_view s"
  using assms by (simp add: search_machine_def Let_def search_view_def SEARCH_STEP_FRAMES_def)

lemma tick_search_moves:
  assumes I: "inv t s" and S: "searchStage s = S_TRAVERSING" and N: "insStage s = INS_IDLE"
    and C: "\<And>v. cmd i \<noteq> Some (MODE_INSERT, v)" and R: "tick i s = Some s'"
  shows "search_view s' = search_view (search_machine s)"
proof -
  from S inv_parts(4)[OF I] have D: "delStage s = DEL_IDLE" by (auto simp: excl_def)
  have "\<exists>m n. handle_enter (cmd i) s = Some (s\<lparr>statusMessage := m, statusTimer := n\<rparr>)"
  proof (cases "cmd i")
    case None
    then have "handle_enter (cmd i) s =
        Some (s\<lparr>statusMessage := statusMessage s, statusTimer := statusTimer s\<rparr>)"
      by (simp add: handle_enter_def)
    then show ?thesis by blast
  next
    case (Some mv)
    obtain md v where mv: "mv = (md, v)" by (cases mv)
    from C Some mv have ni: "md \<noteq> MODE_INSERT" by auto
    show ?thesis
    proof (cases md)
      case MODE_INSERT
      with ni show ?thesis by simp
    next
      case MODE_DELETE
      with Some mv S have "handle_enter (cmd i) s =
          Some (s\<lparr>statusMessage := DeleteBlocked, statusTimer := 120\<rparr>)"
        by (simp add: handle_enter_def)
      then show ?thesis by blast
    next
      case MODE_SEARCH
      with Some mv S have "handle_enter (cmd i) s =
          Some (s\<lparr>statusMessage := SearchBlocked, statusTimer := 120\<rparr>)"
        by (simp add: handle_enter_def)
      then show ?thesis by blast
    qed
  qed
  then obtain m n where
    h: "handle_enter (cmd i) s = Some (s\<lparr>statusMessage := m, statusTimer := n\<rparr>)" by blast
  let ?s1 = "s\<lparr>statusMessage := m, statusTimer := n\<rparr>"
  have I1: "inv t ?s1" using I by (simp add: inv_def)
  from R h have F: "frame_machines (alloc i) ?s1 = Some s'" by (simp add: tick_def)
  let ?u = "status_timer (finalize_timer (search_machine ?s1))"
  have Iu: "inv t ?u" using finalize_timer_inv(1)[OF search_machine_inv[OF I1]] by simp
  from F N D have "Option.bind (draw_populate ?u) post_populate = Some s'"
    by (simp add: frame_machines_def)
  with populate_inv[OF Iu] have "s' = ?u \<or> s' = ?u\<lparr>insTraversalIndex := 0\<rparr>"
    by (auto split: if_splits)
  then have "search_view s' = search_view ?u" by (auto simp: search_view_def)
  then show ?thesis by (simp add: search_machine_traversing_status[OF S N D])
qed

subsection \<open>Scripts are runs\<close>

lemma settle_run:
  "settle a s = Some s' \<Longrightarrow> \<exists>n. run (replicate n \<lparr>cmd = None, alloc = a\<rparr>) s = Some s'"
proof (induction rule: settle.raw_induct[rotated 1, consumes 1])
  case (1 settle' a s s')
  show ?case
  proof (cases "all_idle s")
    case True
    with 1(2) have "run (replicate 0 \<lparr>cmd = None, alloc = a\<rparr>) s = Some s'" by simp
    then show ?thesis by blast
  next
    case False
    with 1(2) obtain s1 where t: "tick \<lparr>cmd = None, alloc = a\<rparr> s = Some s1"
      and r: "settle' a s1 = Some s'" by (auto split: option.splits)
    from 1(1)[OF r] obtain n where "run (replicate n \<lparr>cmd = None, alloc = a\<rparr>) s1 = Some s'"
      by blast
    with t have "run (replicate (Suc n) \<lparr>cmd = None, alloc = a\<rparr>) s = Some s'" by simp
    then show ?thesis by blast
  qed
qed

lemma request_run:
  assumes "request m v a s = Some s'"
  shows "\<exists>is. run is s = Some s'"
proof -
  from assms obtain s1 where t: "tick \<lparr>cmd = Some (m, v), alloc = a\<rparr> s = Some s1"
    and r: "settle a s1 = Some s'" by (auto simp: request_def split: option.splits)
  from settle_run[OF r] obtain n where "run (replicate n \<lparr>cmd = None, alloc = a\<rparr>) s1 = Some s'"
    by blast
  with t have "run (\<lparr>cmd = Some (m, v), alloc = a\<rparr> # replicate n \<lparr>cmd = None, alloc = a\<rparr>) s
    = Some s'" by simp
  then show ?thesis by blast
qed

lemma script_run: "script ops s = Some s' \<Longrightarrow> \<exists>is. run is s = Some s'"
proof (induction ops arbitrary: s)
  case Nil
  then have "run [] s = Some s'" by simp
  then show ?case by blast
next
  case (Cons op ops)
  obtain m v a where op: "op = (m, v, a)" by (cases op)
  from Cons.prems op obtain s1 where r: "request m v a s = Some s1"
    and k: "script ops s1 = Some s'" by (auto split: option.splits)
  from request_run[OF r] obtain xs where xs: "run xs s = Some s1" by blast
  from Cons.IH[OF k] obtain ys where ys: "run ys s1 = Some s'" by blast
  from xs ys have "run (xs @ ys) s = Some s'" by (simp add: run_append)
  then show ?case by blast
qed

lemma ex_tree_after_ok:
  "is_tree ex_heap_after (Some 1) ex_tree_after" "dom ex_heap_after = addrs ex_tree_after"
  "bst ex_tree_after"
  by (auto simp: ex_tree_after_def ex_heap_after_def)

lemma script_append:
  "script (xs @ ys) s = (case script xs s of None \<Rightarrow> None | Some s' \<Rightarrow> script ys s')"
  by (induction xs arbitrary: s) (auto split: option.splits)

lemma ex_script_inserts:
  "\<exists>s5. script ex_inserts init = Some s5 \<and> all_idle s5 \<and> inv ex_tree s5"
proof -
  have i0: "all_idle init" by (simp add: all_idle_def init_def)
  from request_insert[OF inv_init i0, of 1 50] obtain s1 where
    1: "request MODE_INSERT 50 1 init = Some s1" "all_idle s1" "inv (Nd Tip 1 50 Tip) s1"
    by auto
  from request_insert[OF 1(3,2), of 2 30] obtain s2 where
    2: "request MODE_INSERT 30 2 s1 = Some s2" "all_idle s2"
      "inv (Nd (Nd Tip 2 30 Tip) 1 50 Tip) s2" by auto
  from request_insert[OF 2(3,2), of 3 70] obtain s3 where
    3: "request MODE_INSERT 70 3 s2 = Some s3" "all_idle s3"
      "inv (Nd (Nd Tip 2 30 Tip) 1 50 (Nd Tip 3 70 Tip)) s3" by auto
  from request_insert[OF 3(3,2), of 4 20] obtain s4 where
    4: "request MODE_INSERT 20 4 s3 = Some s4" "all_idle s4"
      "inv (Nd (Nd (Nd Tip 4 20 Tip) 2 30 Tip) 1 50 (Nd Tip 3 70 Tip)) s4" by auto
  from request_insert[OF 4(3,2), of 5 40] obtain s5 where
    5: "request MODE_INSERT 40 5 s4 = Some s5" "all_idle s5" "inv ex_tree s5"
    by (auto simp: ex_tree_def)
  from 1 2 3 4 5 show ?thesis by (simp add: ex_inserts_def)
qed

lemma ex_delete:
  assumes "inv ex_tree s" "all_idle s"
  shows "\<exists>s'. request MODE_DELETE 30 a s = Some s' \<and> all_idle s' \<and> inv ex_tree_after s'"
proof -
  have f: "find_node 30 ex_tree = Some 2" by (simp add: find_node_def ex_tree_def)
  have rm: "a_remove 2 ex_tree = ex_tree_after"
    by (simp add: a_remove_def ex_tree_def ex_tree_after_def)
  from request_delete[OF assms, of 30 a] f rm show ?thesis by simp
qed

lemma ex_script:
  "\<exists>s. script ex_ops init = Some s \<and> all_idle s \<and> inv ex_tree_after s"
proof -
  from ex_script_inserts obtain s5 where
    5: "script ex_inserts init = Some s5" "all_idle s5" "inv ex_tree s5" by blast
  from ex_delete[OF 5(3,2), of 6] obtain s6 where
    6: "request MODE_DELETE 30 6 s5 = Some s6" "all_idle s6" "inv ex_tree_after s6" by blast
  from 5 6 show ?thesis by (simp add: ex_ops_def script_append)
qed

lemma inv_heap_eq:
  assumes "inv t s" "is_tree h r t" "dom h = addrs t"
  shows "heap s = h" "root s = r"
proof -
  have "tree_ok t (init\<lparr>heap := h, root := r\<rparr>)" using assms(2,3) by (simp add: tree_ok_def)
  moreover have "tree_ok t s" using assms(1) by (simp add: inv_def)
  ultimately show "heap s = h" "root s = r" using tree_ok_same_heap[of t "init\<lparr>heap := h, root := r\<rparr>" s]
    by simp_all
qed

subsection \<open>A deletion that finds nothing\<close>

lemma a_find_in: "a_find v t p = Some (q, x) \<Longrightarrow> v \<in> set (inorder t)"
  by (induction t arbitrary: p) (auto split: if_splits)

lemma find_node_absent: "v \<notin> set (inorder t) \<Longrightarrow> find_node v t = None"
  using a_find_in[of v t None] by (cases "a_find v t None") (auto simp: find_node_def)

lemma status_timer_keeps_pending [simp]:
  "delValuePending (status_timer s) = delValuePending s"
  by (simp add: status_timer_def Let_def)

lemma frame_machines_idle:
  assumes I: "inv t s" and A: "all_idle s"
  shows "frame_machines a s = Some (status_timer s)"
proof -
  from A have a: "insStage s = INS_IDLE" "delStage s = DEL_IDLE" "searchStage s = S_IDLE"
    by (simp_all add: all_idle_def)
  from inv_parts(5)[OF I] a have z: "insFinalizeTimer s = 0" by (simp add: ins_ok_def)
  have Iu: "inv t (status_timer s)" using I by simp
  from populate_inv[OF Iu] a z show ?thesis by (simp add: frame_machines_def)
qed

lemma absent_frame_step:
  assumes I: "inv t u" and N: "insStage u = INS_IDLE" "searchStage u = S_IDLE"
    and D: "delStage u = DEL_TRAVERSING \<and> delTargetNode u = None \<or> delStage u = DEL_IDLE"
    and R: "frame_machines a u = Some u'"
  shows "inv t u'" "insStage u' = INS_IDLE" "searchStage u' = S_IDLE"
    "heap u' = heap u" "root u' = root u" "delValuePending u' = delValuePending u"
    "delStage u' = DEL_TRAVERSING \<and> delTargetNode u' = None \<or> delStage u' = DEL_IDLE"
    "delStage u = DEL_TRAVERSING \<Longrightarrow> delStage u' = DEL_IDLE \<Longrightarrow>
       statusMessage u' = DeleteNotFound (delValuePending u)"
proof -
  have "inv t u' \<and> insStage u' = INS_IDLE \<and> searchStage u' = S_IDLE \<and>
    heap u' = heap u \<and> root u' = root u \<and> delValuePending u' = delValuePending u \<and>
    (delStage u' = DEL_TRAVERSING \<and> delTargetNode u' = None \<or> delStage u' = DEL_IDLE) \<and>
    (delStage u = DEL_TRAVERSING \<longrightarrow> delStage u' = DEL_IDLE \<longrightarrow>
       statusMessage u' = DeleteNotFound (delValuePending u))"
  proof (cases "delStage u = DEL_IDLE")
    case True
    with N have "all_idle u" by (simp add: all_idle_def)
    from frame_machines_idle[OF I this, of a] R have e: "u' = status_timer u" by simp
    from I N True show ?thesis unfolding e by simp
  next
    case False
    with D have St: "delStage u = DEL_TRAVERSING" and tn: "delTargetNode u = None" by auto
    from frame_machines_del_active[OF I False, of a] R
    have "map_option status_timer (delete_machine u) = Some u'" by simp
    then obtain s3 where dm: "delete_machine u = Some s3" and e: "u' = status_timer s3"
      by auto
    have I3: "inv t s3"
    proof (rule delete_machine_step_at[OF I False dm, where a = a])
      fix t'
      assume "inv t' s3" "t' = t \<and> heap s3 = heap u \<and> root s3 = root u \<or> del_commit t u t' s3"
      with St show ?thesis by (auto simp: del_commit_def)
    qed
    show ?thesis
    proof (cases rule: delete_machine_traversing[OF St])
      case 1
      with dm have s3: "s3 = u\<lparr>delFramesCounter := delFramesCounter u + 1\<rparr>" by simp
      from I3 N St tn show ?thesis unfolding e by (simp add: s3)
    next
      case 2
      with dm have s3: "s3 = u\<lparr>delFramesCounter := 0,
        delTraversalIndex := delTraversalIndex u + 1\<rparr>" by simp
      from I3 N St tn show ?thesis unfolding e by (simp add: s3)
    next
      case 3
      with dm have s3: "s3 = u\<lparr>delFramesCounter := 0,
                 statusMessage := DeleteNotFound (delValuePending u), statusTimer := 120,
                 delStage := DEL_IDLE, delTraversalPath := [], delTraversalIndex := 0\<rparr>"
        by simp
      have "statusMessage (status_timer s3) = DeleteNotFound (delValuePending u)"
        by (simp add: s3 status_timer_def)
      with I3 N St tn show ?thesis unfolding e by (simp add: s3)
    next
      case 4
      with tn show ?thesis by simp
    qed
  qed
  then show "inv t u'" "insStage u' = INS_IDLE" "searchStage u' = S_IDLE"
    "heap u' = heap u" "root u' = root u" "delValuePending u' = delValuePending u"
    "delStage u' = DEL_TRAVERSING \<and> delTargetNode u' = None \<or> delStage u' = DEL_IDLE"
    "delStage u = DEL_TRAVERSING \<Longrightarrow> delStage u' = DEL_IDLE \<Longrightarrow>
       statusMessage u' = DeleteNotFound (delValuePending u)"
    by blast+
qed

lemma absent_run:
  assumes "inv t u" and "insStage u = INS_IDLE" "searchStage u = S_IDLE"
    and "delStage u = DEL_TRAVERSING \<and> delTargetNode u = None \<or> delStage u = DEL_IDLE"
    and "run (replicate n \<lparr>cmd = None, alloc = a\<rparr>) u = Some u'"
  shows "heap u' = heap u \<and> root u' = root u"
  using assms
proof (induction n arbitrary: u)
  case 0
  then show ?case by simp
next
  case (Suc n)
  from Suc.prems(5) obtain u1 where t: "frame_machines a u = Some u1"
    and r: "run (replicate n \<lparr>cmd = None, alloc = a\<rparr>) u1 = Some u'"
    by (auto simp: tick_no_command split: option.splits)
  note st = absent_frame_step[OF Suc.prems(1-4) t]
  from Suc.IH[OF st(1,2,3,7) r] st(4,5) show ?case by simp
qed

lemma delete_absent_start:
  assumes I: "inv t s" and A: "all_idle s" and V: "v \<notin> set (inorder t)"
  shows "handle_enter (Some (MODE_DELETE, v)) s =
     Some (s\<lparr>delTraversalPath := del_path v t, delTraversalIndex := 0,
             delFramesCounter := 0, delStage := DEL_TRAVERSING,
             delTargetParent := find_parent v t, delTargetNode := None,
             successorParent := None, successorNode := None, animNode := None,
             animReplaceNode := None, animProgress := 0, delValuePending := v\<rparr>)"
  using A find_node_absent[OF V]
  by (simp add: handle_enter_def all_idle_def StartDeletion_tree[OF inv_parts(1)[OF I]])

lemma request_delete_absent:
  assumes I: "inv t s" and A: "all_idle s" and V: "v \<notin> set (inorder t)"
  shows "\<exists>s'. request MODE_DELETE v a s = Some s' \<and> all_idle s' \<and> inv t s' \<and>
     statusMessage s' = DeleteNotFound v"
proof -
  let ?s1 = "s\<lparr>delTraversalPath := del_path v t, delTraversalIndex := 0,
             delFramesCounter := 0, delStage := DEL_TRAVERSING,
             delTargetParent := find_parent v t, delTargetNode := None,
             successorParent := None, successorNode := None, animNode := None,
             animReplaceNode := None, animProgress := 0, delValuePending := v\<rparr>"
  let ?J = "\<lambda>u. insStage u = INS_IDLE \<and> searchStage u = S_IDLE \<and> delValuePending u = v \<and>
     (delStage u = DEL_TRAVERSING \<and> delTargetNode u = None \<or>
      delStage u = DEL_IDLE \<and> statusMessage u = DeleteNotFound v)"
  note H = delete_absent_start[OF I A V]
  from handle_enter_inv[OF I, of "Some (MODE_DELETE, v)"] H have I1: "inv t ?s1" by simp
  have N: "\<not> all_idle ?s1" by (simp add: all_idle_def)
  from A have J1: "?J ?s1" by (simp add: all_idle_def)
  from A have F: "insStage ?s1 = INS_TRAVERSING \<longrightarrow> a \<notin> addrs t" by (simp add: all_idle_def)
  from A have G: "goal a t ?s1 = t" by (simp add: goal_def all_idle_def)
  have step: "?J u'" if iu: "inv t' u" and ju: "?J u" and nu: "\<not> all_idle u"
    and fu: "frame_machines a u = Some u'" for t' u u'
  proof -
    from ju nu have St: "delStage u = DEL_TRAVERSING" and tn: "delTargetNode u = None"
      by (auto simp: all_idle_def)
    from ju have n: "insStage u = INS_IDLE" "searchStage u = S_IDLE" "delValuePending u = v"
      by blast+
    from St tn have d: "delStage u = DEL_TRAVERSING \<and> delTargetNode u = None \<or>
      delStage u = DEL_IDLE" by simp
    note st = absent_frame_step[OF iu n(1,2) d fu]
    from st(2,3,6,7) st(8)[OF St] n(3) show ?thesis by auto
  qed
  have "\<exists>s'. request MODE_DELETE v a s = Some s' \<and> all_idle s' \<and> inv (goal a t ?s1) s' \<and>
      ?J s'"
  proof (rule request_rule[of MODE_DELETE v s ?s1 t a ?J, OF H I1 F J1 N])
    fix t' u u'
    assume "inv t' u" "?J u" "\<not> all_idle u" "frame_machines a u = Some u'"
    then show "?J u'" by (rule step)
  qed
  then obtain s' where r: "request MODE_DELETE v a s = Some s'" "all_idle s'"
    "inv (goal a t ?s1) s'" "?J s'" by blast
  from r(2,4) have "statusMessage s' = DeleteNotFound v" by (auto simp: all_idle_def)
  with r(1,2,3) G show ?thesis by simp
qed

subsection \<open>A search that finds its value\<close>

lemma status_timer_keeps_search [simp]:
  "searchPath (status_timer s) = searchPath s" "searchIndex (status_timer s) = searchIndex s"
  "searchFrames (status_timer s) = searchFrames s" "flashCount (status_timer s) = flashCount s"
  "searchFinalNode (status_timer s) = searchFinalNode s"
  "searchValuePending (status_timer s) = searchValuePending s"
  by (simp_all add: status_timer_def Let_def)

lemma status_timer_running:
  "1 < statusTimer s \<Longrightarrow> statusTimer (status_timer s) = statusTimer s - 1"
  "1 < statusTimer s \<Longrightarrow> statusMessage (status_timer s) = statusMessage s"
  by (simp_all add: status_timer_def Let_def)

lemma search_machine_keeps_pending [simp]:
  "searchValuePending (search_machine s) = searchValuePending s"
  by (subst search_machine_shape) simp

lemma frame_machines_search:
  assumes I: "inv t s" and N: "insStage s = INS_IDLE" "delStage s = DEL_IDLE"
  shows "frame_machines a s = Some (status_timer (search_machine s))"
proof -
  from inv_parts(5)[OF I] N have z: "insFinalizeTimer s = 0" by (simp add: ins_ok_def)
  have Iu: "inv t (status_timer (search_machine s))" using search_machine_inv[OF I] by simp
  from populate_inv[OF Iu] N z show ?thesis by (simp add: frame_machines_def)
qed

lemma search_traversing_frame:
  assumes "searchStage u = S_TRAVERSING" "insStage u = INS_IDLE" "delStage u = DEL_IDLE"
    and "searchPath u \<noteq> []" "searchFinalNode u \<noteq> None" "flashCount u = 0"
  shows "searchStage (search_machine u) = S_TRAVERSING \<and>
           searchPath (search_machine u) = searchPath u \<and>
           searchFinalNode (search_machine u) = searchFinalNode u \<and>
           flashCount (search_machine u) = 0 \<or>
         searchStage (search_machine u) = S_FLASH_FOUND \<and> flashCount (search_machine u) = 0 \<and>
           searchFrames (search_machine u) = 0 \<and>
           statusMessage (search_machine u) = Found (searchValuePending u) \<and>
           statusTimer (search_machine u) = 120"
  using assms by (simp add: search_machine_def Let_def)

lemma search_flash_frame:
  assumes "searchStage u = S_FLASH_FOUND" "0 \<le> flashCount u" "flashCount u < 6"
    "0 \<le> searchFrames u" "searchFrames u < 12"
  shows "statusMessage (search_machine u) = statusMessage u \<and>
         statusTimer (search_machine u) = statusTimer u \<and>
         (searchStage (search_machine u) = S_FLASH_FOUND \<and>
            0 \<le> flashCount (search_machine u) \<and> flashCount (search_machine u) < 6 \<and>
            0 \<le> searchFrames (search_machine u) \<and> searchFrames (search_machine u) < 12 \<and>
            12 * flashCount (search_machine u) + searchFrames (search_machine u) =
              12 * flashCount u + searchFrames u + 1 \<or>
          searchStage (search_machine u) = S_IDLE)"
  using assms by (simp add: search_machine_def search_flash_def FLASH_FRAMES_def Let_def)

lemma request_search_found:
  assumes I: "inv t s" and A: "all_idle s" and V: "find_node v t \<noteq> None"
  shows "\<exists>s'. request MODE_SEARCH v a s = Some s' \<and> all_idle s' \<and> inv t s' \<and>
     statusMessage s' = Found v"
proof -
  note T = inv_parts(1)[OF I]
  let ?s1 = "s\<lparr>searchPath := del_path v t, searchIndex := 0, searchFrames := 0,
             flashCount := 0, searchFinalNode := find_node v t,
             searchStage := S_TRAVERSING, searchValuePending := v\<rparr>"
  let ?J = "\<lambda>u. insStage u = INS_IDLE \<and> delStage u = DEL_IDLE \<and> searchValuePending u = v \<and>
     (searchStage u = S_TRAVERSING \<and> searchPath u \<noteq> [] \<and> searchFinalNode u \<noteq> None \<and>
        flashCount u = 0 \<or>
      searchStage u = S_FLASH_FOUND \<and> 0 \<le> flashCount u \<and> flashCount u < 6 \<and>
        0 \<le> searchFrames u \<and> searchFrames u < 12 \<and> statusMessage u = Found v \<and>
        statusTimer u + 12 * flashCount u + searchFrames u = 119 \<or>
      searchStage u = S_IDLE \<and> statusMessage u = Found v)"
  from A have H: "handle_enter (Some (MODE_SEARCH, v)) s = Some ?s1"
    by (simp add: handle_enter_def all_idle_def StartSearch_tree[OF T])
  from handle_enter_inv[OF I, of "Some (MODE_SEARCH, v)"] H have I1: "inv t ?s1" by simp
  have N: "\<not> all_idle ?s1" by (simp add: all_idle_def)
  from V have pne: "del_path v t \<noteq> []" by (cases t) (auto simp: find_node_def)
  from A V pne have J1: "?J ?s1" by (simp add: all_idle_def)
  from A have F: "insStage ?s1 = INS_TRAVERSING \<longrightarrow> a \<notin> addrs t" by (simp add: all_idle_def)
  from A have G: "goal a t ?s1 = t" by (simp add: goal_def all_idle_def)
  have step: "?J u'" if iu: "inv t' u" and ju: "?J u" and nu: "\<not> all_idle u"
    and fu: "frame_machines a u = Some u'" for t' u u'
  proof -
    from ju have n: "insStage u = INS_IDLE" "delStage u = DEL_IDLE" "searchValuePending u = v"
      by blast+
    from frame_machines_search[OF iu n(1,2), of a] fu
    have e: "u' = status_timer (search_machine u)" by simp
    have k: "insStage u' = INS_IDLE" "delStage u' = DEL_IDLE" "searchValuePending u' = v"
      unfolding e using n by simp_all
    from ju nu n consider
      (trav) "searchStage u = S_TRAVERSING" "searchPath u \<noteq> []" "searchFinalNode u \<noteq> None"
        "flashCount u = 0"
      | (flash) "searchStage u = S_FLASH_FOUND" "0 \<le> flashCount u" "flashCount u < 6"
        "0 \<le> searchFrames u" "searchFrames u < 12" "statusMessage u = Found v"
        "statusTimer u + 12 * flashCount u + searchFrames u = 119"
      by (auto simp: all_idle_def)
    then show ?thesis
    proof cases
      case trav
      let ?m = "search_machine u"
      from search_traversing_frame[OF trav(1) n(1,2) trav(2,3,4)] consider
        (a) "searchStage ?m = S_TRAVERSING" "searchPath ?m = searchPath u"
          "searchFinalNode ?m = searchFinalNode u" "flashCount ?m = 0"
        | (b) "searchStage ?m = S_FLASH_FOUND" "flashCount ?m = 0" "searchFrames ?m = 0"
          "statusMessage ?m = Found (searchValuePending u)" "statusTimer ?m = 120"
        by blast
      then show ?thesis
      proof cases
        case a
        with trav k show ?thesis unfolding e by simp
      next
        case b
        from b(5) have "1 < statusTimer ?m" by simp
        from status_timer_running[OF this] b n(3) k show ?thesis unfolding e by simp
      qed
    next
      case flash
      let ?m = "search_machine u"
      from flash(2-5,7) have pos: "48 \<le> statusTimer u" by simp
      from search_flash_frame[OF flash(1-5)] have
        m: "statusMessage ?m = statusMessage u" "statusTimer ?m = statusTimer u"
        and d: "searchStage ?m = S_FLASH_FOUND \<and>
            0 \<le> flashCount ?m \<and> flashCount ?m < 6 \<and>
            0 \<le> searchFrames ?m \<and> searchFrames ?m < 12 \<and>
            12 * flashCount ?m + searchFrames ?m = 12 * flashCount u + searchFrames u + 1 \<or>
          searchStage ?m = S_IDLE" by blast+
      from pos m(2) have "1 < statusTimer ?m" by simp
      note st = status_timer_running[OF this]
      from d show ?thesis
      proof
        assume f: "searchStage ?m = S_FLASH_FOUND \<and>
            0 \<le> flashCount ?m \<and> flashCount ?m < 6 \<and>
            0 \<le> searchFrames ?m \<and> searchFrames ?m < 12 \<and>
            12 * flashCount ?m + searchFrames ?m = 12 * flashCount u + searchFrames u + 1"
        with st m flash(6,7) k show ?thesis unfolding e by simp
      next
        assume "searchStage ?m = S_IDLE"
        with st m flash(6) k show ?thesis unfolding e by simp
      qed
    qed
  qed
  have "\<exists>s'. request MODE_SEARCH v a s = Some s' \<and> all_idle s' \<and> inv (goal a t ?s1) s' \<and>
      ?J s'"
  proof (rule request_rule[of MODE_SEARCH v s ?s1 t a ?J, OF H I1 F J1 N])
    fix t' u u'
    assume "inv t' u" "?J u" "\<not> all_idle u" "frame_machines a u = Some u'"
    then show "?J u'" by (rule step)
  qed
  then obtain s' where r: "request MODE_SEARCH v a s = Some s'" "all_idle s'"
    "inv (goal a t ?s1) s'" "?J s'" by blast
  from r(2,4) have "statusMessage s' = Found v" by (auto simp: all_idle_def)
  with r(1,2,3) G show ?thesis by simp
qed

subsection \<open>The commits, step by step\<close>

lemma commit_move_successor_steps:
  assumes T: "is_tree h (Some x) (Nd l x v r)" and lm: "a_leftmost x r = Some (sp, s, m)"
  obtains xn sn spn where "h x = Some xn" "h s = Some sn" "h sp = Some spn"
    "val sn = m" "left sn = None" "right sn \<noteq> Some s" "s \<noteq> x" "s \<noteq> sp" "s \<in> addrs r"
    "sp = x \<or> sp \<in> addrs r"
    "if sp = x then right xn = Some s \<and> left xn \<noteq> Some s else left spn = Some s"
    "copy_successor_value h (Some x) (Some s) = Some (h(x \<mapsto> xn\<lparr>val := m\<rparr>))"
    "unlink_successor (h(x \<mapsto> xn\<lparr>val := m\<rparr>)) (Some sp) (Some s) =
       Some (if sp = x then h(x \<mapsto> xn\<lparr>val := m, right := right sn\<rparr>)
             else h(x \<mapsto> xn\<lparr>val := m\<rparr>, sp \<mapsto> spn\<lparr>left := right sn\<rparr>))"
proof -
  from T obtain xn where xn: "h x = Some xn" "val xn = v" "is_tree h (left xn) l"
    "is_tree h (right xn) r" "x \<notin> addrs l" "x \<notin> addrs r" "addrs l \<inter> addrs r = {}"
    by auto
  from lm obtain rl ra rv rr where r: "r = Nd rl ra rv rr" by (cases r) auto
  from xn(4) r obtain rn where rn: "right xn = Some ra" "h ra = Some rn" "val rn = rv"
    "is_tree h (left rn) rl" "is_tree h (right rn) rr" "ra \<notin> addrs rl" "ra \<notin> addrs rr"
    "addrs rl \<inter> addrs rr = {}"
    by auto
  have sr: "s \<in> addrs r" using a_leftmost_in[OF lm] .
  have sx: "s \<noteq> x" "s \<notin> addrs l" using sr xn by auto
  show thesis
  proof (cases rl)
    case Tip
    with lm r have e: "sp = x" "s = ra" "m = rv" by auto
    have lx: "left xn \<noteq> Some ra" using is_tree_root_addr[OF xn(3)] sx e by (cases l) auto
    have rr: "right rn \<noteq> Some ra" using is_tree_root_addr[OF rn(5)] rn(7) by (cases rr) auto
    have ln: "left rn = None" using rn(4) Tip by simp
    have c: "copy_successor_value h (Some x) (Some s) = Some (h(x \<mapsto> xn\<lparr>val := m\<rparr>))"
      using xn rn e by (simp add: copy_successor_value_def deref_def set_val_def)
    have u: "unlink_successor (h(x \<mapsto> xn\<lparr>val := m\<rparr>)) (Some sp) (Some s) =
       Some (if sp = x then h(x \<mapsto> xn\<lparr>val := m, right := right rn\<rparr>)
             else h(x \<mapsto> xn\<lparr>val := m\<rparr>, sp \<mapsto> xn\<lparr>left := right rn\<rparr>))"
      using xn rn e sx lx
      by (simp add: unlink_successor_def deref_def set_left_def set_right_def)
    show ?thesis
      by (rule that[of xn rn xn]) (use xn rn e sx lx rr ln sr c u in simp_all)
  next
    case (Nd rll rla rlv rlr)
    then have rlne: "rl \<noteq> Tip" by simp
    from del_min_slot[OF xn(4)[unfolded r] rlne lm[unfolded r]] obtain pn sn where
      ps: "h sp = Some pn" "left pn = Some s" "h s = Some sn" "val sn = m" "left sn = None"
        "sp \<in> addrs r" "sp \<noteq> s" "right sn \<noteq> Some s"
      unfolding r by blast
    have spx: "sp \<noteq> x" using ps(6) xn by auto
    have c: "copy_successor_value h (Some x) (Some s) = Some (h(x \<mapsto> xn\<lparr>val := m\<rparr>))"
      using xn ps by (simp add: copy_successor_value_def deref_def set_val_def)
    have u: "unlink_successor (h(x \<mapsto> xn\<lparr>val := m\<rparr>)) (Some sp) (Some s) =
       Some (if sp = x then h(x \<mapsto> xn\<lparr>val := m, right := right sn\<rparr>)
             else h(x \<mapsto> xn\<lparr>val := m\<rparr>, sp \<mapsto> pn\<lparr>left := right sn\<rparr>))"
      using xn ps spx sx
      by (simp add: unlink_successor_def deref_def set_left_def set_right_def)
    show ?thesis
      by (rule that[of xn sn pn]) (use xn ps spx sx sr c u in simp_all)
  qed
qed

lemma del_move_successor_commit:
  assumes "del_move_successor s = Some s3" "1 \<le> animProgress s + 1 / 24"
  shows "commit_move_successor (heap s) (delTargetNode s) (successorParent s) (successorNode s)
           = Some (heap s3)" "root s3 = root s"
  using assms
  by (auto simp: del_move_successor_def Let_def animDuration_def split: bind_splits if_splits)

lemma del_move_child_up_commit:
  assumes "del_move_child_up s = Some s3" "1 \<le> animProgress s + 1 / 24"
  shows "commit_move_child_up (heap s) (root s) (delTargetParent s) (delTargetNode s)
           = Some (heap s3, root s3)"
  using assms
  by (auto simp: del_move_child_up_def Let_def animDuration_def split: bind_splits if_splits)

lemma del_shrink_remove_commit:
  assumes "del_shrink_remove s = Some s3" "1 \<le> animProgress s + 1 / 16" "animNode s \<noteq> None"
  shows "commit_shrink_remove (heap s) (root s) (delTargetParent s) (animNode s)
           = Some (heap s3, root s3)"
  using assms
  by (auto simp: del_shrink_remove_def Let_def animDuration_def split: bind_splits if_splits)

subsection \<open>The frames of the two-child branch\<close>

lemma ex_heap_commit:
  "(ex_heap(2 \<mapsto> \<lparr>val = 40, left = Some 4, right = None\<rparr>))(5 := None) = ex_heap_after"
  by (rule ext) (simp add: ex_heap_def ex_heap_after_def)

lemma inv_ex_moving: "inv ex_tree ex_moving"
proof -
  have "tree_ok ex_tree ex_moving"
    using ex_tree_ok
    by (simp add: tree_ok_def ex_moving_def ex_highlight_def ex_highlight_successor_def)
  moreover have "excl ex_moving" "ins_ok ex_tree ex_moving"
    by (simp_all add: excl_def ins_ok_def ex_moving_def ex_highlight_def
        ex_highlight_successor_def init_def)
  moreover have "del_ok ex_tree ex_moving"
    by (simp add: del_ok_def found_ok_def find_node_def find_parent_def ex_highlight_def
        target_sub_def ex_moving_def ex_highlight_successor_def ex_tree_def init_def)
  ultimately show ?thesis using ex_tree_ok(3) by (simp add: inv_def)
qed

lemma ex_moving_tick: "tick \<lparr>cmd = None, alloc = 6\<rparr> ex_moving = Some ex_committed"
proof -
  have h: "ex_heap 2 = Some \<lparr>val = 30, left = Some 4, right = Some 5\<rparr>"
    "ex_heap 5 = Some \<lparr>val = 40, left = None, right = None\<rparr>"
    by (simp_all add: ex_heap_def)
  show ?thesis
    by (simp add: tick_def handle_enter_def frame_machines_def insert_machine_def
        delete_machine_def del_move_successor_def commit_move_successor_def
        copy_successor_value_def unlink_successor_def DeleteNodePointer_def deref_def
        set_val_def set_right_def set_left_def search_machine_def finalize_timer_def
        status_timer_def draw_populate_def post_populate_def animDuration_def
        ex_committed_def ex_moving_def ex_highlight_successor_def ex_highlight_def h
        ex_heap_commit Let_def init_def)
qed

lemma status_timer_keeps_progress [simp]:
  "animProgress (status_timer s) = animProgress s"
  by (simp add: status_timer_def Let_def)

lemma tick_move_successor:
  assumes I: "inv t s" and St: "delStage s = DEL_MOVE_SUCCESSOR" and R: "tick i s = Some s'"
  shows "\<exists>x n. delTargetNode s = Some x \<and> heap s x = Some n \<and> left n \<noteq> None \<and>
      right n \<noteq> None \<and>
      FindInorderSuccessor (heap s) (Some x) = Some (successorParent s, successorNode s) \<and>
      (if animProgress s + 1 / 24 < 1
       then heap s' = heap s \<and> root s' = root s \<and> delStage s' = DEL_MOVE_SUCCESSOR
       else commit_move_successor (heap s) (Some x) (successorParent s) (successorNode s) =
              Some (heap s') \<and> root s' = root s \<and> delStage s' = DEL_FINALIZE \<and>
            animProgress s' = 1)"
proof -
  from St have A: "delStage s \<noteq> DEL_IDLE" "delStage s \<noteq> DEL_FINALIZE" by simp_all
  from inv_parts(6)[OF I] St obtain x where X: "delTargetNode s = Some x"
    by (auto simp: del_ok_def)
  obtain l r xn where tf: "heap s x = Some xn" "left xn = root_addr l" "right xn = root_addr r"
    "is_tree (heap s) (Some x) (Nd l x (delValuePending s) r)"
    "target_sub t s = Nd l x (delValuePending s) r"
    by (rule target_facts[OF I A X]) blast
  from inv_parts(6)[OF I] St have k: "kids (target_sub t s) = 2"
    "(successorParent s, successorNode s) = successor_of (target_sub t s)"
    by (simp_all add: del_ok_def)
  from k(1) tf(5) have two: "l \<noteq> Tip" "r \<noteq> Tip" by (auto split: if_splits)
  then obtain sp sn m where lm: "a_leftmost x r = Some (sp, sn, m)"
    using a_leftmost_Some[of r x] by blast
  with k(2) tf(5) have sc: "successorNode s = Some sn" "successorParent s = Some sp" by simp_all
  from FindInorderSuccessor_tree[OF tf(4) two(2)] lm sc
  have fs: "FindInorderSuccessor (heap s) (Some x) = Some (successorParent s, successorNode s)"
    by simp
  from two tf(2,3) have lr: "left xn \<noteq> None" "right xn \<noteq> None" by simp_all
  obtain m' n' s3 where s1: "inv t (s\<lparr>statusMessage := m', statusTimer := n'\<rparr>)"
    "delete_machine (s\<lparr>statusMessage := m', statusTimer := n'\<rparr>) = Some s3"
    "s' = status_timer s3"
    by (rule tick_del_active[OF I A(1) R])
  let ?s1 = "s\<lparr>statusMessage := m', statusTimer := n'\<rparr>"
  have St1: "delStage ?s1 = DEL_MOVE_SUCCESSOR" using St by simp
  have step: "if animProgress s + 1 / 24 < 1
       then heap s' = heap s \<and> root s' = root s \<and> delStage s' = DEL_MOVE_SUCCESSOR
       else commit_move_successor (heap s) (Some x) (successorParent s) (successorNode s) =
              Some (heap s') \<and> root s' = root s \<and> delStage s' = DEL_FINALIZE \<and>
            animProgress s' = 1"
  proof (cases rule: delete_machine_move_successor[OF s1(1) St1])
    case 1
    with s1(2,3) St show ?thesis by auto
  next
    case (2 y h')
    from 2(1) have ge: "\<not> animProgress s + 1 / 24 < 1" "1 \<le> animProgress ?s1 + 1 / 24"
      by simp_all
    from s1(2) St have dm: "del_move_successor ?s1 = Some s3" by (simp add: delete_machine_def)
    from del_move_successor_commit[OF dm ge(2)] X
    have c: "commit_move_successor (heap s) (Some x) (successorParent s) (successorNode s) =
      Some (heap s3)" "root s3 = root s" by simp_all
    from 2(4) s1(2) have "delStage s3 = DEL_FINALIZE" "animProgress s3 = 1" by auto
    with c ge(1) s1(3) show ?thesis by simp
  qed
  from X tf(1) lr fs step show ?thesis by blast
qed

subsection \<open>Each commit is one structural edit\<close>

lemma same_links_refl [simp]: "same_links h h"
  by (simp add: same_links_def)

lemma one_edit_root: "r' \<noteq> rt \<Longrightarrow> one_edit h rt (h(y := None)) r' y"
  by (simp add: one_edit_def)

lemma one_edit_slot:
  assumes "h p = Some pn" "p \<noteq> y"
    and "(left pn = Some y \<and> right pn \<noteq> Some y) \<or> (left pn \<noteq> Some y \<and> right pn = Some y)"
    and "c \<noteq> Some y"
  shows "one_edit h rt
    ((h(p \<mapsto> (if left pn = Some y then pn\<lparr>left := c\<rparr> else pn\<lparr>right := c\<rparr>)))(y := None)) rt y"
proof (cases "left pn = Some y")
  case True
  with assms(1,2,4) have "\<exists>q n c'. q \<noteq> y \<and> h q = Some n \<and> c' \<noteq> left n \<and>
      same_links ((h(p \<mapsto> pn\<lparr>left := c\<rparr>))(y := None)) ((h(q \<mapsto> n\<lparr>left := c'\<rparr>))(y := None))"
    by (intro exI[of _ p] exI[of _ pn] exI[of _ c]) simp
  moreover from True
  have "(if left pn = Some y then pn\<lparr>left := c\<rparr> else pn\<lparr>right := c\<rparr>) = pn\<lparr>left := c\<rparr>"
    by simp
  ultimately show ?thesis unfolding one_edit_def by (simp only:) blast
next
  case False
  with assms(3) have r: "right pn = Some y" by simp
  with assms(1,2,4) have "\<exists>q n c'. q \<noteq> y \<and> h q = Some n \<and> c' \<noteq> right n \<and>
      same_links ((h(p \<mapsto> pn\<lparr>right := c\<rparr>))(y := None)) ((h(q \<mapsto> n\<lparr>right := c'\<rparr>))(y := None))"
    by (intro exI[of _ p] exI[of _ pn] exI[of _ c]) simp
  moreover from False
  have "(if left pn = Some y then pn\<lparr>left := c\<rparr> else pn\<lparr>right := c\<rparr>) = pn\<lparr>right := c\<rparr>"
    by simp
  ultimately show ?thesis unfolding one_edit_def by (simp only:) blast
qed

lemma commit_shrink_remove_edit:
  assumes T: "is_tree h rt t" and X: "x \<in> addrs t" and S: "subtree x t = Nd Tip x v Tip"
    and C: "commit_shrink_remove h rt (a_parent x t) (Some x) = Some (h', r')"
  shows "one_edit h rt h' r' x"
proof -
  from subtree_is_tree[OF T X] S obtain xn where xn: "h x = Some xn" "left xn = None"
    "right xn = None"
    by auto
  show ?thesis
  proof (cases "a_parent x t")
    case None
    from a_parent_None_root[OF X None] have rx: "root_addr t = Some x" .
    have "rt = Some x" using is_tree_root_addr[OF T] rx by simp
    then have "commit_shrink_remove h rt None (Some x) = Some (h(x := None), None)"
      using xn by (simp add: commit_shrink_remove_def DeleteNodePointer_def)
    with C None have e: "h' = h(x := None)" "r' = None" by simp_all
    from \<open>rt = Some x\<close> show ?thesis unfolding e by (intro one_edit_root) simp
  next
    case (Some p)
    from a_parent_slot[OF T Some] obtain pn where pn: "h p = Some pn" "x \<noteq> p"
      "(left pn = Some x \<and> right pn \<noteq> Some x) \<or> (left pn \<noteq> Some x \<and> right pn = Some x)"
      by blast
    let ?h1 = "h(p \<mapsto> (if left pn = Some x then pn\<lparr>left := None\<rparr> else pn\<lparr>right := None\<rparr>))"
    have cm: "commit_shrink_remove h rt (Some p) (Some x) = Some (?h1(x := None), rt)"
      using xn pn
      by (auto simp: commit_shrink_remove_def DeleteNodePointer_def set_left_def set_right_def)
    with C Some have e: "h' = ?h1(x := None)" "r' = rt" by simp_all
    from pn(2) have px: "p \<noteq> x" by simp
    show ?thesis unfolding e by (rule one_edit_slot[of h p pn x None rt, OF pn(1) px pn(3)]) simp
  qed
qed

lemma commit_move_child_up_edit:
  assumes T: "is_tree h rt t" and X: "x \<in> addrs t" and S: "subtree x t = Nd l x v r"
    and C: "commit_move_child_up h rt (a_parent x t) (Some x) = Some (h', r')"
  shows "one_edit h rt h' r' x"
proof -
  from subtree_is_tree[OF T X] S obtain xn where xn: "h x = Some xn" "is_tree h (left xn) l"
    "is_tree h (right xn) r" "x \<notin> addrs l" "x \<notin> addrs r"
    by auto
  let ?c = "if left xn \<noteq> None then left xn else right xn"
  have lx: "left xn \<noteq> Some x" using is_tree_root_addr[OF xn(2)] xn(4) by (cases l) auto
  have rx: "right xn \<noteq> Some x" using is_tree_root_addr[OF xn(3)] xn(5) by (cases r) auto
  from lx rx have cx: "?c \<noteq> Some x" by simp
  show ?thesis
  proof (cases "a_parent x t")
    case None
    from a_parent_None_root[OF X None] have "root_addr t = Some x" .
    then have rt: "rt = Some x" using is_tree_root_addr[OF T] by simp
    have "commit_move_child_up h rt None (Some x) = Some (h(x := None), ?c)"
      using xn by (simp add: commit_move_child_up_def deref_def DeleteNodePointer_def)
    with C None have e: "h' = h(x := None)" "r' = ?c" by simp_all
    from cx rt show ?thesis unfolding e by (intro one_edit_root) simp
  next
    case (Some p)
    from a_parent_slot[OF T Some] obtain pn where pn: "h p = Some pn" "x \<noteq> p"
      "(left pn = Some x \<and> right pn \<noteq> Some x) \<or> (left pn \<noteq> Some x \<and> right pn = Some x)"
      by blast
    let ?h1 = "h(p \<mapsto> (if left pn = Some x then pn\<lparr>left := ?c\<rparr> else pn\<lparr>right := ?c\<rparr>))"
    have cm: "commit_move_child_up h rt (Some p) (Some x) = Some (?h1(x := None), rt)"
      using xn pn
      by (auto simp: commit_move_child_up_def deref_def DeleteNodePointer_def set_left_def
          set_right_def)
    with C Some have e: "h' = ?h1(x := None)" "r' = rt" by simp_all
    from pn(2) have px: "p \<noteq> x" by simp
    show ?thesis unfolding e by (rule one_edit_slot[of h p pn x ?c rt, OF pn(1) px pn(3) cx])
  qed
qed

lemma commit_move_successor_edit:
  assumes S: "is_tree h (Some x) (Nd l x v r)" and lm: "a_leftmost x r = Some (sp, s, m)"
    and C: "commit_move_successor h (Some x) (Some sp) (Some s) = Some h'"
  shows "one_edit h rt h' rt s"
proof (rule commit_move_successor_steps[OF S lm])
  fix xn sn spn
  assume a: "h x = Some xn" "h s = Some sn" "h sp = Some spn"
    "val sn = m" "left sn = None" "right sn \<noteq> Some s" "s \<noteq> x" "s \<noteq> sp" "s \<in> addrs r"
    "sp = x \<or> sp \<in> addrs r"
    "if sp = x then right xn = Some s \<and> left xn \<noteq> Some s else left spn = Some s"
    "copy_successor_value h (Some x) (Some s) = Some (h(x \<mapsto> xn\<lparr>val := m\<rparr>))"
    "unlink_successor (h(x \<mapsto> xn\<lparr>val := m\<rparr>)) (Some sp) (Some s) =
       Some (if sp = x then h(x \<mapsto> xn\<lparr>val := m, right := right sn\<rparr>)
             else h(x \<mapsto> xn\<lparr>val := m\<rparr>, sp \<mapsto> spn\<lparr>left := right sn\<rparr>))"
  show ?thesis
  proof (cases "sp = x")
    case True
    with a C have e: "h' = (h(x \<mapsto> xn\<lparr>val := m, right := right sn\<rparr>))(s := None)"
      by (simp add: commit_move_successor_def DeleteNodePointer_def)
    from True a(11) have rs: "right xn = Some s" by simp
    have "same_links h' ((h(x \<mapsto> xn\<lparr>right := right sn\<rparr>))(s := None))"
      unfolding e by (simp add: same_links_def)
    with a(1,6,7) rs have "\<exists>p n c. p \<noteq> s \<and> h p = Some n \<and> c \<noteq> right n \<and>
        same_links h' ((h(p \<mapsto> n\<lparr>right := c\<rparr>))(s := None))"
      by (intro exI[of _ x] exI[of _ xn] exI[of _ "right sn"]) auto
    then show ?thesis by (simp add: one_edit_def)
  next
    case False
    with a C have e: "h' = (h(x \<mapsto> xn\<lparr>val := m\<rparr>, sp \<mapsto> spn\<lparr>left := right sn\<rparr>))(s := None)"
      by (simp add: commit_move_successor_def DeleteNodePointer_def)
    from False a(11) have ls: "left spn = Some s" by simp
    have "same_links h' ((h(sp \<mapsto> spn\<lparr>left := right sn\<rparr>))(s := None))"
      unfolding e using a(1) by (simp add: same_links_def)
    with a(3,6,8) ls have "\<exists>p n c. p \<noteq> s \<and> h p = Some n \<and> c \<noteq> left n \<and>
        same_links h' ((h(p \<mapsto> n\<lparr>left := c\<rparr>))(s := None))"
      by (intro exI[of _ sp] exI[of _ spn] exI[of _ "right sn"]) auto
    then show ?thesis by (simp add: one_edit_def)
  qed
qed

subsection \<open>A deletion that finds its target\<close>

lemma tree_heap_unique:
  assumes "is_tree h r t" "dom h = addrs t" "is_tree h' r' t" "dom h' = addrs t"
  shows "h' = h" "r' = r"
proof -
  from is_tree_same_tree[OF assms(1,3)] show "r' = r" by simp
  show "h' = h"
  proof
    fix a
    show "h' a = h a"
    proof (cases "a \<in> addrs t")
      case True
      with is_tree_same_tree[OF assms(1,3)] show ?thesis by simp
    next
      case False
      with assms(2,4) have "a \<notin> dom h" "a \<notin> dom h'" by simp_all
      then show ?thesis by (simp add: domIff)
    qed
  qed
qed

lemma remove_is_one_edit:
  assumes T: "is_tree h rt t" and D: "dom h = addrs t" and X: "x \<in> addrs t"
    and T': "is_tree h' r' (a_remove x t)" and D': "dom h' = addrs (a_remove x t)"
  shows "\<exists>y. y \<in> dom h \<and> dom h' = dom h - {y} \<and> one_edit h rt h' r' y"
proof -
  from subtree_root[OF X] obtain l v r where S: "subtree x t = Nd l x v r" by blast
  from subtree_is_tree[OF T X] S have sub: "is_tree h (Some x) (Nd l x v r)" by simp
  note dt = is_tree_distinct[OF T]
  consider (leaf) "l = Tip" "r = Tip" | (two) "l \<noteq> Tip" "r \<noteq> Tip"
    | (one) "l = Tip \<or> r = Tip" "\<not> (l = Tip \<and> r = Tip)"
    by blast
  then show ?thesis
  proof cases
    case leaf
    with S have S': "subtree x t = Nd Tip x v Tip" by simp
    from commit_shrink_remove_tree[OF T X S'] obtain h2 where
      c: "commit_shrink_remove h rt (a_parent x t) (Some x) = Some (h2, root_addr (a_remove x t))"
        "is_tree h2 (root_addr (a_remove x t)) (a_remove x t)" "dom h2 = dom h - {x}" by blast
    have a: "addrs (a_remove x t) = addrs t - {x}"
      by (rule addrs_a_remove_leaf_one[OF dt X S']) simp
    from tree_heap_unique[OF c(2) _ T' D'] c(3) a D
    have e: "h' = h2" "r' = root_addr (a_remove x t)" by simp_all
    from commit_shrink_remove_edit[OF T X S' c(1)] c(3) X D show ?thesis unfolding e by blast
  next
    case one
    from commit_move_child_up_tree[OF T X S one(1)] obtain h2 where
      c: "commit_move_child_up h rt (a_parent x t) (Some x) = Some (h2, root_addr (a_remove x t))"
        "is_tree h2 (root_addr (a_remove x t)) (a_remove x t)" "dom h2 = dom h - {x}" by blast
    have a: "addrs (a_remove x t) = addrs t - {x}"
      by (rule addrs_a_remove_leaf_one[OF dt X S one(1)])
    from tree_heap_unique[OF c(2) _ T' D'] c(3) a D
    have e: "h' = h2" "r' = root_addr (a_remove x t)" by simp_all
    from commit_move_child_up_edit[OF T X S c(1)] c(3) X D show ?thesis unfolding e by blast
  next
    case two
    then obtain sp s m where lm: "a_leftmost x r = Some (sp, s, m)"
      using a_leftmost_Some[of r x] by blast
    from commit_move_successor_tree[OF T X S two lm] obtain h2 where
      c: "commit_move_successor h (Some x) (Some sp) (Some s) = Some h2"
        "is_tree h2 rt (a_remove x t)" "dom h2 = dom h - {s}" by blast
    have a: "addrs (a_remove x t) = addrs t - {s}"
      by (rule addrs_a_remove_two[OF dt X S two lm])
    from tree_heap_unique[OF c(2) _ T' D'] c(3) a D
    have e: "h' = h2" "r' = rt" by simp_all
    have "s \<in> addrs (subtree x t)" using a_leftmost_in[OF lm] S by simp
    with addrs_subtree[of x t] D have sd: "s \<in> dom h" by auto
    from commit_move_successor_edit[OF sub lm c(1), of rt] c(3) sd show ?thesis
      unfolding e by blast
  qed
qed

lemma tick_delete_frame:
  assumes I: "inv t s" and A: "delStage s \<noteq> DEL_IDLE" and R: "tick i s = Some s'"
  shows "heap s' = heap s \<and> root s' = root s \<or>
    (delStage s = DEL_MOVE_SUCCESSOR \<or> delStage s = DEL_MOVE_CHILD_UP \<or>
     delStage s = DEL_SHRINK_REMOVE) \<and>
    delStage s' = DEL_FINALIZE \<and> 1 \<le> animProgress s' \<and>
    (\<exists>y. y \<in> dom (heap s) \<and> dom (heap s') = dom (heap s) - {y} \<and>
         one_edit (heap s) (root s) (heap s') (root s') y)"
proof -
  obtain m n s3 where s1: "inv t (s\<lparr>statusMessage := m, statusTimer := n\<rparr>)"
    "delete_machine (s\<lparr>statusMessage := m, statusTimer := n\<rparr>) = Some s3"
    "s' = status_timer s3"
    by (rule tick_del_active[OF I A R])
  let ?s1 = "s\<lparr>statusMessage := m, statusTimer := n\<rparr>"
  from A have A1: "delStage ?s1 \<noteq> DEL_IDLE" by simp
  show ?thesis
  proof (rule delete_machine_step_at[OF s1(1) A1 s1(2), where a = 0])
    fix t'
    assume I3: "inv t' s3"
      and d: "t' = t \<and> heap s3 = heap ?s1 \<and> root s3 = root ?s1 \<or> del_commit t ?s1 t' s3"
    from d show ?thesis
    proof
      assume "t' = t \<and> heap s3 = heap ?s1 \<and> root s3 = root ?s1"
      with s1(3) show ?thesis by simp
    next
      assume c: "del_commit t ?s1 t' s3"
      then obtain x where x: "delTargetNode s = Some x" "x \<in> addrs t" "t' = a_remove x t"
        by (auto simp: del_commit_def split: option.splits)
      from c have st: "delStage s = DEL_MOVE_SUCCESSOR \<or> delStage s = DEL_MOVE_CHILD_UP \<or>
        delStage s = DEL_SHRINK_REMOVE" "delStage s3 = DEL_FINALIZE" "1 \<le> animProgress s3"
        by (simp_all add: del_commit_def)
      from remove_is_one_edit[OF inv_parts(1,2)[OF I] x(2)
          inv_parts(1,2)[OF I3, unfolded x(3)]]
      obtain y where "y \<in> dom (heap s)" "dom (heap s3) = dom (heap s) - {y}"
        "one_edit (heap s) (root s) (heap s3) (root s3) y" by blast
      with st s1(3) show ?thesis by auto
    qed
  qed
qed

lemma found_frame_step:
  assumes I: "inv t' u" and N: "insStage u = INS_IDLE" "searchStage u = S_IDLE"
    and P: "delStage u \<noteq> DEL_IDLE \<and> delStage u \<noteq> DEL_FINALIZE \<and> t' = t \<and> goal a t' u = tr \<or>
            (delStage u = DEL_FINALIZE \<or> delStage u = DEL_IDLE) \<and> t' = tr"
    and R: "frame_machines a u = Some u'"
  shows "\<exists>t''. inv t'' u' \<and> insStage u' = INS_IDLE \<and> searchStage u' = S_IDLE \<and>
     (delStage u' \<noteq> DEL_IDLE \<and> delStage u' \<noteq> DEL_FINALIZE \<and> t'' = t \<and> goal a t'' u' = tr \<or>
      (delStage u' = DEL_FINALIZE \<or> delStage u' = DEL_IDLE) \<and> t'' = tr)"
proof (cases "delStage u = DEL_IDLE")
  case True
  with N have "all_idle u" by (simp add: all_idle_def)
  from frame_machines_idle[OF I this, of a] R have e: "u' = status_timer u" by simp
  from I N True P show ?thesis unfolding e by (intro exI[of _ t']) simp
next
  case False
  from frame_machines_del_active[OF I False, of a] R
  have "map_option status_timer (delete_machine u) = Some u'" by simp
  then obtain s3 where dm: "delete_machine u = Some s3" and e: "u' = status_timer s3" by auto
  show ?thesis
  proof (rule delete_machine_step_at[OF I False dm, where a = a])
    fix t''
    assume I3: "inv t'' s3" and G: "goal a t'' s3 = goal a t' u"
      and n3: "insStage s3 = INS_IDLE" "searchStage s3 = S_IDLE"
      and d: "t'' = t' \<and> heap s3 = heap u \<and> root s3 = root u \<or> del_commit t' u t'' s3"
    have k: "inv t'' u'" "insStage u' = INS_IDLE" "searchStage u' = S_IDLE"
      "delStage u' = delStage s3" "goal a t'' u' = goal a t'' s3"
      unfolding e using I3 n3 by simp_all
    have "delStage s3 \<noteq> DEL_IDLE \<and> delStage s3 \<noteq> DEL_FINALIZE \<and> t'' = t \<and> goal a t'' s3 = tr \<or>
      (delStage s3 = DEL_FINALIZE \<or> delStage s3 = DEL_IDLE) \<and> t'' = tr"
    proof (cases "delStage u = DEL_FINALIZE")
      case True
      with P False have tr: "t' = tr" by auto
      from True d have same: "t'' = t'" by (auto simp: del_commit_def)
      have "delStage s3 = DEL_FINALIZE \<or> delStage s3 = DEL_IDLE"
        using dm True by (cases rule: delete_machine_finalize[OF True]) auto
      with tr same show ?thesis by simp
    next
      case nf: False
      with P False have p: "t' = t" "goal a t' u = tr" by auto
      show ?thesis
      proof (cases "delStage s3 = DEL_FINALIZE \<or> delStage s3 = DEL_IDLE")
        case True
        with n3 have "goal a t'' s3 = t''" by (auto simp: goal_def)
        with G p True show ?thesis by simp
      next
        case False
        with d have "t'' = t'" by (auto simp: del_commit_def)
        with G p False show ?thesis by simp
      qed
    qed
    with k show ?thesis by (intro exI[of _ t'']) simp
  qed
qed

lemma found_run:
  assumes "inv t' u" and "insStage u = INS_IDLE" "searchStage u = S_IDLE"
    and "delStage u \<noteq> DEL_IDLE \<and> delStage u \<noteq> DEL_FINALIZE \<and> t' = t \<and> goal a t' u = tr \<or>
         (delStage u = DEL_FINALIZE \<or> delStage u = DEL_IDLE) \<and> t' = tr"
    and "run (replicate k \<lparr>cmd = None, alloc = a\<rparr>) u = Some w"
  shows "\<exists>t''. inv t'' w \<and>
     (delStage w \<noteq> DEL_IDLE \<and> delStage w \<noteq> DEL_FINALIZE \<and> t'' = t \<or>
      (delStage w = DEL_FINALIZE \<or> delStage w = DEL_IDLE) \<and> t'' = tr)"
  using assms
proof (induction k arbitrary: u t')
  case 0
  then show ?case by auto
next
  case (Suc k)
  from Suc.prems(5) obtain u1 where f: "frame_machines a u = Some u1"
    and r: "run (replicate k \<lparr>cmd = None, alloc = a\<rparr>) u1 = Some w"
    by (auto simp: tick_no_command split: option.splits)
  from found_frame_step[OF Suc.prems(1-4) f] obtain t1 where
    s: "inv t1 u1" "insStage u1 = INS_IDLE" "searchStage u1 = S_IDLE"
      "delStage u1 \<noteq> DEL_IDLE \<and> delStage u1 \<noteq> DEL_FINALIZE \<and> t1 = t \<and> goal a t1 u1 = tr \<or>
       (delStage u1 = DEL_FINALIZE \<or> delStage u1 = DEL_IDLE) \<and> t1 = tr" by blast
  from Suc.IH[OF s r] show ?case .
qed

subsection \<open>The commit frames of the three branches, on the concrete tree\<close>

lemma inv_ex_shrinking: "inv ex_tree ex_shrinking"
proof -
  have "tree_ok ex_tree ex_shrinking"
    using ex_tree_ok by (simp add: tree_ok_def ex_shrinking_def)
  moreover have "excl ex_shrinking" "ins_ok ex_tree ex_shrinking"
    by (simp_all add: excl_def ins_ok_def ex_shrinking_def init_def)
  moreover have "del_ok ex_tree ex_shrinking"
    by (simp add: del_ok_def found_ok_def find_node_def find_parent_def target_sub_def
        ex_shrinking_def ex_tree_def init_def)
  ultimately show ?thesis using ex_tree_ok(3) by (simp add: inv_def)
qed

lemma inv_ex_lifting: "inv ex_tree_after ex_lifting"
proof -
  have "tree_ok ex_tree_after ex_lifting"
    using ex_tree_after_ok by (simp add: tree_ok_def ex_lifting_def)
  moreover have "excl ex_lifting" "ins_ok ex_tree_after ex_lifting"
    by (simp_all add: excl_def ins_ok_def ex_lifting_def init_def)
  moreover have "del_ok ex_tree_after ex_lifting"
    by (simp add: del_ok_def found_ok_def find_node_def find_parent_def target_sub_def
        ex_lifting_def ex_tree_after_def init_def)
  ultimately show ?thesis using ex_tree_after_ok(3) by (simp add: inv_def)
qed

lemma ex_shrinking_tick: "tick \<lparr>cmd = None, alloc = 6\<rparr> ex_shrinking = Some ex_shrunk"
proof -
  have h: "ex_heap 2 = Some \<lparr>val = 30, left = Some 4, right = Some 5\<rparr>"
    "ex_heap 4 = Some \<lparr>val = 20, left = None, right = None\<rparr>"
    by (simp_all add: ex_heap_def)
  show ?thesis
    by (simp add: tick_def handle_enter_def frame_machines_def insert_machine_def
        delete_machine_def del_shrink_remove_def commit_shrink_remove_def
        DeleteNodePointer_def deref_def set_right_def set_left_def search_machine_def
        finalize_timer_def status_timer_def draw_populate_def post_populate_def
        animDuration_def ex_shrunk_def ex_shrinking_def h Let_def init_def)
qed

lemma ex_lifting_tick: "tick \<lparr>cmd = None, alloc = 6\<rparr> ex_lifting = Some ex_lifted"
proof -
  have h: "ex_heap_after (Suc 0) = Some \<lparr>val = 50, left = Some 2, right = Some 3\<rparr>"
    "ex_heap_after 2 = Some \<lparr>val = 40, left = Some 4, right = None\<rparr>"
    "ex_heap_after 4 = Some \<lparr>val = 20, left = None, right = None\<rparr>"
    by (simp_all add: ex_heap_after_def)
  show ?thesis
    by (simp add: tick_def handle_enter_def frame_machines_def insert_machine_def
        delete_machine_def del_move_child_up_def commit_move_child_up_def
        DeleteNodePointer_def deref_def set_right_def set_left_def search_machine_def
        finalize_timer_def status_timer_def draw_populate_def post_populate_def
        animDuration_def ex_lifted_def ex_lifting_def h Let_def init_def)
qed

lemma ex_started_run:
  "run (\<lparr>cmd = Some (MODE_DELETE, 30), alloc = 6\<rparr> # replicate 0 \<lparr>cmd = None, alloc = 6\<rparr>)
     ex_idle = Some ex_started"
  by (simp add: ex_started_def ex_idle_def ex_heap_def tick_def
      handle_enter_def StartDeletion_def StartDeletion_loop.simps frame_machines_def
      insert_machine_def delete_machine_def del_traversing_def search_machine_def
      finalize_timer_def status_timer_def draw_populate_def post_populate_def
      DEL_STEP_FRAMES_def Let_def init_def)

section \<open>The claims\<close>

text \<open>
  C1. At every frame of every run from the empty tree, whatever is entered and in particular
  whenever the operations entered so far have settled, the store holds a tree whose inorder
  sequence is non-decreasing and in which every node has only smaller values in its left
  subtree and only greater or equal values in its right subtree (\<open>bst\<close>). Runs do not get
  stuck: the next frame returns whenever the allocator hands out an address that is not live.
\<close>

theorem ordering_invariant:
  assumes "run is init = Some s"
  shows "(\<exists>t. is_tree (heap s) (root s) t \<and> dom (heap s) = addrs t \<and> bst t \<and>
              sorted (inorder t)) \<and>
         (alloc i \<notin> dom (heap s) \<longrightarrow> tick i s \<noteq> None)"
proof -
  from run_inv[OF inv_init assms] obtain t where I: "inv t s" by blast
  note T = inv_parts(1)[OF I] and D = inv_parts(2)[OF I] and B = inv_parts(3)[OF I]
  have "tick i s \<noteq> None" if "alloc i \<notin> dom (heap s)"
  proof -
    from handle_enter_inv[OF I] obtain s1 where h: "handle_enter (cmd i) s = Some s1" "inv t s1"
      by blast
    from that D have "alloc i \<notin> addrs t" by simp
    then have "frame_machines (alloc i) s1 \<noteq> None"
      by (intro frame_machines_succeeds[OF h(2)]) simp
    with h(1) show ?thesis by (simp add: tick_def)
  qed
  with T D B bst_sorted[OF B] show ?thesis by blast
qed

text \<open>
  The scenario as an instance: the five insertions and the deletion of 30, a node with two
  children, each left to settle, are a run from the empty tree; at its end everything is
  idle and the store is the four nodes with the values 20, 40, 50 and 70 in inorder.
\<close>

theorem ordering_invariant_witness:
  "\<exists>is s. run is init = Some s \<and> script ex_ops init = Some s \<and> all_idle s \<and>
     heap s = ex_heap_after \<and> root s = Some 1 \<and>
     (\<exists>t. is_tree (heap s) (root s) t \<and> dom (heap s) = addrs t \<and> bst t \<and>
          sorted (inorder t) \<and> inorder t = [20, 40, 50, 70]) \<and>
     tick \<lparr>cmd = Some (MODE_INSERT, 40), alloc = 5\<rparr> s \<noteq> None"
proof -
  from ex_script obtain s where s: "script ex_ops init = Some s" "all_idle s"
    "inv ex_tree_after s" by blast
  from script_run[OF s(1)] obtain "is" where r: "run is init = Some s" by blast
  note T = inv_parts(1)[OF s(3)] and D = inv_parts(2)[OF s(3)]
  from ordering_invariant[OF r, of "\<lparr>cmd = Some (MODE_INSERT, 40), alloc = 5\<rparr>"]
  obtain t where t: "is_tree (heap s) (root s) t" "dom (heap s) = addrs t" "bst t"
    "sorted (inorder t)"
    and k: "alloc \<lparr>cmd = Some (MODE_INSERT, 40), alloc = 5\<rparr> \<notin> dom (heap s) \<longrightarrow>
      tick \<lparr>cmd = Some (MODE_INSERT, 40), alloc = 5\<rparr> s \<noteq> None" by blast
  from is_tree_unique[OF t(1) T] have e: "t = ex_tree_after" .
  then have io: "inorder t = [20, 40, 50, 70]" by (simp add: ex_tree_after_def)
  have "tree_ok ex_tree_after (init\<lparr>heap := ex_heap_after, root := Some 1\<rparr>)"
    using ex_tree_after_ok by (simp add: tree_ok_def)
  from tree_ok_same_heap[OF this, of s] T D have h: "heap s = ex_heap_after" "root s = Some 1"
    by (simp_all add: tree_ok_def)
  from D have "5 \<notin> dom (heap s)" by (simp add: ex_tree_after_def)
  with k have "tick \<lparr>cmd = Some (MODE_INSERT, 40), alloc = 5\<rparr> s \<noteq> None" by simp
  with r s(1,2) h t io show ?thesis by blast
qed

text \<open>
  C2. In a tree-shaped store, for a node \<open>x\<close> with two children and the successor \<open>s\<close>
  with parent \<open>sp\<close> that \<^verbatim>\<open>FindInorderSuccessor\<close> returns, the three steps of the commit
  return, and do this. The copy changes nothing but the value of \<open>x\<close>, which becomes that
  of \<open>s\<close>: the node stays the same object with the same links. The successor has no left
  child; the slot that holds it is the left slot of \<open>sp\<close>, or the right slot of \<open>x\<close> when
  the successor is the right child of \<open>x\<close> itself (then \<open>sp\<close> is \<open>x\<close>), and the unlinking
  puts the successor's right child into that slot. Then the successor is freed, and it is
  the only node that leaves the store. At the end \<open>x\<close> holds the successor's value and its
  old left link; its right link is the old one unless the unlinked slot was its own; no
  node outside the subtree of \<open>x\<close> has changed, so \<open>x\<close> is where it was; and the store
  holds the tree with \<open>x\<close> removed. In the machine, every frame of
  \<^verbatim>\<open>DEL_MOVE_SUCCESSOR\<close> has a target with two children and that successor recorded; the
  store is untouched while the progress stays below 1, and the frame in which it reaches 1
  is the one that runs this commit.
\<close>

theorem two_child_commit:
  "(is_tree h rt t \<and> x \<in> addrs t \<and> h x = Some xn \<and> left xn \<noteq> None \<and> right xn \<noteq> None \<and>
    FindInorderSuccessor h (Some x) = Some (Some sp, Some s) \<longrightarrow>
      (\<exists>sn spn h1 h2 h3.
         h s = Some sn \<and> left sn = None \<and> s \<noteq> x \<and> h sp = Some spn \<and>
         (if sp = x then right xn = Some s else left spn = Some s) \<and>
         copy_successor_value h (Some x) (Some s) = Some h1 \<and>
         h1 = h(x \<mapsto> xn\<lparr>val := val sn\<rparr>) \<and>
         unlink_successor h1 (Some sp) (Some s) = Some h2 \<and>
         h2 = (if sp = x then h1(x \<mapsto> xn\<lparr>val := val sn, right := right sn\<rparr>)
               else h1(sp \<mapsto> spn\<lparr>left := right sn\<rparr>)) \<and>
         DeleteNodePointer h2 (Some s) = Some h3 \<and> h3 = h2(s := None) \<and>
         commit_move_successor h (Some x) (Some sp) (Some s) = Some h3 \<and>
         dom h3 = dom h - {s} \<and>
         h3 x = Some (xn\<lparr>val := val sn, right := (if sp = x then right sn else right xn)\<rparr>) \<and>
         (\<forall>b. b \<notin> addrs (subtree x t) \<longrightarrow> h3 b = h b) \<and>
         is_tree h3 rt (a_remove x t))) \<and>
   (inv t u \<and> delStage u = DEL_MOVE_SUCCESSOR \<and> tick i u = Some u' \<longrightarrow>
      (\<exists>y n. delTargetNode u = Some y \<and> heap u y = Some n \<and> left n \<noteq> None \<and>
         right n \<noteq> None \<and>
         FindInorderSuccessor (heap u) (Some y) = Some (successorParent u, successorNode u) \<and>
         (if animProgress u + 1 / 24 < 1
          then heap u' = heap u \<and> root u' = root u \<and> delStage u' = DEL_MOVE_SUCCESSOR
          else commit_move_successor (heap u) (Some y) (successorParent u) (successorNode u) =
                 Some (heap u') \<and> root u' = root u \<and> delStage u' = DEL_FINALIZE \<and>
               animProgress u' = 1)))"
proof -
  have p1: "\<exists>sn spn h1 h2 h3.
         h s = Some sn \<and> left sn = None \<and> s \<noteq> x \<and> h sp = Some spn \<and>
         (if sp = x then right xn = Some s else left spn = Some s) \<and>
         copy_successor_value h (Some x) (Some s) = Some h1 \<and>
         h1 = h(x \<mapsto> xn\<lparr>val := val sn\<rparr>) \<and>
         unlink_successor h1 (Some sp) (Some s) = Some h2 \<and>
         h2 = (if sp = x then h1(x \<mapsto> xn\<lparr>val := val sn, right := right sn\<rparr>)
               else h1(sp \<mapsto> spn\<lparr>left := right sn\<rparr>)) \<and>
         DeleteNodePointer h2 (Some s) = Some h3 \<and> h3 = h2(s := None) \<and>
         commit_move_successor h (Some x) (Some sp) (Some s) = Some h3 \<and>
         dom h3 = dom h - {s} \<and>
         h3 x = Some (xn\<lparr>val := val sn, right := (if sp = x then right sn else right xn)\<rparr>) \<and>
         (\<forall>b. b \<notin> addrs (subtree x t) \<longrightarrow> h3 b = h b) \<and>
         is_tree h3 rt (a_remove x t)"
    if T: "is_tree h rt t" and X: "x \<in> addrs t" and N: "h x = Some xn"
      and L: "left xn \<noteq> None" and R: "right xn \<noteq> None"
      and F: "FindInorderSuccessor h (Some x) = Some (Some sp, Some s)"
  proof -
    from subtree_is_tree[OF T X] have S0: "is_tree h (Some x) (subtree x t)" .
    then obtain l v r where sub: "subtree x t = Nd l x v r" by (cases "subtree x t") auto
    note S = S0[unfolded sub]
    from S N L R have two: "l \<noteq> Tip" "r \<noteq> Tip" by auto
    from a_leftmost_Some[OF two(2), of x] obtain sp' s' m where
      lm': "a_leftmost x r = Some (sp', s', m)" by blast
    from FindInorderSuccessor_tree[OF S two(2)] lm' F have "sp' = sp" "s' = s" by simp_all
    with lm' have lm: "a_leftmost x r = Some (sp, s, m)" by simp
    from commit_move_successor_tree[OF T X sub two lm] obtain h' where
      h': "commit_move_successor h (Some x) (Some sp) (Some s) = Some h'"
        "is_tree h' rt (a_remove x t)" "dom h' = dom h - {s}" by blast
    show ?thesis
    proof (rule commit_move_successor_steps[OF S lm])
      fix xn' sn spn
      assume a: "h x = Some xn'" "h s = Some sn" "h sp = Some spn"
        "val sn = m" "left sn = None" "right sn \<noteq> Some s" "s \<noteq> x" "s \<noteq> sp" "s \<in> addrs r"
        "sp = x \<or> sp \<in> addrs r"
        "if sp = x then right xn' = Some s \<and> left xn' \<noteq> Some s else left spn = Some s"
        "copy_successor_value h (Some x) (Some s) = Some (h(x \<mapsto> xn'\<lparr>val := m\<rparr>))"
        "unlink_successor (h(x \<mapsto> xn'\<lparr>val := m\<rparr>)) (Some sp) (Some s) =
           Some (if sp = x then h(x \<mapsto> xn'\<lparr>val := m, right := right sn\<rparr>)
                 else h(x \<mapsto> xn'\<lparr>val := m\<rparr>, sp \<mapsto> spn\<lparr>left := right sn\<rparr>))"
      from a(1) N have e: "xn' = xn" by simp
      let ?h1 = "h(x \<mapsto> xn\<lparr>val := val sn\<rparr>)"
      let ?h2 = "if sp = x then ?h1(x \<mapsto> xn\<lparr>val := val sn, right := right sn\<rparr>)
               else ?h1(sp \<mapsto> spn\<lparr>left := right sn\<rparr>)"
      let ?h3 = "?h2(s := None)"
      have c1: "copy_successor_value h (Some x) (Some s) = Some ?h1" using a(12) e a(4) by simp
      have c2: "unlink_successor ?h1 (Some sp) (Some s) = Some ?h2"
        using a(13) e a(4) by (cases "sp = x") simp_all
      have live: "?h2 s = Some sn" using a(2,7,8) by simp
      then have c3: "DeleteNodePointer ?h2 (Some s) = Some ?h3"
        by (simp add: DeleteNodePointer_def)
      from c1 c2 c3 have c: "commit_move_successor h (Some x) (Some sp) (Some s) = Some ?h3"
        by (simp add: commit_move_successor_def)
      with h' have eq: "h' = ?h3" by simp
      have slot: "if sp = x then right xn = Some s else left spn = Some s"
        using a(11) e by (cases "sp = x") simp_all
      have hx: "?h3 x = Some (xn\<lparr>val := val sn,
          right := (if sp = x then right sn else right xn)\<rparr>)"
        using a(7) by (cases "sp = x") simp_all
      have out: "\<forall>b. b \<notin> addrs (subtree x t) \<longrightarrow> ?h3 b = h b"
        using a(9,10) unfolding sub by auto
      show ?thesis
        apply (rule exI[of _ sn], rule exI[of _ spn], rule exI[of _ ?h1], rule exI[of _ ?h2],
            rule exI[of _ ?h3])
        apply (intro conjI)
        by (rule refl a(2) a(3) a(5) a(7) slot c1 c2 c3 c h'(2)[unfolded eq]
            h'(3)[unfolded eq] hx out)+
    qed
  qed
  have p2: "\<exists>y n. delTargetNode u = Some y \<and> heap u y = Some n \<and> left n \<noteq> None \<and>
         right n \<noteq> None \<and>
         FindInorderSuccessor (heap u) (Some y) = Some (successorParent u, successorNode u) \<and>
         (if animProgress u + 1 / 24 < 1
          then heap u' = heap u \<and> root u' = root u \<and> delStage u' = DEL_MOVE_SUCCESSOR
          else commit_move_successor (heap u) (Some y) (successorParent u) (successorNode u) =
                 Some (heap u') \<and> root u' = root u \<and> delStage u' = DEL_FINALIZE \<and>
               animProgress u' = 1)"
    if "inv t u" "delStage u = DEL_MOVE_SUCCESSOR" "tick i u = Some u'"
    by (rule tick_move_successor[OF that])
  from p1 p2 show ?thesis by blast
qed

theorem two_child_commit_witness:
  "is_tree ex_heap (Some 1) ex_tree \<and> 2 \<in> addrs ex_tree \<and>
   ex_heap 2 = Some \<lparr>val = 30, left = Some 4, right = Some 5\<rparr> \<and>
   FindInorderSuccessor ex_heap (Some 2) = Some (Some 2, Some 5) \<and>
   commit_move_successor ex_heap (Some 2) (Some 2) (Some 5) = Some ex_heap_after \<and>
   dom ex_heap_after = dom ex_heap - {5} \<and>
   ex_heap_after 2 = Some \<lparr>val = 40, left = Some 4, right = None\<rparr> \<and>
   is_tree ex_heap_after (Some 1) (a_remove 2 ex_tree) \<and>
   inv ex_tree ex_moving \<and> delStage ex_moving = DEL_MOVE_SUCCESSOR \<and>
   tick \<lparr>cmd = None, alloc = 6\<rparr> ex_moving = Some ex_committed \<and>
   \<not> animProgress ex_moving + 1 / 24 < 1 \<and>
   delTargetNode ex_moving = Some 2 \<and>
   commit_move_successor (heap ex_moving) (Some 2) (successorParent ex_moving)
     (successorNode ex_moving) = Some (heap ex_committed) \<and>
   delStage ex_committed = DEL_FINALIZE \<and> animProgress ex_committed = 1"
proof -
  have n: "ex_heap 2 = Some \<lparr>val = 30, left = Some 4, right = Some 5\<rparr>"
    "left \<lparr>val = 30, left = Some 4, right = Some 5\<rparr> \<noteq> None"
    "right \<lparr>val = 30, left = Some 4, right = Some 5\<rparr> \<noteq> None" "2 \<in> addrs ex_tree"
    "ex_heap 5 = Some \<lparr>val = 40, left = None, right = None\<rparr>"
    by (simp_all add: ex_heap_def ex_tree_def)
  have f: "FindInorderSuccessor ex_heap (Some 2) = Some (Some 2, Some 5)"
    by (simp add: FindInorderSuccessor_def FindInorderSuccessor_loop.simps ex_heap_def)
  have e: "delStage ex_moving = DEL_MOVE_SUCCESSOR" "\<not> animProgress ex_moving + 1 / 24 < 1"
    "delTargetNode ex_moving = Some 2"
    by (simp_all add: ex_moving_def ex_highlight_successor_def ex_highlight_def init_def)
  note th = two_child_commit[of ex_heap "Some 1" ex_tree 2
      "\<lparr>val = 30, left = Some 4, right = Some 5\<rparr>" 2 5 ex_moving "\<lparr>cmd = None, alloc = 6\<rparr>"
      ex_committed]
  from th ex_tree_ok(1) n f obtain sn h3 where
    a: "ex_heap 5 = Some sn" "commit_move_successor ex_heap (Some 2) (Some 2) (Some 5) = Some h3"
      "h3 = (ex_heap(2 \<mapsto> \<lparr>val = 30, left = Some 4, right = Some 5\<rparr>\<lparr>val := val sn\<rparr>,
                     2 \<mapsto> \<lparr>val = 30, left = Some 4, right = Some 5\<rparr>\<lparr>val := val sn,
                            right := right sn\<rparr>))(5 := None)"
      "dom h3 = dom ex_heap - {5}" "is_tree h3 (Some 1) (a_remove 2 ex_tree)"
    by auto
  from a(1) n(5) have sn: "sn = \<lparr>val = 40, left = None, right = None\<rparr>" by simp
  from a(3) have h3: "h3 = ex_heap_after" unfolding sn by (simp add: ex_heap_commit)
  from th inv_ex_moving e ex_moving_tick obtain y where
    b: "delTargetNode ex_moving = Some y"
      "commit_move_successor (heap ex_moving) (Some y) (successorParent ex_moving)
         (successorNode ex_moving) = Some (heap ex_committed)"
      "delStage ex_committed = DEL_FINALIZE" "animProgress ex_committed = 1"
    by auto
  from b(1) e(3) have y: "y = 2" by simp
  have after: "ex_heap_after 2 = Some \<lparr>val = 40, left = Some 4, right = None\<rparr>"
    by (simp add: ex_heap_after_def)
  from ex_tree_ok(1) n(1,4) f a(2,4,5)[unfolded h3] after inv_ex_moving e ex_moving_tick
    b(2,3,4)[unfolded y]
  show ?thesis by simp
qed

text \<open>
  C3, as the code has it. At every frame at most one of Insert and Delete is active, and
  Delete and Search are never active together. While any of the three processes is active,
  a requested Search and a requested Delete are rejected, and while Insert or Delete is
  active a requested Insert is rejected: the rejection writes the blocked message and its
  timer and nothing else, so no process changes stage and the tree is not touched. When all
  three are idle each request is accepted. A requested Insert is accepted also while a
  Search is active (Insert and Delete being idle): the insertion starts on the unchanged
  tree. A Search that is traversing then stands still: in every frame that ends with the
  insertion still active, nothing of what the search holds changes. It moves again, by one
  step of its machine, in every frame that starts with Insert idle and enters no Insert.
\<close>

theorem gating_policy:
  assumes "run is init = Some s"
  shows "(insStage s = INS_IDLE \<or> delStage s = DEL_IDLE) \<and>
    (searchStage s = S_IDLE \<or> delStage s = DEL_IDLE) \<and>
    (\<not> all_idle s \<longrightarrow>
       handle_enter (Some (MODE_SEARCH, v)) s =
         Some (s\<lparr>statusMessage := SearchBlocked, statusTimer := 120\<rparr>) \<and>
       handle_enter (Some (MODE_DELETE, v)) s =
         Some (s\<lparr>statusMessage := DeleteBlocked, statusTimer := 120\<rparr>)) \<and>
    (insStage s \<noteq> INS_IDLE \<or> delStage s \<noteq> DEL_IDLE \<longrightarrow>
       handle_enter (Some (MODE_INSERT, v)) s =
         Some (s\<lparr>statusMessage := InsertBlocked, statusTimer := 120\<rparr>)) \<and>
    (all_idle s \<longrightarrow>
       (\<exists>s'. handle_enter (Some (MODE_SEARCH, v)) s = Some s' \<and> searchStage s' = S_TRAVERSING) \<and>
       (\<exists>s'. handle_enter (Some (MODE_DELETE, v)) s = Some s' \<and> delStage s' = DEL_TRAVERSING)) \<and>
    (insStage s = INS_IDLE \<and> delStage s = DEL_IDLE \<longrightarrow>
       (\<exists>s'. handle_enter (Some (MODE_INSERT, v)) s = Some s' \<and> insStage s' = INS_TRAVERSING \<and>
             insValuePending s' = v \<and> searchStage s' = searchStage s \<and>
             heap s' = heap s \<and> root s' = root s \<and>
             (searchStage s = S_TRAVERSING \<longrightarrow> search_machine s' = s'))) \<and>
    (searchStage s = S_TRAVERSING \<and> tick i s = Some u \<and> insStage u \<noteq> INS_IDLE \<longrightarrow>
       searchStage u = S_TRAVERSING \<and> searchPath u = searchPath s \<and>
       searchIndex u = searchIndex s \<and> searchFrames u = searchFrames s \<and>
       flashCount u = flashCount s \<and> searchFinalNode u = searchFinalNode s \<and>
       searchValuePending u = searchValuePending s) \<and>
    (searchStage s = S_TRAVERSING \<and> insStage s = INS_IDLE \<and>
     (\<forall>w. cmd i \<noteq> Some (MODE_INSERT, w)) \<and> tick i s = Some u \<longrightarrow>
       search_view u = search_view (search_machine s) \<and> search_view u \<noteq> search_view s)"
proof -
  from run_inv[OF inv_init assms] obtain t where I: "inv t s" by blast
  note T = inv_parts(1)[OF I]
  have 1: "insStage s = INS_IDLE \<or> delStage s = DEL_IDLE"
    "searchStage s = S_IDLE \<or> delStage s = DEL_IDLE"
    using inv_parts(4)[OF I] by (auto simp: excl_def)
  have 2: "handle_enter (Some (MODE_SEARCH, v)) s =
        Some (s\<lparr>statusMessage := SearchBlocked, statusTimer := 120\<rparr>) \<and>
      handle_enter (Some (MODE_DELETE, v)) s =
        Some (s\<lparr>statusMessage := DeleteBlocked, statusTimer := 120\<rparr>)" if "\<not> all_idle s"
    using that by (auto simp: handle_enter_def all_idle_def)
  have 3: "handle_enter (Some (MODE_INSERT, v)) s =
        Some (s\<lparr>statusMessage := InsertBlocked, statusTimer := 120\<rparr>)"
    if "insStage s \<noteq> INS_IDLE \<or> delStage s \<noteq> DEL_IDLE"
    using that by (auto simp: handle_enter_def)
  have 4: "(\<exists>s'. handle_enter (Some (MODE_SEARCH, v)) s = Some s' \<and> searchStage s' = S_TRAVERSING) \<and>
       (\<exists>s'. handle_enter (Some (MODE_DELETE, v)) s = Some s' \<and> delStage s' = DEL_TRAVERSING)"
    if "all_idle s"
    using that by (simp add: handle_enter_def all_idle_def StartSearch_tree[OF T]
        StartDeletion_tree[OF T])
  have 5: "\<exists>s'. handle_enter (Some (MODE_INSERT, v)) s = Some s' \<and> insStage s' = INS_TRAVERSING \<and>
             insValuePending s' = v \<and> searchStage s' = searchStage s \<and>
             heap s' = heap s \<and> root s' = root s \<and>
             (searchStage s = S_TRAVERSING \<longrightarrow> search_machine s' = s')"
    if "insStage s = INS_IDLE \<and> delStage s = DEL_IDLE"
    using that by (simp add: handle_enter_def StartInsertion_tree[OF T])
  have 6: "searchStage u = S_TRAVERSING \<and> searchPath u = searchPath s \<and>
       searchIndex u = searchIndex s \<and> searchFrames u = searchFrames s \<and>
       flashCount u = flashCount s \<and> searchFinalNode u = searchFinalNode s \<and>
       searchValuePending u = searchValuePending s"
    if "searchStage s = S_TRAVERSING \<and> tick i s = Some u \<and> insStage u \<noteq> INS_IDLE"
  proof -
    from that have h: "searchStage s = S_TRAVERSING" "tick i s = Some u" "insStage u \<noteq> INS_IDLE"
      by blast+
    from tick_search_waits[OF I h] h(1) show ?thesis by (simp add: search_view_def)
  qed
  have 7: "search_view u = search_view (search_machine s) \<and> search_view u \<noteq> search_view s"
    if "searchStage s = S_TRAVERSING \<and> insStage s = INS_IDLE \<and>
     (\<forall>w. cmd i \<noteq> Some (MODE_INSERT, w)) \<and> tick i s = Some u"
  proof -
    from that have h: "searchStage s = S_TRAVERSING" "insStage s = INS_IDLE"
      "\<And>w. cmd i \<noteq> Some (MODE_INSERT, w)" "tick i s = Some u" by blast+
    from h(1) 1(2) have d: "delStage s = DEL_IDLE" by simp
    from tick_search_moves[OF I h] search_machine_moves[OF h(1,2) d] show ?thesis by simp
  qed
  from 1 2 3 4 5 6 7 show ?thesis by blast
qed

theorem gating_policy_witness:
  "run [] init = Some init \<and> all_idle init \<and>
   (\<exists>s'. handle_enter (Some (MODE_SEARCH, 9)) init = Some s' \<and> searchStage s' = S_TRAVERSING) \<and>
   (\<exists>s'. handle_enter (Some (MODE_DELETE, 9)) init = Some s' \<and> delStage s' = DEL_TRAVERSING) \<and>
   (\<exists>s'. handle_enter (Some (MODE_INSERT, 9)) init = Some s' \<and> insStage s' = INS_TRAVERSING) \<and>
   run [\<lparr>cmd = Some (MODE_SEARCH, 5), alloc = 1\<rparr>] init = Some ex_searching \<and>
   searchStage ex_searching = S_TRAVERSING \<and> insStage ex_searching = INS_IDLE \<and>
   delStage ex_searching = DEL_IDLE \<and>
   handle_enter (Some (MODE_SEARCH, 9)) ex_searching =
     Some (ex_searching\<lparr>statusMessage := SearchBlocked, statusTimer := 120\<rparr>) \<and>
   handle_enter (Some (MODE_DELETE, 9)) ex_searching =
     Some (ex_searching\<lparr>statusMessage := DeleteBlocked, statusTimer := 120\<rparr>) \<and>
   (\<exists>s'. handle_enter (Some (MODE_INSERT, 9)) ex_searching = Some s' \<and>
         insStage s' = INS_TRAVERSING \<and> insValuePending s' = 9 \<and>
         searchStage s' = searchStage ex_searching \<and> heap s' = heap ex_searching \<and>
         root s' = root ex_searching \<and> search_machine s' = s') \<and>
   tick \<lparr>cmd = None, alloc = 1\<rparr> ex_searching = Some (ex_searching\<lparr>searchFrames := 2\<rparr>) \<and>
   search_view (ex_searching\<lparr>searchFrames := 2\<rparr>) = search_view (search_machine ex_searching) \<and>
   search_view (ex_searching\<lparr>searchFrames := 2\<rparr>) \<noteq> search_view ex_searching \<and>
   run [\<lparr>cmd = Some (MODE_DELETE, 5), alloc = 1\<rparr>] init = Some ex_deleting \<and>
   delStage ex_deleting = DEL_TRAVERSING \<and> insStage ex_deleting = INS_IDLE \<and>
   searchStage ex_deleting = S_IDLE \<and>
   handle_enter (Some (MODE_SEARCH, 9)) ex_deleting =
     Some (ex_deleting\<lparr>statusMessage := SearchBlocked, statusTimer := 120\<rparr>) \<and>
   handle_enter (Some (MODE_DELETE, 9)) ex_deleting =
     Some (ex_deleting\<lparr>statusMessage := DeleteBlocked, statusTimer := 120\<rparr>) \<and>
   handle_enter (Some (MODE_INSERT, 9)) ex_deleting =
     Some (ex_deleting\<lparr>statusMessage := InsertBlocked, statusTimer := 120\<rparr>) \<and>
   run ex_search_insert init = Some ex_mutated \<and>
   insStage ex_mutated = INS_FINALIZE \<and> delStage ex_mutated = DEL_IDLE \<and>
   searchStage ex_mutated = S_TRAVERSING \<and>
   handle_enter (Some (MODE_SEARCH, 9)) ex_mutated =
     Some (ex_mutated\<lparr>statusMessage := SearchBlocked, statusTimer := 120\<rparr>) \<and>
   handle_enter (Some (MODE_DELETE, 9)) ex_mutated =
     Some (ex_mutated\<lparr>statusMessage := DeleteBlocked, statusTimer := 120\<rparr>) \<and>
   handle_enter (Some (MODE_INSERT, 9)) ex_mutated =
     Some (ex_mutated\<lparr>statusMessage := InsertBlocked, statusTimer := 120\<rparr>) \<and>
   tick \<lparr>cmd = None, alloc = 2\<rparr> ex_mutated = Some ex_mutated_next \<and>
   insStage ex_mutated_next = INS_FINALIZE \<and>
   searchStage ex_mutated_next = S_TRAVERSING \<and>
   searchPath ex_mutated_next = searchPath ex_mutated \<and>
   searchIndex ex_mutated_next = searchIndex ex_mutated \<and>
   searchFrames ex_mutated_next = searchFrames ex_mutated \<and>
   flashCount ex_mutated_next = flashCount ex_mutated \<and>
   searchFinalNode ex_mutated_next = searchFinalNode ex_mutated \<and>
   searchValuePending ex_mutated_next = searchValuePending ex_mutated"
proof -
  note ev = tick_def handle_enter_def StartSearch_def StartSearch_loop.simps
    StartDeletion_def StartDeletion_loop.simps StartInsertion_def StartInsertion_loop.simps
    frame_machines_def insert_machine_def delete_machine_def del_traversing_def
    search_machine_def finalize_timer_def status_timer_def draw_populate_def
    post_populate_def SEARCH_STEP_FRAMES_def INS_STEP_FRAMES_def DEL_STEP_FRAMES_def
    AttachNewNodeFromPending_def new_Node_def Let_def init_def
  have r0: "run [] init = Some init" by simp
  have r1: "run [\<lparr>cmd = Some (MODE_SEARCH, 5), alloc = 1\<rparr>] init = Some ex_searching"
    by (simp add: ev ex_searching_def)
  have r2: "run [\<lparr>cmd = Some (MODE_DELETE, 5), alloc = 1\<rparr>] init = Some ex_deleting"
    by (simp add: ev ex_deleting_def)
  have r3: "run ex_search_insert init = Some ex_mutated"
    by (simp add: ev ex_search_insert_def ex_mutated_def eval_nat_numeral)
  have k1: "tick \<lparr>cmd = None, alloc = 1\<rparr> ex_searching = Some (ex_searching\<lparr>searchFrames := 2\<rparr>)"
    by (simp add: ev ex_searching_def)
  have k3: "tick \<lparr>cmd = None, alloc = 2\<rparr> ex_mutated = Some ex_mutated_next"
    by (simp add: ev ex_mutated_def ex_mutated_next_def)
  have a0: "all_idle init" "insStage init = INS_IDLE \<and> delStage init = DEL_IDLE"
    by (simp_all add: all_idle_def init_def)
  have a1: "\<not> all_idle ex_searching" "searchStage ex_searching = S_TRAVERSING"
    "insStage ex_searching = INS_IDLE" "delStage ex_searching = DEL_IDLE"
    "\<forall>w. cmd \<lparr>cmd = None, alloc = 1\<rparr> \<noteq> Some (MODE_INSERT, w)"
    by (simp_all add: all_idle_def ex_searching_def init_def)
  have a2: "\<not> all_idle ex_deleting" "delStage ex_deleting = DEL_TRAVERSING"
    "insStage ex_deleting = INS_IDLE" "searchStage ex_deleting = S_IDLE"
    "delStage ex_deleting \<noteq> DEL_IDLE"
    by (simp_all add: all_idle_def ex_deleting_def init_def)
  have a3: "\<not> all_idle ex_mutated" "insStage ex_mutated = INS_FINALIZE"
    "delStage ex_mutated = DEL_IDLE" "searchStage ex_mutated = S_TRAVERSING"
    "insStage ex_mutated \<noteq> INS_IDLE" "insStage ex_mutated_next = INS_FINALIZE"
    "insStage ex_mutated_next \<noteq> INS_IDLE"
    by (simp_all add: all_idle_def ex_mutated_def ex_mutated_next_def init_def)
  note g0 = gating_policy[OF r0, of 9]
  note g1 = gating_policy[OF r1, of 9 "\<lparr>cmd = None, alloc = 1\<rparr>"
      "ex_searching\<lparr>searchFrames := 2\<rparr>"]
  note g2 = gating_policy[OF r2, of 9]
  note g3 = gating_policy[OF r3, of 9 "\<lparr>cmd = None, alloc = 2\<rparr>" ex_mutated_next]
  have w0: "(\<exists>s'. handle_enter (Some (MODE_SEARCH, 9)) init = Some s' \<and> searchStage s' = S_TRAVERSING) \<and>
   (\<exists>s'. handle_enter (Some (MODE_DELETE, 9)) init = Some s' \<and> delStage s' = DEL_TRAVERSING) \<and>
   (\<exists>s'. handle_enter (Some (MODE_INSERT, 9)) init = Some s' \<and> insStage s' = INS_TRAVERSING)"
    using g0 a0 by blast
  have w1: "handle_enter (Some (MODE_SEARCH, 9)) ex_searching =
     Some (ex_searching\<lparr>statusMessage := SearchBlocked, statusTimer := 120\<rparr>) \<and>
   handle_enter (Some (MODE_DELETE, 9)) ex_searching =
     Some (ex_searching\<lparr>statusMessage := DeleteBlocked, statusTimer := 120\<rparr>) \<and>
   (\<exists>s'. handle_enter (Some (MODE_INSERT, 9)) ex_searching = Some s' \<and>
         insStage s' = INS_TRAVERSING \<and> insValuePending s' = 9 \<and>
         searchStage s' = searchStage ex_searching \<and> heap s' = heap ex_searching \<and>
         root s' = root ex_searching \<and> search_machine s' = s') \<and>
   search_view (ex_searching\<lparr>searchFrames := 2\<rparr>) = search_view (search_machine ex_searching) \<and>
   search_view (ex_searching\<lparr>searchFrames := 2\<rparr>) \<noteq> search_view ex_searching"
    using g1 a1 k1 by blast
  have w2: "handle_enter (Some (MODE_SEARCH, 9)) ex_deleting =
     Some (ex_deleting\<lparr>statusMessage := SearchBlocked, statusTimer := 120\<rparr>) \<and>
   handle_enter (Some (MODE_DELETE, 9)) ex_deleting =
     Some (ex_deleting\<lparr>statusMessage := DeleteBlocked, statusTimer := 120\<rparr>) \<and>
   handle_enter (Some (MODE_INSERT, 9)) ex_deleting =
     Some (ex_deleting\<lparr>statusMessage := InsertBlocked, statusTimer := 120\<rparr>)"
    using g2 a2 by blast
  have w3: "handle_enter (Some (MODE_SEARCH, 9)) ex_mutated =
     Some (ex_mutated\<lparr>statusMessage := SearchBlocked, statusTimer := 120\<rparr>) \<and>
   handle_enter (Some (MODE_DELETE, 9)) ex_mutated =
     Some (ex_mutated\<lparr>statusMessage := DeleteBlocked, statusTimer := 120\<rparr>) \<and>
   handle_enter (Some (MODE_INSERT, 9)) ex_mutated =
     Some (ex_mutated\<lparr>statusMessage := InsertBlocked, statusTimer := 120\<rparr>) \<and>
   searchStage ex_mutated_next = S_TRAVERSING \<and>
   searchPath ex_mutated_next = searchPath ex_mutated \<and>
   searchIndex ex_mutated_next = searchIndex ex_mutated \<and>
   searchFrames ex_mutated_next = searchFrames ex_mutated \<and>
   flashCount ex_mutated_next = flashCount ex_mutated \<and>
   searchFinalNode ex_mutated_next = searchFinalNode ex_mutated \<and>
   searchValuePending ex_mutated_next = searchValuePending ex_mutated"
    using g3 a3 k3 by blast
  from r0 r1 r2 r3 k1 k3 a0 a1 a2 a3 w0 w1 w2 w3 show ?thesis by blast
qed

text \<open>
  C3, as the specification has it, fails on the empty tree: Search 5 is entered, and in the
  next frame, while that search traverses, Insert 7. The insertion is accepted, and eleven
  frames later it has attached a node, the search still being active.
\<close>

theorem insert_accepted_during_search:
  "run [\<lparr>cmd = Some (MODE_SEARCH, 5), alloc = 1\<rparr>] init = Some ex_searching \<and>
   searchStage ex_searching = S_TRAVERSING \<and>
   handle_enter (Some (MODE_INSERT, 7)) ex_searching \<noteq>
     Some (ex_searching\<lparr>statusMessage := InsertBlocked, statusTimer := 120\<rparr>) \<and>
   run (\<lparr>cmd = Some (MODE_INSERT, 7), alloc = 1\<rparr> # replicate 11 \<lparr>cmd = None, alloc = 1\<rparr>)
     ex_searching = Some ex_mutated \<and>
   searchStage ex_mutated = S_TRAVERSING \<and> statusMessage ex_mutated = Inserted 7 \<and>
   heap ex_searching 1 = None \<and>
   heap ex_mutated 1 = Some \<lparr>val = 7, left = None, right = None\<rparr>"
proof -
  have r: "run [\<lparr>cmd = Some (MODE_SEARCH, 5), alloc = 1\<rparr>] init = Some ex_searching"
    by (simp add: tick_def handle_enter_def StartSearch_def StartSearch_loop.simps
        frame_machines_def insert_machine_def delete_machine_def search_machine_def
        finalize_timer_def status_timer_def draw_populate_def post_populate_def
        SEARCH_STEP_FRAMES_def Let_def init_def ex_searching_def)
  have h: "handle_enter (Some (MODE_INSERT, 7)) ex_searching =
      Some (ex_searching\<lparr>insStage := INS_TRAVERSING, insValuePending := 7\<rparr>)"
    by (simp add: handle_enter_def StartInsertion_def StartInsertion_loop.simps init_def
        ex_searching_def)
  have n: "insStage (ex_searching\<lparr>insStage := INS_TRAVERSING, insValuePending := 7\<rparr>) \<noteq>
      insStage (ex_searching\<lparr>statusMessage := InsertBlocked, statusTimer := 120\<rparr>)"
    by (simp add: ex_searching_def init_def)
  have m: "run (\<lparr>cmd = Some (MODE_INSERT, 7), alloc = 1\<rparr> # replicate 11 \<lparr>cmd = None, alloc = 1\<rparr>)
      ex_searching = Some ex_mutated"
    by (simp add: ex_searching_def ex_mutated_def eval_nat_numeral tick_def handle_enter_def
        StartInsertion_def StartInsertion_loop.simps frame_machines_def insert_machine_def
        delete_machine_def search_machine_def finalize_timer_def status_timer_def
        draw_populate_def post_populate_def INS_STEP_FRAMES_def AttachNewNodeFromPending_def
        new_Node_def Let_def init_def)
  have e: "searchStage ex_searching = S_TRAVERSING" "searchStage ex_mutated = S_TRAVERSING"
    "statusMessage ex_mutated = Inserted 7" "heap ex_searching 1 = None"
    "heap ex_mutated 1 = Some \<lparr>val = 7, left = None, right = None\<rparr>"
    by (simp_all add: ex_searching_def ex_mutated_def init_def)
  have "handle_enter (Some (MODE_INSERT, 7)) ex_searching \<noteq>
     Some (ex_searching\<lparr>statusMessage := InsertBlocked, statusTimer := 120\<rparr>)"
  proof
    assume "handle_enter (Some (MODE_INSERT, 7)) ex_searching =
      Some (ex_searching\<lparr>statusMessage := InsertBlocked, statusTimer := 120\<rparr>)"
    then have "ex_searching\<lparr>insStage := INS_TRAVERSING, insValuePending := 7\<rparr> =
      ex_searching\<lparr>statusMessage := InsertBlocked, statusTimer := 120\<rparr>"
      unfolding h by (rule Some_inject)
    from arg_cong[OF this, of insStage] n show False by blast
  qed
  with r m e show ?thesis by blast
qed

text \<open>
  C4. While a deletion is active, a frame either leaves store and root as they are, or it
  is the commit of one of the three branches: the stage was the move of the successor, the
  move of the only child or the shrinking of the leaf, the stage after it is
  \<^verbatim>\<open>DEL_FINALIZE\<close>, the progress has reached 1, exactly one node has left the store and
  exactly one slot, the root or a child slot of a node that stays, has another content. A
  Delete that finds its target, entered while everything is idle, settles; between start
  and end exactly one node has left the store and exactly one slot has changed; and in
  every frame on the way the store is either still the one of the start, the deletion
  being before \<^verbatim>\<open>DEL_FINALIZE\<close>, or already the one of the end, the deletion being in
  \<^verbatim>\<open>DEL_FINALIZE\<close> or idle: there is one commit and no other change.
\<close>

theorem single_commit:
  "(inv t s \<and> delStage s \<noteq> DEL_IDLE \<and> tick i s = Some s' \<longrightarrow>
      heap s' = heap s \<and> root s' = root s \<or>
      (delStage s = DEL_MOVE_SUCCESSOR \<or> delStage s = DEL_MOVE_CHILD_UP \<or>
       delStage s = DEL_SHRINK_REMOVE) \<and>
      delStage s' = DEL_FINALIZE \<and> 1 \<le> animProgress s' \<and>
      (\<exists>y. y \<in> dom (heap s) \<and> dom (heap s') = dom (heap s) - {y} \<and>
           one_edit (heap s) (root s) (heap s') (root s') y)) \<and>
   (inv t s \<and> all_idle s \<and> find_node v t = Some x \<longrightarrow>
      (\<exists>s'' y. request MODE_DELETE v a s = Some s'' \<and> all_idle s'' \<and>
         y \<in> dom (heap s) \<and> dom (heap s'') = dom (heap s) - {y} \<and>
         one_edit (heap s) (root s) (heap s'') (root s'') y \<and>
         (\<forall>k w. run (\<lparr>cmd = Some (MODE_DELETE, v), alloc = a\<rparr> #
                      replicate k \<lparr>cmd = None, alloc = a\<rparr>) s = Some w \<longrightarrow>
            heap w = heap s \<and> root w = root s \<and> delStage w \<noteq> DEL_FINALIZE \<and>
              delStage w \<noteq> DEL_IDLE \<or>
            heap w = heap s'' \<and> root w = root s'' \<and>
              (delStage w = DEL_FINALIZE \<or> delStage w = DEL_IDLE))))"
proof -
  have p1: "heap s' = heap s \<and> root s' = root s \<or>
      (delStage s = DEL_MOVE_SUCCESSOR \<or> delStage s = DEL_MOVE_CHILD_UP \<or>
       delStage s = DEL_SHRINK_REMOVE) \<and>
      delStage s' = DEL_FINALIZE \<and> 1 \<le> animProgress s' \<and>
      (\<exists>y. y \<in> dom (heap s) \<and> dom (heap s') = dom (heap s) - {y} \<and>
           one_edit (heap s) (root s) (heap s') (root s') y)"
    if "inv t s" "delStage s \<noteq> DEL_IDLE" "tick i s = Some s'"
    by (rule tick_delete_frame[OF that])
  have p2: "\<exists>s'' y. request MODE_DELETE v a s = Some s'' \<and> all_idle s'' \<and>
         y \<in> dom (heap s) \<and> dom (heap s'') = dom (heap s) - {y} \<and>
         one_edit (heap s) (root s) (heap s'') (root s'') y \<and>
         (\<forall>k w. run (\<lparr>cmd = Some (MODE_DELETE, v), alloc = a\<rparr> #
                      replicate k \<lparr>cmd = None, alloc = a\<rparr>) s = Some w \<longrightarrow>
            heap w = heap s \<and> root w = root s \<and> delStage w \<noteq> DEL_FINALIZE \<and>
              delStage w \<noteq> DEL_IDLE \<or>
            heap w = heap s'' \<and> root w = root s'' \<and>
              (delStage w = DEL_FINALIZE \<or> delStage w = DEL_IDLE))"
    if I: "inv t s" and A: "all_idle s" and V: "find_node v t = Some x"
  proof -
    note T = inv_parts(1)[OF I] and D = inv_parts(2)[OF I]
    from request_delete[OF I A, of v a] V obtain s'' where
      r: "request MODE_DELETE v a s = Some s''" "all_idle s''" "inv (a_remove x t) s''"
      by auto
    from find_node_located(1)[OF is_tree_distinct[OF T] V] have X: "x \<in> addrs t" .
    from remove_is_one_edit[OF T D X inv_parts(1,2)[OF r(3)]] obtain y where
      y: "y \<in> dom (heap s)" "dom (heap s'') = dom (heap s) - {y}"
        "one_edit (heap s) (root s) (heap s'') (root s'') y" by blast
    let ?s1 = "s\<lparr>delTraversalPath := del_path v t, delTraversalIndex := 0,
             delFramesCounter := 0, delStage := DEL_TRAVERSING,
             delTargetParent := find_parent v t, delTargetNode := find_node v t,
             successorParent := None, successorNode := None, animNode := None,
             animReplaceNode := None, animProgress := 0, delValuePending := v\<rparr>"
    from A have H: "handle_enter (Some (MODE_DELETE, v)) s = Some ?s1"
      by (simp add: handle_enter_def all_idle_def StartDeletion_tree[OF T])
    from handle_enter_inv[OF I, of "Some (MODE_DELETE, v)"] H have I1: "inv t ?s1" by simp
    from A have n1: "insStage ?s1 = INS_IDLE" "searchStage ?s1 = S_IDLE"
      by (simp_all add: all_idle_def)
    from A V have P1: "delStage ?s1 \<noteq> DEL_IDLE \<and> delStage ?s1 \<noteq> DEL_FINALIZE \<and> t = t \<and>
        goal a t ?s1 = a_remove x t \<or>
        (delStage ?s1 = DEL_FINALIZE \<or> delStage ?s1 = DEL_IDLE) \<and> t = a_remove x t"
      by (simp add: goal_def all_idle_def)
    have frames: "heap w = heap s \<and> root w = root s \<and> delStage w \<noteq> DEL_FINALIZE \<and>
              delStage w \<noteq> DEL_IDLE \<or>
            heap w = heap s'' \<and> root w = root s'' \<and>
              (delStage w = DEL_FINALIZE \<or> delStage w = DEL_IDLE)"
      if "run (\<lparr>cmd = Some (MODE_DELETE, v), alloc = a\<rparr> #
               replicate k \<lparr>cmd = None, alloc = a\<rparr>) s = Some w" for k w
    proof -
      from that H obtain u1 where f: "frame_machines a ?s1 = Some u1"
        and kr: "run (replicate k \<lparr>cmd = None, alloc = a\<rparr>) u1 = Some w"
        by (auto simp: tick_def split: option.splits)
      from found_frame_step[OF I1 n1 P1 f] obtain t1 where
        s: "inv t1 u1" "insStage u1 = INS_IDLE" "searchStage u1 = S_IDLE"
          "delStage u1 \<noteq> DEL_IDLE \<and> delStage u1 \<noteq> DEL_FINALIZE \<and> t1 = t \<and>
             goal a t1 u1 = a_remove x t \<or>
           (delStage u1 = DEL_FINALIZE \<or> delStage u1 = DEL_IDLE) \<and> t1 = a_remove x t"
        by blast
      from found_run[OF s kr] obtain t2 where
        w: "inv t2 w" "delStage w \<noteq> DEL_IDLE \<and> delStage w \<noteq> DEL_FINALIZE \<and> t2 = t \<or>
           (delStage w = DEL_FINALIZE \<or> delStage w = DEL_IDLE) \<and> t2 = a_remove x t"
        by blast
      from w(2) show ?thesis
      proof
        assume c: "delStage w \<noteq> DEL_IDLE \<and> delStage w \<noteq> DEL_FINALIZE \<and> t2 = t"
        with w(1) have "inv t w" by simp
        from inv_heap_eq[OF this T D] c show ?thesis by simp
      next
        assume c: "(delStage w = DEL_FINALIZE \<or> delStage w = DEL_IDLE) \<and> t2 = a_remove x t"
        with w(1) have "inv (a_remove x t) w" by simp
        from inv_heap_eq[OF this inv_parts(1,2)[OF r(3)]] c show ?thesis by simp
      qed
    qed
    show ?thesis
      apply (rule exI[of _ s''], rule exI[of _ y])
      apply (intro conjI allI impI)
      by (rule r(1) r(2) y(1) y(2) y(3) frames | assumption)+
  qed
  from p1 p2 show ?thesis by blast
qed

theorem single_commit_witness:
  "inv ex_tree ex_moving \<and> delStage ex_moving = DEL_MOVE_SUCCESSOR \<and>
   tick \<lparr>cmd = None, alloc = 6\<rparr> ex_moving = Some ex_committed \<and>
   heap ex_committed \<noteq> heap ex_moving \<and>
   delStage ex_committed = DEL_FINALIZE \<and> 1 \<le> animProgress ex_committed \<and>
   (\<exists>y. y \<in> dom (heap ex_moving) \<and> dom (heap ex_committed) = dom (heap ex_moving) - {y} \<and>
        one_edit (heap ex_moving) (root ex_moving) (heap ex_committed) (root ex_committed) y) \<and>
   inv ex_tree_after ex_lifting \<and> delStage ex_lifting = DEL_MOVE_CHILD_UP \<and>
   tick \<lparr>cmd = None, alloc = 6\<rparr> ex_lifting = Some ex_lifted \<and>
   heap ex_lifted \<noteq> heap ex_lifting \<and>
   delStage ex_lifted = DEL_FINALIZE \<and> 1 \<le> animProgress ex_lifted \<and>
   (\<exists>y. y \<in> dom (heap ex_lifting) \<and> dom (heap ex_lifted) = dom (heap ex_lifting) - {y} \<and>
        one_edit (heap ex_lifting) (root ex_lifting) (heap ex_lifted) (root ex_lifted) y) \<and>
   inv ex_tree ex_shrinking \<and> delStage ex_shrinking = DEL_SHRINK_REMOVE \<and>
   tick \<lparr>cmd = None, alloc = 6\<rparr> ex_shrinking = Some ex_shrunk \<and>
   heap ex_shrunk \<noteq> heap ex_shrinking \<and>
   delStage ex_shrunk = DEL_FINALIZE \<and> 1 \<le> animProgress ex_shrunk \<and>
   (\<exists>y. y \<in> dom (heap ex_shrinking) \<and> dom (heap ex_shrunk) = dom (heap ex_shrinking) - {y} \<and>
        one_edit (heap ex_shrinking) (root ex_shrinking) (heap ex_shrunk) (root ex_shrunk) y) \<and>
   inv ex_tree ex_idle \<and> all_idle ex_idle \<and> find_node 30 ex_tree = Some 2 \<and>
   run (\<lparr>cmd = Some (MODE_DELETE, 30), alloc = 6\<rparr> # replicate 0 \<lparr>cmd = None, alloc = 6\<rparr>)
     ex_idle = Some ex_started \<and>
   (\<exists>s'' y. request MODE_DELETE 30 6 ex_idle = Some s'' \<and> all_idle s'' \<and>
      y \<in> dom (heap ex_idle) \<and> dom (heap s'') = dom (heap ex_idle) - {y} \<and>
      one_edit (heap ex_idle) (root ex_idle) (heap s'') (root s'') y \<and>
      heap ex_started = heap ex_idle \<and> root ex_started = root ex_idle)"
proof -
  have m: "delStage ex_moving = DEL_MOVE_SUCCESSOR" "delStage ex_moving \<noteq> DEL_IDLE"
    "heap ex_committed 5 \<noteq> heap ex_moving 5"
    by (simp_all add: ex_moving_def ex_committed_def ex_highlight_successor_def
        ex_highlight_def ex_heap_def ex_heap_after_def init_def)
  have l: "delStage ex_lifting = DEL_MOVE_CHILD_UP" "delStage ex_lifting \<noteq> DEL_IDLE"
    "heap ex_lifted 2 \<noteq> heap ex_lifting 2"
    by (simp_all add: ex_lifting_def ex_lifted_def ex_heap_after_def init_def)
  have k: "delStage ex_shrinking = DEL_SHRINK_REMOVE" "delStage ex_shrinking \<noteq> DEL_IDLE"
    "heap ex_shrunk 4 \<noteq> heap ex_shrinking 4"
    by (simp_all add: ex_shrinking_def ex_shrunk_def ex_heap_def init_def)
  from m(3) l(3) k(3) have ne: "heap ex_committed \<noteq> heap ex_moving"
    "heap ex_lifted \<noteq> heap ex_lifting" "heap ex_shrunk \<noteq> heap ex_shrinking"
    by metis+
  have i: "all_idle ex_idle" "find_node 30 ex_tree = Some 2"
    "heap ex_started = heap ex_idle" "root ex_started = root ex_idle"
    "delStage ex_started \<noteq> DEL_FINALIZE"
    by (simp_all add: all_idle_def ex_idle_def ex_started_def find_node_def ex_tree_def
        init_def)
  note tm = single_commit[of ex_tree ex_moving "\<lparr>cmd = None, alloc = 6\<rparr>" ex_committed]
  note tl = single_commit[of ex_tree_after ex_lifting "\<lparr>cmd = None, alloc = 6\<rparr>" ex_lifted]
  note tk = single_commit[of ex_tree ex_shrinking "\<lparr>cmd = None, alloc = 6\<rparr>" ex_shrunk]
  note ti = single_commit[of ex_tree ex_idle _ _ 30 2 6]
  have wm: "delStage ex_committed = DEL_FINALIZE \<and> 1 \<le> animProgress ex_committed \<and>
   (\<exists>y. y \<in> dom (heap ex_moving) \<and> dom (heap ex_committed) = dom (heap ex_moving) - {y} \<and>
        one_edit (heap ex_moving) (root ex_moving) (heap ex_committed) (root ex_committed) y)"
    using tm inv_ex_moving m(2) ex_moving_tick ne(1) by blast
  have wl: "delStage ex_lifted = DEL_FINALIZE \<and> 1 \<le> animProgress ex_lifted \<and>
   (\<exists>y. y \<in> dom (heap ex_lifting) \<and> dom (heap ex_lifted) = dom (heap ex_lifting) - {y} \<and>
        one_edit (heap ex_lifting) (root ex_lifting) (heap ex_lifted) (root ex_lifted) y)"
    using tl inv_ex_lifting l(2) ex_lifting_tick ne(2) by blast
  have wk: "delStage ex_shrunk = DEL_FINALIZE \<and> 1 \<le> animProgress ex_shrunk \<and>
   (\<exists>y. y \<in> dom (heap ex_shrinking) \<and> dom (heap ex_shrunk) = dom (heap ex_shrinking) - {y} \<and>
        one_edit (heap ex_shrinking) (root ex_shrinking) (heap ex_shrunk) (root ex_shrunk) y)"
    using tk inv_ex_shrinking k(2) ex_shrinking_tick ne(3) by blast
  have wi: "\<exists>s'' y. request MODE_DELETE 30 6 ex_idle = Some s'' \<and> all_idle s'' \<and>
      y \<in> dom (heap ex_idle) \<and> dom (heap s'') = dom (heap ex_idle) - {y} \<and>
      one_edit (heap ex_idle) (root ex_idle) (heap s'') (root s'') y \<and>
      heap ex_started = heap ex_idle \<and> root ex_started = root ex_idle"
    using ti inv_ex_idle i by blast
  from inv_ex_moving m(1) ex_moving_tick ne wm inv_ex_lifting l(1) ex_lifting_tick wl
    inv_ex_shrinking k(1) ex_shrinking_tick wk inv_ex_idle i(1,2) ex_started_run wi
  show ?thesis by simp
qed

text \<open>
  C5. On every tree, with everything idle, Delete of a value that no node holds is accepted
  and settles: at the end everything is idle again, the message is the not-found one, and
  store and root are what they were, so no node was created, freed or relinked and no
  value changed. The same holds in every frame on the way: after the frame of the command
  and any number of further frames, store and root are those of the start.
\<close>

theorem delete_absent_value:
  assumes "inv t s" and "all_idle s" and "v \<notin> set (inorder t)"
  shows "(\<exists>s'. request MODE_DELETE v a s = Some s' \<and> all_idle s' \<and>
            statusMessage s' = DeleteNotFound v \<and> heap s' = heap s \<and> root s' = root s \<and>
            is_tree (heap s') (root s') t) \<and>
         (\<forall>n u. run (\<lparr>cmd = Some (MODE_DELETE, v), alloc = a\<rparr> #
                      replicate n \<lparr>cmd = None, alloc = a\<rparr>) s = Some u \<longrightarrow>
                heap u = heap s \<and> root u = root s)"
proof -
  note I = assms(1) and A = assms(2) and V = assms(3)
  from request_delete_absent[OF I A V, of a] obtain s' where
    r: "request MODE_DELETE v a s = Some s'" "all_idle s'" "inv t s'"
      "statusMessage s' = DeleteNotFound v" by blast
  have "tree_ok t s" "tree_ok t s'" using I r(3) by (simp_all add: inv_def)
  from tree_ok_same_heap[OF this] have h: "heap s' = heap s" "root s' = root s" .
  let ?s1 = "s\<lparr>delTraversalPath := del_path v t, delTraversalIndex := 0,
             delFramesCounter := 0, delStage := DEL_TRAVERSING,
             delTargetParent := find_parent v t, delTargetNode := None,
             successorParent := None, successorNode := None, animNode := None,
             animReplaceNode := None, animProgress := 0, delValuePending := v\<rparr>"
  note H = delete_absent_start[OF I A V]
  from handle_enter_inv[OF I, of "Some (MODE_DELETE, v)"] H have I1: "inv t ?s1" by simp
  from A have n1: "insStage ?s1 = INS_IDLE" "searchStage ?s1 = S_IDLE"
    by (simp_all add: all_idle_def)
  have d1: "delStage ?s1 = DEL_TRAVERSING \<and> delTargetNode ?s1 = None \<or>
    delStage ?s1 = DEL_IDLE" by simp
  have "heap u = heap s \<and> root u = root s"
    if "run (\<lparr>cmd = Some (MODE_DELETE, v), alloc = a\<rparr> #
             replicate n \<lparr>cmd = None, alloc = a\<rparr>) s = Some u" for n u
  proof -
    from that H obtain u1 where f: "frame_machines a ?s1 = Some u1"
      and k: "run (replicate n \<lparr>cmd = None, alloc = a\<rparr>) u1 = Some u"
      by (auto simp: tick_def split: option.splits)
    note st = absent_frame_step[OF I1 n1 d1 f]
    from absent_run[OF st(1,2,3,7) k] st(4,5) show ?thesis by simp
  qed
  with r(1,2,4) h inv_parts(1)[OF r(3)] show ?thesis by blast
qed

theorem delete_absent_value_witness:
  "inv ex_tree ex_idle \<and> all_idle ex_idle \<and> 999 \<notin> set (inorder ex_tree) \<and>
   (\<exists>s'. request MODE_DELETE 999 6 ex_idle = Some s' \<and> all_idle s' \<and>
         statusMessage s' = DeleteNotFound 999 \<and> heap s' = ex_heap \<and> root s' = Some 1) \<and>
   run (\<lparr>cmd = Some (MODE_DELETE, 999), alloc = 6\<rparr> # replicate 3 \<lparr>cmd = None, alloc = 6\<rparr>)
     ex_idle = Some ex_absent \<and>
   heap ex_absent = ex_heap \<and> root ex_absent = Some 1"
proof -
  have a: "all_idle ex_idle" "999 \<notin> set (inorder ex_tree)"
    by (simp_all add: all_idle_def ex_idle_def init_def ex_tree_def)
  have e: "heap ex_idle = ex_heap" "root ex_idle = Some 1" by (simp_all add: ex_idle_def)
  have r: "run (\<lparr>cmd = Some (MODE_DELETE, 999), alloc = 6\<rparr> #
      replicate 3 \<lparr>cmd = None, alloc = 6\<rparr>) ex_idle = Some ex_absent"
    by (simp add: ex_absent_def ex_idle_def ex_heap_def eval_nat_numeral tick_def
        handle_enter_def StartDeletion_def StartDeletion_loop.simps frame_machines_def
        insert_machine_def delete_machine_def del_traversing_def search_machine_def
        finalize_timer_def status_timer_def draw_populate_def post_populate_def
        DEL_STEP_FRAMES_def Let_def init_def)
  from delete_absent_value[OF inv_ex_idle a, of 6] r inv_ex_idle a e show ?thesis by metis
qed



text \<open>
  C7. On every tree, with everything idle: Insert of \<open>v\<close> settles, then Delete of \<open>v\<close> is
  accepted, finds a node holding \<open>v\<close> and settles, and the tree the store then holds has
  the multiset of values of the tree at the start.
\<close>

theorem insert_then_delete_restores_values:
  assumes "inv t s" and "all_idle s" and "a \<notin> dom (heap s)"
  shows "\<exists>s1 s2 x t2. request MODE_INSERT v a s = Some s1 \<and> all_idle s1 \<and>
      find_node v (a_insert a v t) = Some x \<and>
      request MODE_DELETE v b s1 = Some s2 \<and> all_idle s2 \<and>
      t2 = a_remove x (a_insert a v t) \<and>
      is_tree (heap s2) (root s2) t2 \<and> dom (heap s2) = addrs t2 \<and>
      mset (inorder t2) = mset (inorder t)"
proof -
  note I = assms(1) and A = assms(2)
  note T = inv_parts(1)[OF I] and D = inv_parts(2)[OF I]
  from assms(3) D have F: "a \<notin> addrs t" by simp
  from request_insert[OF I A F, of v] obtain s1 where
    r1: "request MODE_INSERT v a s = Some s1" "all_idle s1" "inv (a_insert a v t) s1" by blast
  from a_find_a_insert[of v a t None] obtain x where
    x: "find_node v (a_insert a v t) = Some x" by (auto simp: find_node_def)
  from request_delete[OF r1(3) r1(2), of v b] x obtain s2 where
    r2: "request MODE_DELETE v b s1 = Some s2" "all_idle s2"
      "inv (a_remove x (a_insert a v t)) s2" by auto
  from is_tree_distinct[OF inv_parts(1)[OF r1(3)]] have dt: "distinct_tree (a_insert a v t)" .
  from find_node_located[OF dt x] obtain l r where
    loc: "x \<in> addrs (a_insert a v t)" "subtree x (a_insert a v t) = Nd l x v r" by blast
  from mset_inorder_a_remove[OF dt loc]
  have "mset (inorder (a_remove x (a_insert a v t))) = mset (inorder t)" by simp
  with r1(1,2) x r2(1,2) inv_parts(1,2)[OF r2(3)] show ?thesis by blast
qed

theorem insert_then_delete_restores_values_witness:
  "inv ex_tree ex_idle \<and> all_idle ex_idle \<and> 6 \<notin> dom (heap ex_idle) \<and>
   (\<exists>s1 s2 x t2. request MODE_INSERT 30 6 ex_idle = Some s1 \<and> all_idle s1 \<and>
      find_node 30 (a_insert 6 30 ex_tree) = Some x \<and>
      request MODE_DELETE 30 7 s1 = Some s2 \<and> all_idle s2 \<and>
      t2 = a_remove x (a_insert 6 30 ex_tree) \<and>
      is_tree (heap s2) (root s2) t2 \<and> dom (heap s2) = addrs t2 \<and>
      mset (inorder t2) = mset (inorder ex_tree))"
proof -
  have a: "all_idle ex_idle" "6 \<notin> dom (heap ex_idle)"
    by (simp_all add: all_idle_def ex_idle_def init_def ex_heap_def)
  from insert_then_delete_restores_values[OF inv_ex_idle a, of 30 7] inv_ex_idle a
  show ?thesis by blast
qed

text \<open>
  C8. Insert of any integer, entered while everything is idle, is accepted and settles;
  the allocator's node is the one new node of the store, a leaf holding the value, and the
  store holds the tree with the value inserted, one more occurrence of the value in its
  multiset. The path recorded on entry is the descent that goes left below a greater value
  and right otherwise, and at every node of that path the new node lands on that side; so
  below a node of the path that holds the value itself the left subtree is as before and
  the new node is in the right subtree.
\<close>

theorem insert_always_succeeds:
  assumes "inv t s" and "all_idle s" and "a \<notin> dom (heap s)"
  shows "\<exists>s1 s'. handle_enter (Some (MODE_INSERT, v)) s = Some s1 \<and>
      insTraversalPath s1 = ins_path v t \<and>
      request MODE_INSERT v a s = Some s' \<and> all_idle s' \<and>
      is_tree (heap s') (root s') (a_insert a v t) \<and>
      dom (heap s') = insert a (dom (heap s)) \<and>
      heap s' a = Some \<lparr>val = v, left = None, right = None\<rparr> \<and>
      mset (inorder (a_insert a v t)) = add_mset v (mset (inorder t)) \<and>
      (\<forall>x\<in>set (ins_path v t). \<forall>l w r. subtree x t = Nd l x w r \<longrightarrow>
         subtree x (a_insert a v t) =
           (if v < w then Nd (a_insert a v l) x w r else Nd l x w (a_insert a v r))) \<and>
      (\<forall>x\<in>set (ins_path v t). \<forall>l r. subtree x t = Nd l x v r \<longrightarrow>
         (\<exists>r'. subtree x (a_insert a v t) = Nd l x v r' \<and> a \<in> addrs r'))"
proof -
  note I = assms(1) and A = assms(2)
  note T = inv_parts(1)[OF I] and D = inv_parts(2)[OF I]
  from assms(3) D have F: "a \<notin> addrs t" by simp
  from is_tree_distinct[OF T] have dt: "distinct_tree t" .
  from A have H: "\<exists>s1. handle_enter (Some (MODE_INSERT, v)) s = Some s1 \<and>
      insTraversalPath s1 = ins_path v t"
    by (simp add: handle_enter_def all_idle_def StartInsertion_tree[OF T])
  from request_insert[OF I A F, of v] obtain s' where
    r: "request MODE_INSERT v a s = Some s'" "all_idle s'" "inv (a_insert a v t) s'" by blast
  note T' = inv_parts(1)[OF r(3)] and D' = inv_parts(2)[OF r(3)]
  have dom: "dom (heap s') = insert a (dom (heap s))" using D D' by simp
  have "is_tree (heap s') (Some a) (subtree a (a_insert a v t))"
    by (rule subtree_is_tree[OF T']) simp
  then obtain n where "heap s' a = Some n" "val n = v" "left n = None" "right n = None"
    unfolding subtree_a_insert_new[OF F] by auto
  then have leaf: "heap s' a = Some \<lparr>val = v, left = None, right = None\<rparr>" by (cases n) simp
  have p: "subtree x (a_insert a v t) =
           (if v < w then Nd (a_insert a v l) x w r else Nd l x w (a_insert a v r))"
    if "x \<in> set (ins_path v t)" "subtree x t = Nd l x w r" for x l w r
    by (rule subtree_a_insert_path[OF dt F that])
  have q: "\<exists>r'. subtree x (a_insert a v t) = Nd l x v r' \<and> a \<in> addrs r'"
    if "x \<in> set (ins_path v t)" "subtree x t = Nd l x v r" for x l r
    using p[OF that] by simp
  from H r(1,2) T' dom leaf p q show ?thesis by (simp del: addrs_a_insert)
qed

theorem insert_always_succeeds_witness:
  "inv ex_tree ex_idle \<and> all_idle ex_idle \<and> 6 \<notin> dom (heap ex_idle) \<and>
   2 \<in> set (ins_path 30 ex_tree) \<and>
   subtree 2 ex_tree = Nd (Nd Tip 4 20 Tip) 2 30 (Nd Tip 5 40 Tip) \<and>
   (\<exists>s'. request MODE_INSERT 30 6 ex_idle = Some s' \<and> all_idle s' \<and>
      is_tree (heap s') (root s') (a_insert 6 30 ex_tree) \<and>
      dom (heap s') = insert 6 (dom (heap ex_idle)) \<and>
      heap s' 6 = Some \<lparr>val = 30, left = None, right = None\<rparr>) \<and>
   (\<exists>r'. subtree 2 (a_insert 6 30 ex_tree) = Nd (Nd Tip 4 20 Tip) 2 30 r' \<and> 6 \<in> addrs r')"
proof -
  have a: "all_idle ex_idle" "6 \<notin> dom (heap ex_idle)"
    by (simp_all add: all_idle_def ex_idle_def init_def ex_heap_def)
  have b: "2 \<in> set (ins_path 30 ex_tree)"
    "subtree 2 ex_tree = Nd (Nd Tip 4 20 Tip) 2 30 (Nd Tip 5 40 Tip)"
    by (simp_all add: ex_tree_def)
  from insert_always_succeeds[OF inv_ex_idle a, of 30] inv_ex_idle a b show ?thesis by blast
qed

text \<open>
  C9. From the empty tree, 50, 30, 70, 20 and 40 are inserted, each left to settle (the
  allocator hands out the addresses 1 to 5): the store is then the scenario's tree. Search
  40, entered there, records the path of the nodes 1, 2, 5, which hold 50, 30 and 40, the
  last one as the node found, and settles with the message that 40 was found and the tree
  as it was. Delete 30 then settles: 30's node, which has the children 20 and 40, has the
  leaf 40 as successor; the commit of that branch turns the store into the one in which
  30's node holds 40 and the leaf is gone, and that is the store at the end, with the
  inorder sequence 20, 40, 50, 70.
\<close>

theorem scenario_search_and_delete:
  "\<exists>s5 u s6 s7.
     script ex_inserts init = Some s5 \<and> all_idle s5 \<and> heap s5 = ex_heap \<and> root s5 = Some 1 \<and>
     handle_enter (Some (MODE_SEARCH, 40)) s5 = Some u \<and> searchPath u = [1, 2, 5] \<and>
     map (\<lambda>x. map_option val (ex_heap x)) [1, 2, 5] = [Some 50, Some 30, Some 40] \<and>
     searchFinalNode u = Some 5 \<and>
     request MODE_SEARCH 40 6 s5 = Some s6 \<and> all_idle s6 \<and> statusMessage s6 = Found 40 \<and>
     heap s6 = ex_heap \<and> root s6 = Some 1 \<and>
     ex_heap 2 = Some \<lparr>val = 30, left = Some 4, right = Some 5\<rparr> \<and>
     map_option val (ex_heap 4) = Some 20 \<and> map_option val (ex_heap 5) = Some 40 \<and>
     FindInorderSuccessor ex_heap (Some 2) = Some (Some 2, Some 5) \<and>
     commit_move_successor ex_heap (Some 2) (Some 2) (Some 5) = Some ex_heap_after \<and>
     request MODE_DELETE 30 6 s6 = Some s7 \<and> all_idle s7 \<and>
     heap s7 = ex_heap_after \<and> root s7 = Some 1 \<and>
     ex_heap_after 2 = Some \<lparr>val = 40, left = Some 4, right = None\<rparr> \<and>
     ex_heap_after 5 = None \<and> dom ex_heap_after = {1, 2, 3, 4} \<and>
     is_tree ex_heap_after (Some 1) ex_tree_after \<and> inorder ex_tree_after = [20, 40, 50, 70]"
proof -
  from ex_script_inserts obtain s5 where
    5: "script ex_inserts init = Some s5" "all_idle s5" "inv ex_tree s5" by blast
  note h5 = inv_heap_eq[OF 5(3) ex_tree_ok(1,2)]
  note T5 = inv_parts(1)[OF 5(3)]
  let ?u = "s5\<lparr>searchPath := del_path 40 ex_tree, searchIndex := 0, searchFrames := 0,
             flashCount := 0, searchFinalNode := find_node 40 ex_tree,
             searchStage := S_TRAVERSING, searchValuePending := 40\<rparr>"
  from 5(2) have hu: "handle_enter (Some (MODE_SEARCH, 40)) s5 = Some ?u"
    by (simp add: handle_enter_def all_idle_def StartSearch_tree[OF T5])
  have pu: "searchPath ?u = [1, 2, 5]" "searchFinalNode ?u = Some 5"
    by (simp_all add: ex_tree_def find_node_def)
  have vals: "map (\<lambda>x. map_option val (ex_heap x)) [1, 2, 5] = [Some 50, Some 30, Some 40]"
    "ex_heap 2 = Some \<lparr>val = 30, left = Some 4, right = Some 5\<rparr>"
    "map_option val (ex_heap 4) = Some 20" "map_option val (ex_heap 5) = Some 40"
    by (simp_all add: ex_heap_def)
  have fn: "find_node 40 ex_tree \<noteq> None" by (simp add: find_node_def ex_tree_def)
  from request_search_found[OF 5(3,2) fn, of 6] obtain s6 where
    6: "request MODE_SEARCH 40 6 s5 = Some s6" "all_idle s6" "inv ex_tree s6"
      "statusMessage s6 = Found 40" by blast
  note h6 = inv_heap_eq[OF 6(3) ex_tree_ok(1,2)]
  have succ: "FindInorderSuccessor ex_heap (Some 2) = Some (Some 2, Some 5)"
    by (simp add: FindInorderSuccessor_def FindInorderSuccessor_loop.simps ex_heap_def)
  have "commit_move_successor ex_heap (Some 2) (Some 2) (Some 5) =
      Some (ex_heap(2 \<mapsto> \<lparr>val = 40, left = Some 4, right = None\<rparr>, 5 := None))"
    by (simp add: commit_move_successor_def copy_successor_value_def unlink_successor_def
        DeleteNodePointer_def deref_def set_val_def set_right_def set_left_def ex_heap_def)
  moreover have "ex_heap(2 \<mapsto> \<lparr>val = 40, left = Some 4, right = None\<rparr>, 5 := None) =
      ex_heap_after"
    by (rule ext) (simp add: ex_heap_def ex_heap_after_def)
  ultimately have cm: "commit_move_successor ex_heap (Some 2) (Some 2) (Some 5) =
      Some ex_heap_after" by simp
  from ex_delete[OF 6(3,2), of 6] obtain s7 where
    7: "request MODE_DELETE 30 6 s6 = Some s7" "all_idle s7" "inv ex_tree_after s7" by blast
  note h7 = inv_heap_eq[OF 7(3) ex_tree_after_ok(1,2)]
  have after: "ex_heap_after 2 = Some \<lparr>val = 40, left = Some 4, right = None\<rparr>"
    "ex_heap_after 5 = None" "dom ex_heap_after = {1, 2, 3, 4}"
    "inorder ex_tree_after = [20, 40, 50, 70]"
    by (auto simp: ex_heap_after_def ex_tree_after_def)
  show ?thesis
    apply (rule exI[of _ s5], rule exI[of _ ?u], rule exI[of _ s6], rule exI[of _ s7])
    apply (intro conjI)
    by (fact 5(1) 5(2) h5 hu pu vals 6(1) 6(2) 6(4) h6 succ cm 7(1) 7(2) h7 after
        ex_tree_after_ok(1))+
qed



end
